(* ===== verification/Prelude.thy ===== *)
theory Prelude
  imports Main "HOL-Library.Word" "HOL-Library.Code_Target_Nat"
begin

text \<open>
  Shared vocabulary of the development: the C integer types as words, byte blocks, the
  result convention of the library's functions, and the C allocator as an oracle.

  A C function that takes a pointer to its state and returns 1 or 0 is an operation
  \<open>'s \<Rightarrow> 'a option \<times> 's\<close>: it returns its out-parameters on success, \<open>None\<close> when the C
  returns 0, and in both cases the state it leaves behind, because the code is free to
  change the state before it fails. \<open>size_t\<close> values are naturals below \<open>2^64\<close>; where the
  code computes with them and checks for wrap-around, the sum is \<open>size_add\<close>.
\<close>

unbundle bit_operations_syntax

section \<open>Machine types\<close>

type_synonym u8 = "8 word"
type_synonym u16 = "16 word"
type_synonym u32 = "32 word"
type_synonym u64 = "64 word"
type_synonym bytes = "u8 list"

abbreviation SIZE_MAX :: nat where
  "SIZE_MAX \<equiv> 18446744073709551615"

abbreviation INT_MAX :: nat where
  "INT_MAX \<equiv> 2147483647"

definition size_add :: "nat \<Rightarrow> nat \<Rightarrow> nat" where
  "size_add a b = (a + b) mod 2 ^ 64"

named_theorems op_defs \<open>the combinators of operations with state and failure\<close>
named_theorems view_simps \<open>operations on a canonical string of bytes\<close>

lemma size_add_exact [simp]: "a + b \<le> SIZE_MAX \<Longrightarrow> size_add a b = a + b"
  by (simp add: size_add_def)

lemma size_add_overflow_iff:
  assumes "a \<le> SIZE_MAX" "b \<le> SIZE_MAX"
  shows "size_add a b < a \<longleftrightarrow> SIZE_MAX < a + b"
proof (cases "a + b \<le> SIZE_MAX")
  case True
  then show ?thesis by simp
next
  case False
  then have "size_add a b = a + b - 2 ^ 64"
    using assms by (simp add: size_add_def le_mod_geq)
  then show ?thesis using False assms by simp
qed

section \<open>Operations with state and failure\<close>

type_synonym ('s, 'a) op = "'s \<Rightarrow> 'a option \<times> 's"

definition op_ret :: "'a \<Rightarrow> ('s, 'a) op" where
  [op_defs]: "op_ret x = (\<lambda>s. (Some x, s))"

definition op_fail :: "('s, 'a) op" where
  [op_defs]: "op_fail = (\<lambda>s. (None, s))"

definition op_bind :: "('s, 'a) op \<Rightarrow> ('a \<Rightarrow> ('s, 'b) op) \<Rightarrow> ('s, 'b) op" where
  [op_defs]: "op_bind m f =
     (\<lambda>s. case m s of (None, s') \<Rightarrow> (None, s') | (Some x, s') \<Rightarrow> f x s')"

lemma op_bind_None [simp]: "m s = (None, s') \<Longrightarrow> op_bind m f s = (None, s')"
  by (simp add: op_bind_def)

lemma op_bind_Some [simp]: "m s = (Some x, s') \<Longrightarrow> op_bind m f s = f x s'"
  by (simp add: op_bind_def)

lemma op_bind_SomeE:
  assumes "op_bind m f s = (Some y, s'')"
  obtains x s' where "m s = (Some x, s')" and "f x s' = (Some y, s'')"
  using assms by (auto simp: op_bind_def split: prod.splits option.splits)

lemma op_ret_apply [simp]: "op_ret x s = (Some x, s)"
  by (simp add: op_ret_def)

lemma op_fail_apply [simp]: "op_fail s = (None, s)"
  by (simp add: op_fail_def)

section \<open>Blocks of memory\<close>

text \<open>\<open>blit\<close> is \<open>memcpy\<close>/\<open>memmove\<close> of the bytes \<open>xs\<close> to index \<open>i\<close> of a block.\<close>

definition blit :: "'a list \<Rightarrow> nat \<Rightarrow> 'a list \<Rightarrow> 'a list" where
  "blit ys i xs = take i ys @ xs @ drop (i + length xs) ys"

lemma length_blit [simp]: "i + length xs \<le> length ys \<Longrightarrow> length (blit ys i xs) = length ys"
  by (simp add: blit_def)

lemma blit_Nil [simp]: "blit ys i [] = ys"
  by (simp add: blit_def)

lemma take_blit [simp]: "i \<le> length ys \<Longrightarrow> n \<le> i \<Longrightarrow> take n (blit ys i xs) = take n ys"
  by (simp add: blit_def min_def)

lemma take_blit_all:
  "i + length xs \<le> length ys \<Longrightarrow> take (i + length xs) (blit ys i xs) = take i ys @ xs"
  by (simp add: blit_def)

lemma drop_blit:
  "i + length xs \<le> length ys \<Longrightarrow> i + length xs \<le> n \<Longrightarrow> drop n (blit ys i xs) = drop n ys"
  by (simp add: blit_def)

lemma nth_blit:
  assumes "i + length xs \<le> length ys" "k < length ys"
  shows "blit ys i xs ! k = (if i \<le> k \<and> k < i + length xs then xs ! (k - i) else ys ! k)"
  using assms by (auto simp: blit_def nth_append min_def)

lemma list_update_as_blit: "i < length ys \<Longrightarrow> ys[i := x] = blit ys i [x]"
  by (simp add: blit_def upd_conv_take_nth_drop)

section \<open>Big-endian numbers\<close>

fun be_nat :: "nat \<Rightarrow> bytes \<Rightarrow> nat" where
  "be_nat acc [] = acc"
| "be_nat acc (b # bs) = be_nat (256 * acc + unat b) bs"

lemma be_nat_append: "be_nat acc (xs @ ys) = be_nat (be_nat acc xs) ys"
  by (induction acc xs rule: be_nat.induct) auto

lemma be_nat_acc: "be_nat acc bs = acc * 256 ^ length bs + be_nat 0 bs"
proof (induction bs arbitrary: acc)
  case Nil
  show ?case by simp
next
  case (Cons b bs)
  have "be_nat acc (b # bs) = (256 * acc + unat b) * 256 ^ length bs + be_nat 0 bs"
    using Cons.IH [of "256 * acc + unat b"] by simp
  also have "\<dots> = acc * 256 ^ length (b # bs) + (unat b * 256 ^ length bs + be_nat 0 bs)"
    by (simp add: algebra_simps)
  also have "unat b * 256 ^ length bs + be_nat 0 bs = be_nat 0 (b # bs)"
    using Cons.IH [of "unat b"] by simp
  finally show ?case .
qed

lemma unat_u8_less [simp]: "unat (b :: u8) < 256"
  using unsigned_less [of b] by simp

lemma be_nat_bound: "be_nat 0 bs < 256 ^ length bs"
proof (induction bs)
  case Nil
  show ?case by simp
next
  case (Cons b bs)
  have "be_nat 0 (b # bs) = unat b * 256 ^ length bs + be_nat 0 bs"
    using be_nat_acc [of "unat b" bs] by simp
  also have "\<dots> < unat b * 256 ^ length bs + 256 ^ length bs"
    using Cons.IH by simp
  also have "\<dots> = Suc (unat b) * 256 ^ length bs" by simp
  also have "\<dots> \<le> 256 * 256 ^ length bs"
    using unat_u8_less [of b] by (intro mult_right_mono) (auto simp: Suc_le_eq)
  finally show ?case by simp
qed

fun nat_be :: "nat \<Rightarrow> nat \<Rightarrow> bytes" where
  "nat_be 0 n = []"
| "nat_be (Suc k) n = nat_be k (n div 256) @ [of_nat n]"

lemma unat_u8_le: "unat (b :: u8) \<le> 255"
  using unat_u8_less [of b] by linarith

lemma length_nat_be [simp]: "length (nat_be k n) = k"
  by (induction k arbitrary: n) auto

lemma unat_of_nat_u8: "unat (of_nat n :: u8) = n mod 256"
  by (simp add: unat_of_nat)

lemma of_nat_mod_256 [simp]: "(of_nat (n mod 256) :: u8) = of_nat n"
  by (metis unat_of_nat_u8 mod_mod_trivial word_unat_eq_iff)

lemma be_nat_nat_be: "be_nat 0 (nat_be k n) = n mod 256 ^ k"
proof (induction k arbitrary: n)
  case 0
  then show ?case by simp
next
  case (Suc k)
  have "be_nat 0 (nat_be (Suc k) n) = 256 * (n div 256 mod 256 ^ k) + n mod 256"
    by (simp add: be_nat_append Suc.IH unat_of_nat_u8)
  also have "\<dots> = n mod 256 ^ Suc k"
    by (simp add: mod_mult2_eq)
  finally show ?case .
qed

lemma nat_be_be_nat: "length bs = k \<Longrightarrow> nat_be k (be_nat 0 bs) = bs"
proof (induction k arbitrary: bs)
  case 0
  then show ?case by simp
next
  case (Suc k)
  then obtain cs c where bs: "bs = cs @ [c]" and len: "length cs = k"
    by (metis length_Suc_conv_rev)
  have "be_nat 0 bs = 256 * be_nat 0 cs + unat c"
    by (simp add: bs be_nat_append)
  moreover have "(of_nat (256 * be_nat 0 cs + unat c) :: u8) = c"
    using unat_u8_less [of c] by (metis mod_mult_self4 of_nat_mod_256 mod_less unat_of_nat_u8 word_unat_eq_iff)
  ultimately have "be_nat 0 bs div 256 = be_nat 0 cs" and "(of_nat (be_nat 0 bs) :: u8) = c"
    using unat_u8_less [of c] by auto
  then show ?case using Suc.IH [OF len] bs by simp
qed

lemma be_nat_zero_bound: "length bs \<le> k \<Longrightarrow> be_nat 0 bs < 256 ^ k"
  by (meson be_nat_bound less_le_trans one_le_numeral power_increasing)

text \<open>The C idiom \<open>(r << 8) | b\<close>, as long as nothing is shifted out.\<close>

lemma nat_shift_or_byte:
  assumes "y < 256"
  shows "push_bit 8 x OR y = 256 * x + (y :: nat)"
proof -
  have "y = take_bit 8 y"
    using assms by (simp add: take_bit_eq_mod)
  then have "bit y n \<Longrightarrow> \<not> 8 \<le> n" for n
    by (metis bit_take_bit_iff not_le)
  then have "push_bit 8 x AND y = 0"
    by (intro bit_eqI) (auto simp: bit_and_iff bit_push_bit_iff)
  then show ?thesis
    by (simp add: disjunctive_add_eq_or [symmetric] push_bit_eq_mult)
qed

lemma unat_shift_or_byte:
  fixes a :: "'a::len word" and b :: u8
  assumes "256 * unat a + unat b < 2 ^ LENGTH('a)"
  shows "unat (push_bit 8 a OR ucast b) = 256 * unat a + unat b"
proof -
  have "unat (push_bit 8 a) = push_bit 8 (unat a)"
    unfolding unsigned_push_bit_eq
    using assms by (intro take_bit_nat_eq_self) (simp add: push_bit_eq_mult)
  moreover have "unat (ucast b :: 'a word) = unat b"
    unfolding unsigned_ucast_eq using assms by (intro take_bit_nat_eq_self) simp
  ultimately show ?thesis
    by (simp add: unsigned_or_eq nat_shift_or_byte)
qed

lemma unat_ucast_u8:
  "8 \<le> LENGTH('a) \<Longrightarrow> unat (ucast (b :: u8) :: 'a::len word) = unat b"
  unfolding unsigned_ucast_eq
  using power_increasing [of 8 "LENGTH('a)" "2 :: nat"]
  by (intro take_bit_nat_eq_self less_le_trans [OF unat_u8_less]) simp

lemma ucast_u8_u32_inject [simp]: "(ucast (a :: u8) :: u32) = ucast b \<longleftrightarrow> a = b"
  by (auto simp: word_unat_eq_iff unat_ucast_u8)

definition be_word :: "bytes \<Rightarrow> 'a::len word \<Rightarrow> 'a word" where
  "be_word = fold (\<lambda>b r. push_bit 8 r OR ucast b)"

lemma shift_or_byte: "push_bit 8 a OR ucast (b :: u8) = 256 * a + ucast b" for a :: "'a::len word"
proof -
  have "push_bit 8 a AND ucast b = 0"
    by (rule bit_word_eqI) (auto simp: bit_and_iff bit_push_bit_iff bit_ucast_iff dest: bit_imp_le_length)
  then have "push_bit 8 a OR ucast b = push_bit 8 a + ucast b" by (simp add: disjunctive_add_eq_or)
  then show ?thesis by (simp add: push_bit_eq_mult mult.commute)
qed

text \<open>Evaluation with integers.\<close>

lemma be_word_code [code]: "be_word bs a = word_of_int (fold (\<lambda>b n. 256 * n + uint b) bs (uint a))"
proof -
  have "fold (\<lambda>b r. push_bit 8 r OR ucast b) bs (word_of_int n :: 'a word) = word_of_int (fold (\<lambda>b n. 256 * n + uint b) bs n)" for n
  proof (induction bs arbitrary: n)
    case Nil
    then show ?case by simp
  next
    case (Cons b bs)
    have "push_bit 8 (word_of_int n :: 'a word) OR ucast b = word_of_int (256 * n + uint b)"
      unfolding shift_or_byte by (simp add: unsigned_ucast_eq)
    then show ?case using Cons.IH [of "256 * n + uint b"] by simp
  qed
  from this [of "uint a"] show ?thesis by (simp add: be_word_def)
qed
lemma unat_be_word:
  "unat a * 256 ^ length bs + be_nat 0 bs < 2 ^ LENGTH('a) \<Longrightarrow>
     unat (be_word bs a) = be_nat (unat a) bs" for a :: "'a::len word"
proof (induction bs arbitrary: a)
  case Nil
  then show ?case by (simp add: be_word_def)
next
  case (Cons b bs)
  have eq: "be_nat (256 * unat a + unat b) bs = unat a * 256 ^ length (b # bs) + be_nat 0 (b # bs)"
    using be_nat_acc [of "unat a" "b # bs"] by simp
  have split: "be_nat (256 * unat a + unat b) bs = (256 * unat a + unat b) * 256 ^ length bs + be_nat 0 bs"
    by (rule be_nat_acc)
  have "256 * unat a + unat b \<le> (256 * unat a + unat b) * 256 ^ length bs" by simp
  then have small: "256 * unat a + unat b < 2 ^ LENGTH('a)"
    using Cons.prems eq split by linarith
  have step: "unat (push_bit 8 a OR ucast b) = 256 * unat a + unat b"
    by (rule unat_shift_or_byte [OF small])
  have "unat (be_word bs (push_bit 8 a OR ucast b)) = be_nat (256 * unat a + unat b) bs"
    using Cons.IH [of "push_bit 8 a OR ucast b"] Cons.prems eq split by (simp add: step)
  then show ?case by (simp add: be_word_def)
qed

section \<open>The C allocator\<close>

text \<open>
  \<open>OPENSSL_malloc\<close>, \<open>OPENSSL_realloc\<close> and \<open>OPENSSL_free\<close> are the C library's (\<open>mem.h\<close>).
  Whether the \<open>n\<close>-th allocation succeeds is up to the platform (\<open>alloc_ok\<close>), and so are the
  bytes of a fresh block (\<open>fresh\<close>): no theorem assumes anything about them that it does not
  state.
\<close>

record env =
  alloc_ok :: "nat \<Rightarrow> bool"
  alloc_n :: nat
  fresh :: "nat \<Rightarrow> u8"

definition malloc_ok :: "env \<Rightarrow> bool" where
  "malloc_ok e \<longleftrightarrow> alloc_ok e (alloc_n e)"

definition tick :: "env \<Rightarrow> env" where
  "tick e = e\<lparr>alloc_n := Suc (alloc_n e)\<rparr>"

definition never_fails :: "env \<Rightarrow> bool" where
  "never_fails e \<longleftrightarrow> (\<forall>n. alloc_ok e n)"

definition libc_malloc :: "nat \<Rightarrow> (env, bytes) op" where
  "libc_malloc n e = (if malloc_ok e then Some (map (fresh e) [0..<n]) else None, tick e)"

definition libc_realloc :: "bytes \<Rightarrow> nat \<Rightarrow> (env, bytes) op" where
  "libc_realloc p n e =
     (if malloc_ok e then Some (take n p @ map (fresh e) [length p..<n]) else None, tick e)"

text \<open>An allocator that always succeeds and hands out zeroed blocks, for concrete runs.\<close>

definition plain_env :: env where
  "plain_env = \<lparr>alloc_ok = (\<lambda>n. True), alloc_n = 0, fresh = (\<lambda>n. 0)\<rparr>"

lemma never_fails_plain [simp]: "never_fails plain_env" "malloc_ok plain_env"
  by (simp_all add: plain_env_def never_fails_def malloc_ok_def)

lemma tick_simps [simp]:
  "alloc_ok (tick e) = alloc_ok e" "fresh (tick e) = fresh e"
  "alloc_n (tick e) = Suc (alloc_n e)" "never_fails (tick e) = never_fails e"
  by (simp_all add: tick_def never_fails_def)

lemma never_fails_malloc_ok [simp]: "never_fails e \<Longrightarrow> malloc_ok e"
  by (simp add: never_fails_def malloc_ok_def)

lemma libc_malloc_length: "libc_malloc n e = (Some p, e') \<Longrightarrow> length p = n"
  by (auto simp: libc_malloc_def split: if_splits)

lemma libc_realloc_length:
  "length p \<le> n \<Longrightarrow> libc_realloc p n e = (Some q, e') \<Longrightarrow> length q = n \<and> take (length p) q = p"
  by (auto simp: libc_realloc_def split: if_splits)

end
