(* ===== verification/Mem.thy ===== *)
theory Mem
  imports Prelude
begin

text \<open>
  The byte-level helpers of \<open>crypto/mem.c\<close> that the other components call: the constant-time
  comparison, the FNV-1a hash of the hash tables, \<open>OPENSSL_strnlen\<close> and the reallocation that
  clears the old block. A loop over \<open>i < len\<close> that reads \<open>p[i]\<close> is a fold over the first
  \<open>len\<close> bytes of the block at \<open>p\<close>.
\<close>

section \<open>Definitions\<close>

definition CRYPTO_memcmp :: "bytes \<Rightarrow> bytes \<Rightarrow> nat \<Rightarrow> u8" where
  "CRYPTO_memcmp a b len =
     fold (\<lambda>(p, q) x. x OR (p XOR q)) (zip (take len a) (take len b)) 0"

definition OPENSSL_hash32 :: "bytes \<Rightarrow> nat \<Rightarrow> u32" where
  "OPENSSL_hash32 ptr len =
     fold (\<lambda>b h. (h XOR ucast b) * 16777619) (take len ptr) 2166136261"

fun strnlen_from :: "nat \<Rightarrow> bytes \<Rightarrow> nat \<Rightarrow> nat" where
  "strnlen_from i (c # cs) len =
     (if i < len then if c = 0 then i else strnlen_from (Suc i) cs len else len)"
| "strnlen_from i [] len = len"

definition OPENSSL_strnlen :: "bytes \<Rightarrow> nat \<Rightarrow> nat" where
  "OPENSSL_strnlen s len = strnlen_from 0 s len"

definition OPENSSL_realloc_clean :: "bytes option \<Rightarrow> nat \<Rightarrow> nat \<Rightarrow> (env, bytes) op" where
  "OPENSSL_realloc_clean ptr old_size new_size =
     (case ptr of
        None \<Rightarrow> libc_malloc new_size
      | Some p \<Rightarrow>
          if new_size = 0 then op_fail
          else if new_size < old_size then op_fail
          else op_bind (libc_malloc new_size) (\<lambda>ret. op_ret (blit ret 0 (take old_size p))))"

section \<open>Lemmas\<close>

lemma word_or_eq_0_iff [simp]: "(x :: 'a::len word) OR y = 0 \<longleftrightarrow> x = 0 \<and> y = 0"
  by (auto simp: bit_eq_iff bit_or_iff)

lemma word_xor_eq_0_iff [simp]: "(x :: 'a::len word) XOR y = 0 \<longleftrightarrow> x = y"
  by (auto simp: bit_eq_iff bit_xor_iff)

lemma memcmp_fold_eq_0:
  "fold (\<lambda>(p, q) x. x OR (p XOR q)) ps (x :: u8) = 0 \<longleftrightarrow> x = 0 \<and> (\<forall>(p, q) \<in> set ps. p = q)"
  by (induction ps arbitrary: x) (auto simp: case_prod_beta)

lemma zip_all_eq_iff:
  "length xs = length ys \<Longrightarrow> (\<forall>(p, q) \<in> set (zip xs ys). p = q) \<longleftrightarrow> xs = ys"
  by (induction xs ys rule: list_induct2) auto

lemma CRYPTO_memcmp_eq_0:
  assumes "len \<le> length a" "len \<le> length b"
  shows "CRYPTO_memcmp a b len = 0 \<longleftrightarrow> take len a = take len b"
  using assms unfolding CRYPTO_memcmp_def memcmp_fold_eq_0
  by (subst zip_all_eq_iff) auto

lemma OPENSSL_hash32_take: "OPENSSL_hash32 (take len p) len = OPENSSL_hash32 p len"
  by (simp add: OPENSSL_hash32_def)

lemma strnlen_from_eq:
  "i \<le> len \<Longrightarrow> len \<le> i + length s \<Longrightarrow>
     strnlen_from i s len = i + length (takeWhile (\<lambda>c. c \<noteq> 0) (take (len - i) s))"
proof (induction i s len rule: strnlen_from.induct)
  case (1 i c cs len)
  then show ?case by (cases "len - i") (auto simp: Suc_diff_Suc [symmetric] diff_Suc split: nat.splits)
qed auto

lemma OPENSSL_strnlen_eq:
  "len \<le> length s \<Longrightarrow> OPENSSL_strnlen s len = length (takeWhile (\<lambda>c. c \<noteq> 0) (take len s))"
  by (simp add: OPENSSL_strnlen_def strnlen_from_eq)

lemma realloc_clean_keeps_prefix:
  assumes "OPENSSL_realloc_clean (Some p) old new e = (Some q, e')" "old \<le> length p"
  shows "length q = new \<and> take old q = take old p"
proof -
  from assms have "old \<le> new"
    and "op_bind (libc_malloc new) (\<lambda>ret. op_ret (blit ret 0 (take old p))) e = (Some q, e')"
    by (auto simp: OPENSSL_realloc_clean_def split: if_splits)
  then obtain r where "length r = new" and "q = blit r 0 (take old p)"
    by (auto elim!: op_bind_SomeE dest: libc_malloc_length)
  then show ?thesis using \<open>old \<le> new\<close> assms(2) by (simp add: blit_def min_def)
qed

end
