(* ===== verification/Cbs.thy ===== *)
theory Cbs
  imports Mem
begin

text \<open>
  The byte-string reader of \<open>crypto/bytestring/cbs.c\<close>. A \<open>CBS\<close> is a pointer into constant
  memory and a length. The pointer is the list of the bytes from it to the end of the object
  it points into, so a \<open>CBS\<close> made from a longer buffer still sees the bytes behind it, and
  \<open>cbs_wf\<close> says that the delimited bytes lie inside the object. Out-parameters of a call that
  returns 0 are not modelled; the state of the \<open>CBS\<close> after such a call is.
\<close>

section \<open>State\<close>

record CBS =
  cbs_data :: bytes
  cbs_len :: nat

abbreviation CBS_ASN1_BOOLEAN :: u32 where "CBS_ASN1_BOOLEAN \<equiv> 0x1"
abbreviation CBS_ASN1_INTEGER :: u32 where "CBS_ASN1_INTEGER \<equiv> 0x2"
abbreviation CBS_ASN1_BITSTRING :: u32 where "CBS_ASN1_BITSTRING \<equiv> 0x3"
abbreviation CBS_ASN1_OCTETSTRING :: u32 where "CBS_ASN1_OCTETSTRING \<equiv> 0x4"
abbreviation CBS_ASN1_CONSTRUCTED :: u32 where "CBS_ASN1_CONSTRUCTED \<equiv> 0x20"

section \<open>Bytes and integers\<close>

definition CBS_init :: "bytes \<Rightarrow> nat \<Rightarrow> CBS" where
  "CBS_init p n = \<lparr>cbs_data = p, cbs_len = n\<rparr>"

definition cbs_get :: "nat \<Rightarrow> (CBS, bytes) op" where
  "cbs_get n cbs =
     (if cbs_len cbs < n then (None, cbs)
      else (Some (cbs_data cbs),
            cbs\<lparr>cbs_data := drop n (cbs_data cbs), cbs_len := cbs_len cbs - n\<rparr>))"

definition CBS_skip :: "nat \<Rightarrow> (CBS, unit) op" where
  "CBS_skip n = op_bind (cbs_get n) (\<lambda>_. op_ret ())"

definition CBS_data :: "CBS \<Rightarrow> bytes" where
  "CBS_data cbs = cbs_data cbs"

definition CBS_len :: "CBS \<Rightarrow> nat" where
  "CBS_len cbs = cbs_len cbs"

definition CBS_contains_zero_byte :: "CBS \<Rightarrow> bool" where
  "CBS_contains_zero_byte cbs \<longleftrightarrow> 0 \<in> set (take (cbs_len cbs) (cbs_data cbs))"

definition CBS_mem_equal :: "CBS \<Rightarrow> bytes \<Rightarrow> nat \<Rightarrow> bool" where
  "CBS_mem_equal cbs p n \<longleftrightarrow>
     (if n \<noteq> cbs_len cbs then False else CRYPTO_memcmp (cbs_data cbs) p n = 0)"

definition cbs_get_u :: "nat \<Rightarrow> (CBS, u32) op" where
  "cbs_get_u n = op_bind (cbs_get n) (\<lambda>p.
     op_ret (fold (\<lambda>b result. push_bit 8 result OR ucast b) (take n p) 0))"

definition CBS_get_u8 :: "(CBS, u8) op" where
  "CBS_get_u8 = op_bind (cbs_get 1) (\<lambda>p. op_ret (hd p))"

definition CBS_get_u16 :: "(CBS, u16) op" where
  "CBS_get_u16 = op_bind (cbs_get_u 2) (\<lambda>v. op_ret (ucast v))"

definition CBS_get_u24 :: "(CBS, u32) op" where
  "CBS_get_u24 = cbs_get_u 3"

definition CBS_get_u32 :: "(CBS, u32) op" where
  "CBS_get_u32 = cbs_get_u 4"

definition CBS_get_last_u8 :: "(CBS, u8) op" where
  "CBS_get_last_u8 cbs =
     (if cbs_len cbs = 0 then (None, cbs)
      else (Some (cbs_data cbs ! (cbs_len cbs - 1)), cbs\<lparr>cbs_len := cbs_len cbs - 1\<rparr>))"

definition CBS_get_bytes :: "nat \<Rightarrow> (CBS, CBS) op" where
  "CBS_get_bytes n = op_bind (cbs_get n) (\<lambda>p. op_ret (CBS_init p n))"

definition CBS_copy_bytes :: "nat \<Rightarrow> (CBS, bytes) op" where
  "CBS_copy_bytes n = op_bind (cbs_get n) (\<lambda>p. op_ret (take n p))"

definition cbs_get_length_prefixed :: "nat \<Rightarrow> (CBS, CBS) op" where
  "cbs_get_length_prefixed len_len =
     op_bind (cbs_get_u len_len) (\<lambda>n. CBS_get_bytes (unat n))"

definition CBS_get_u8_length_prefixed :: "(CBS, CBS) op" where
  "CBS_get_u8_length_prefixed = cbs_get_length_prefixed 1"

definition CBS_get_u16_length_prefixed :: "(CBS, CBS) op" where
  "CBS_get_u16_length_prefixed = cbs_get_length_prefixed 2"

definition CBS_get_u24_length_prefixed :: "(CBS, CBS) op" where
  "CBS_get_u24_length_prefixed = cbs_get_length_prefixed 3"

section \<open>ASN.1 elements\<close>

text \<open>
  The header is read from a copy, so \<open>cbs\<close> moves only when the whole element is there. The
  result is the element with its header, its tag and the length of the header.
\<close>

definition cbs_get_any_asn1_element :: "bool \<Rightarrow> (CBS, CBS \<times> u32 \<times> nat) op" where
  "cbs_get_any_asn1_element ber_ok cbs =
     (let element = (\<lambda>tag header_len n.
            op_bind (CBS_get_bytes n) (\<lambda>out. op_ret (out, ucast tag, header_len)) cbs)
      in case op_bind CBS_get_u8 (\<lambda>tag. op_bind CBS_get_u8 (\<lambda>l. op_ret (tag, l))) cbs of
        (None, _) \<Rightarrow> (None, cbs)
      | (Some (tag :: u8, length_byte), header) \<Rightarrow>
          if tag AND 0x1f = 0x1f then (None, cbs)
          else if length_byte AND 0x80 = 0 then element tag 2 (unat length_byte + 2)
          else
            let num_bytes = unat (length_byte AND 0x7f) in
            if ber_ok \<and> tag AND 0x20 \<noteq> 0 \<and> num_bytes = 0 then element tag 2 2
            else if num_bytes = 0 \<or> num_bytes > 4 then (None, cbs)
            else (case cbs_get_u num_bytes header of
                    (None, _) \<Rightarrow> (None, cbs)
                  | (Some len32, _) \<Rightarrow>
                      if len32 < 128 then (None, cbs)
                      else if drop_bit ((num_bytes - 1) * 8) len32 = 0 then (None, cbs)
                      else if size_add (size_add (unat len32) 2) num_bytes < unat len32
                      then (None, cbs)
                      else element tag (2 + num_bytes) (unat len32 + (2 + num_bytes))))"

definition CBS_get_any_asn1_element :: "(CBS, CBS \<times> u32 \<times> nat) op" where
  "CBS_get_any_asn1_element = cbs_get_any_asn1_element False"

definition CBS_get_any_ber_asn1_element :: "(CBS, CBS \<times> u32 \<times> nat) op" where
  "CBS_get_any_ber_asn1_element = cbs_get_any_asn1_element True"

definition CBS_get_any_asn1 :: "(CBS, CBS \<times> u32) op" where
  "CBS_get_any_asn1 = op_bind CBS_get_any_asn1_element (\<lambda>(out, tag, header_len).
     case CBS_skip header_len out of
       (None, _) \<Rightarrow> op_fail
     | (Some _, out') \<Rightarrow> op_ret (out', tag))"

definition cbs_get_asn1 :: "u32 \<Rightarrow> bool \<Rightarrow> (CBS, CBS) op" where
  "cbs_get_asn1 tag_value skip_header =
     op_bind CBS_get_any_asn1_element (\<lambda>(out, tag, header_len).
       if tag \<noteq> tag_value then op_fail
       else if skip_header then
         (case CBS_skip header_len out of
            (None, _) \<Rightarrow> op_fail
          | (Some _, out') \<Rightarrow> op_ret out')
       else op_ret out)"

definition CBS_get_asn1 :: "u32 \<Rightarrow> (CBS, CBS) op" where
  "CBS_get_asn1 tag_value = cbs_get_asn1 tag_value True"

definition CBS_get_asn1_element :: "u32 \<Rightarrow> (CBS, CBS) op" where
  "CBS_get_asn1_element tag_value = cbs_get_asn1 tag_value False"

definition CBS_peek_asn1_tag :: "CBS \<Rightarrow> u32 \<Rightarrow> bool" where
  "CBS_peek_asn1_tag cbs tag_value \<longleftrightarrow>
     (if CBS_len cbs < 1 then False else ucast (CBS_data cbs ! 0) = tag_value)"

fun asn1_uint64_loop :: "u64 \<Rightarrow> bytes \<Rightarrow> u64 option" where
  "asn1_uint64_loop out [] = Some out"
| "asn1_uint64_loop out (b # bs) =
     (if drop_bit 56 out \<noteq> 0 then None
      else asn1_uint64_loop (push_bit 8 out OR ucast b) bs)"

definition CBS_get_asn1_uint64 :: "(CBS, u64) op" where
  "CBS_get_asn1_uint64 = op_bind (CBS_get_asn1 CBS_ASN1_INTEGER) (\<lambda>b.
     let p = CBS_data b; n = CBS_len b in
     if n = 0 then op_fail
     else if p ! 0 AND 0x80 \<noteq> 0 then op_fail
     else if p ! 0 = 0 \<and> n > 1 \<and> p ! 1 AND 0x80 = 0 then op_fail
     else (case asn1_uint64_loop 0 (take n p) of None \<Rightarrow> op_fail | Some v \<Rightarrow> op_ret v))"

section \<open>Optional elements\<close>

definition CBS_get_optional_asn1 :: "u32 \<Rightarrow> (CBS, CBS option) op" where
  "CBS_get_optional_asn1 tag cbs =
     (if CBS_peek_asn1_tag cbs tag
      then op_bind (CBS_get_asn1 tag) (\<lambda>out. op_ret (Some out)) cbs
      else (Some None, cbs))"

definition CBS_get_optional_asn1_octet_string :: "u32 \<Rightarrow> (CBS, CBS \<times> bool) op" where
  "CBS_get_optional_asn1_octet_string tag =
     op_bind (CBS_get_optional_asn1 tag) (\<lambda>child.
       case child of
         Some c \<Rightarrow>
           (case CBS_get_asn1 CBS_ASN1_OCTETSTRING c of
              (None, _) \<Rightarrow> op_fail
            | (Some out, c') \<Rightarrow> if CBS_len c' \<noteq> 0 then op_fail else op_ret (out, True))
       | None \<Rightarrow> op_ret (CBS_init [] 0, False))"

definition CBS_get_optional_asn1_uint64 :: "u32 \<Rightarrow> u64 \<Rightarrow> (CBS, u64) op" where
  "CBS_get_optional_asn1_uint64 tag default_value =
     op_bind (CBS_get_optional_asn1 tag) (\<lambda>child.
       case child of
         Some c \<Rightarrow>
           (case CBS_get_asn1_uint64 c of
              (None, _) \<Rightarrow> op_fail
            | (Some v, c') \<Rightarrow> if CBS_len c' \<noteq> 0 then op_fail else op_ret v)
       | None \<Rightarrow> op_ret default_value)"

definition CBS_get_optional_asn1_bool :: "u32 \<Rightarrow> int \<Rightarrow> (CBS, int) op" where
  "CBS_get_optional_asn1_bool tag default_value =
     op_bind (CBS_get_optional_asn1 tag) (\<lambda>child.
       case child of
         Some c \<Rightarrow>
           (case CBS_get_asn1 CBS_ASN1_BOOLEAN c of
              (None, _) \<Rightarrow> op_fail
            | (Some child2, c') \<Rightarrow>
                if CBS_len child2 \<noteq> 1 \<or> CBS_len c' \<noteq> 0 then op_fail
                else let boolean = CBS_data child2 ! 0 in
                  if boolean = 0 then op_ret 0
                  else if boolean = 0xff then op_ret 1
                  else op_fail)
       | None \<Rightarrow> op_ret default_value)"

section \<open>Bit strings\<close>

definition CBS_is_valid_asn1_bitstring :: "CBS \<Rightarrow> bool" where
  "CBS_is_valid_asn1_bitstring cbs \<longleftrightarrow>
     (case CBS_get_u8 cbs of
        (None, _) \<Rightarrow> False
      | (Some num_unused_bits, rest) \<Rightarrow>
          if num_unused_bits > 7 then False
          else if num_unused_bits = 0 then True
          else (case CBS_get_last_u8 rest of
                  (None, _) \<Rightarrow> False
                | (Some b, _) \<Rightarrow> b AND (push_bit (unat num_unused_bits) 1 - 1) = 0))"

definition CBS_asn1_bitstring_has_bit :: "CBS \<Rightarrow> nat \<Rightarrow> bool" where
  "CBS_asn1_bitstring_has_bit cbs n \<longleftrightarrow>
     (if \<not> CBS_is_valid_asn1_bitstring cbs then False
      else let byte_num = n div 8 + 1; bit_num = 7 - n mod 8 in
        byte_num < CBS_len cbs \<and> CBS_data cbs ! byte_num AND push_bit bit_num 1 \<noteq> 0)"

section \<open>Canonical form\<close>

text \<open>
  A well-formed \<open>CBS\<close> is \<open>CBS_of bs t\<close>: it delimits \<open>bs\<close>, and \<open>t\<close> is what the object holds
  behind them. The collection \<open>view_simps\<close> says what each operation does on this form, so
  that the reader is a parser on byte lists.
\<close>

definition cbs_wf :: "CBS \<Rightarrow> bool" where
  "cbs_wf cbs \<longleftrightarrow> cbs_len cbs \<le> length (cbs_data cbs)"

definition cbs_view :: "CBS \<Rightarrow> bytes" where
  "cbs_view cbs = take (cbs_len cbs) (cbs_data cbs)"

definition CBS_of :: "bytes \<Rightarrow> bytes \<Rightarrow> CBS" where
  "CBS_of bs t = \<lparr>cbs_data = bs @ t, cbs_len = length bs\<rparr>"

lemma CBS_of_view: "cbs_wf cbs \<Longrightarrow> CBS_of (cbs_view cbs) (drop (cbs_len cbs) (cbs_data cbs)) = cbs"
  by (simp add: CBS_of_def cbs_view_def cbs_wf_def)

lemma cbs_wf_cases:
  assumes "cbs_wf cbs"
  obtains bs t where "cbs = CBS_of bs t" and "cbs_view cbs = bs"
  using CBS_of_view [OF assms] by metis

lemma CBS_of_simps [simp]:
  "cbs_wf (CBS_of bs t)" "cbs_view (CBS_of bs t) = bs"
  "CBS_len (CBS_of bs t) = length bs" "CBS_data (CBS_of bs t) = bs @ t"
  "cbs_len (CBS_of bs t) = length bs" "cbs_data (CBS_of bs t) = bs @ t"
  by (simp_all add: CBS_of_def cbs_wf_def cbs_view_def CBS_len_def CBS_data_def)

lemma CBS_of_inject [simp]: "CBS_of bs t = CBS_of bs' t' \<longleftrightarrow> bs = bs' \<and> t = t'"
  by (auto simp: CBS_of_def)

lemma CBS_init_of: "n \<le> length p \<Longrightarrow> CBS_init p n = CBS_of (take n p) (drop n p)"
  by (simp add: CBS_init_def CBS_of_def)

lemma cbs_get_of [view_simps]:
  "cbs_get n (CBS_of bs t) =
     (if length bs < n then (None, CBS_of bs t) else (Some (bs @ t), CBS_of (drop n bs) t))"
  by (simp add: cbs_get_def CBS_of_def)

lemma CBS_skip_of [view_simps]:
  "CBS_skip n (CBS_of bs t) =
     (if length bs < n then (None, CBS_of bs t) else (Some (), CBS_of (drop n bs) t))"
  by (simp add: CBS_skip_def op_bind_def cbs_get_of)

lemma CBS_get_u8_of [view_simps]:
  "CBS_get_u8 (CBS_of [] t) = (None, CBS_of [] t)"
  "CBS_get_u8 (CBS_of (b # bs) t) = (Some b, CBS_of bs t)"
  by (simp_all add: CBS_get_u8_def op_bind_def cbs_get_of)

lemma cbs_get_u_of [view_simps]:
  "cbs_get_u n (CBS_of bs t) =
     (if length bs < n then (None, CBS_of bs t)
      else (Some (be_word (take n bs) 0), CBS_of (drop n bs) t))"
  by (simp add: cbs_get_u_def op_bind_def cbs_get_of be_word_def)

lemma CBS_get_bytes_of [view_simps]:
  "CBS_get_bytes n (CBS_of bs t) =
     (if length bs < n then (None, CBS_of bs t)
      else (Some (CBS_of (take n bs) (drop n bs @ t)), CBS_of (drop n bs) t))"
  by (simp add: CBS_get_bytes_def op_bind_def cbs_get_of CBS_init_of)

lemma CBS_copy_bytes_of [view_simps]:
  "CBS_copy_bytes n (CBS_of bs t) =
     (if length bs < n then (None, CBS_of bs t) else (Some (take n bs), CBS_of (drop n bs) t))"
  by (simp add: CBS_copy_bytes_def op_bind_def cbs_get_of)

lemma CBS_get_last_u8_of [view_simps]:
  "CBS_get_last_u8 (CBS_of [] t) = (None, CBS_of [] t)"
  "CBS_get_last_u8 (CBS_of (bs @ [b]) t) = (Some b, CBS_of bs (b # t))"
  by (simp_all add: CBS_get_last_u8_def CBS_of_def nth_append)

lemma cbs_get_length_prefixed_of [view_simps]:
  "cbs_get_length_prefixed k (CBS_of bs t) =
     (if length bs < k then (None, CBS_of bs t)
      else CBS_get_bytes (unat (be_word (take k bs) 0 :: u32)) (CBS_of (drop k bs) t))"
  by (simp add: cbs_get_length_prefixed_def op_bind_def cbs_get_u_of)

lemma unat_be_word_u32:
  "length bs \<le> 4 \<Longrightarrow> unat (be_word bs 0 :: u32) = be_nat 0 bs"
  using be_nat_zero_bound [of bs 4] by (simp add: unat_be_word)

section \<open>The header of an element\<close>

text \<open>\<open>asn1_header\<close> is the header parser on plain bytes: the tag, the header length, the length.\<close>

fun asn1_header :: "bool \<Rightarrow> bytes \<Rightarrow> (u8 \<times> nat \<times> nat) option" where
  "asn1_header ber_ok (tag # l # bs) =
     (if tag AND 0x1f = 0x1f then None
      else if l AND 0x80 = 0 then Some (tag, 2, unat l + 2)
      else let k = unat (l AND 0x7f) in
        if ber_ok \<and> tag AND 0x20 \<noteq> 0 \<and> k = 0 then Some (tag, 2, 2)
        else if k = 0 \<or> k > 4 \<or> length bs < k then None
        else let n = be_nat 0 (take k bs) in
          if n < 128 \<or> n < 256 ^ (k - 1) then None else Some (tag, 2 + k, n + (2 + k)))"
| "asn1_header ber_ok _ = None"

lemma drop_bit_octets_eq_0:
  "drop_bit (8 * k) (w :: u32) = 0 \<longleftrightarrow> unat w < 256 ^ k"
proof -
  have "drop_bit (8 * k) w = 0 \<longleftrightarrow> unat (drop_bit (8 * k) w) = 0"
    by (simp only: unsigned_eq_0_iff)
  also have "\<dots> \<longleftrightarrow> unat w div 2 ^ (8 * k) = 0"
    by (subst unat_drop_bit_eq) (simp only: drop_bit_eq_div)
  finally show ?thesis
    by (simp add: power_mult div_eq_0_iff)
qed

lemma cbs_get_any_asn1_element_of [view_simps]:
  "cbs_get_any_asn1_element ber_ok (CBS_of bs t) =
     (case asn1_header ber_ok bs of
        None \<Rightarrow> (None, CBS_of bs t)
      | Some (tag, header_len, n) \<Rightarrow>
          if length bs < n then (None, CBS_of bs t)
          else (Some (CBS_of (take n bs) (drop n bs @ t), ucast tag, header_len),
                CBS_of (drop n bs) t))"
proof -
  consider "bs = []" | b where "bs = [b]" | tag l cs where "bs = tag # l # cs"
    by (cases bs rule: remdups_adj.cases) auto
  then show ?thesis
  proof cases
    case 3
    have no_wrap: "\<not> size_add (size_add (be_nat 0 (take k xs)) 2) k < be_nat 0 (take k xs)"
      if "\<not> 4 < k" for k xs
    proof -
      have "be_nat 0 (take k xs) < 256 ^ 4"
        using that by (intro be_nat_zero_bound) simp
      with that show ?thesis by simp
    qed
    show ?thesis
      using no_wrap
      by (auto simp: 3 cbs_get_any_asn1_element_def op_bind_def view_simps Let_def
          unat_be_word_u32 word_less_nat_alt mult.commute [of _ 8] drop_bit_octets_eq_0)
  qed (simp_all add: cbs_get_any_asn1_element_def op_bind_def view_simps)
qed

end
