(* ===== verification/Der.thy ===== *)
theory Der
  imports Cbs
begin

text \<open>
  The abstract specification of the byte-string component: DER elements as byte strings, and
  the theorems that the reader of \<open>Cbs\<close> accepts exactly them. Nothing here models code; the
  writer of \<open>Cbb\<close> and the converter of \<open>Ber\<close> are measured against the same specification.
\<close>

section \<open>DER elements\<close>

fun num_octets :: "nat \<Rightarrow> nat" where
  "num_octets n = (if n < 256 then 1 else Suc (num_octets (n div 256)))"

declare num_octets.simps [simp del]

definition der_len :: "nat \<Rightarrow> bytes" where
  "der_len n =
     (if n < 128 then [of_nat n] else (0x80 OR of_nat (num_octets n)) # nat_be (num_octets n) n)"

definition der_tlv :: "u8 \<Rightarrow> bytes \<Rightarrow> bytes" where
  "der_tlv tag body = tag # der_len (length body) @ body"

definition low_tag :: "u8 \<Rightarrow> bool" where
  "low_tag tag \<longleftrightarrow> tag AND 0x1f \<noteq> 0x1f"

abbreviation DER_MAX :: nat where
  "DER_MAX \<equiv> 4294967295"

lemma num_octets_bounds: "0 < num_octets n \<and> n < 256 ^ num_octets n"
proof (induction n rule: num_octets.induct)
  case (1 n)
  show ?case
  proof (cases "n < 256")
    case False
    with 1 have "n div 256 < 256 ^ num_octets (n div 256)" by simp
    then have "n < 256 * 256 ^ num_octets (n div 256)"
      by (simp add: div_less_iff_less_mult mult.commute)
    with False show ?thesis by (simp add: num_octets.simps [of n])
  qed (simp add: num_octets.simps)
qed

lemma num_octets_lower: "0 < n \<Longrightarrow> 256 ^ (num_octets n - 1) \<le> n"
proof (induction n rule: num_octets.induct)
  case (1 n)
  show ?case
  proof (cases "n < 256")
    case False
    with 1 have "256 ^ (num_octets (n div 256) - 1) \<le> n div 256" by simp
    then have "256 * 256 ^ (num_octets (n div 256) - 1) \<le> n" by linarith
    with False num_octets_bounds [of "n div 256"] show ?thesis
      by (simp add: num_octets.simps [of n] flip: power_Suc)
  qed (use 1 in \<open>simp add: num_octets.simps\<close>)
qed

lemma num_octets_unique:
  assumes "0 < k" "n < 256 ^ k" "256 ^ (k - 1) \<le> n"
  shows "num_octets n = k"
proof -
  let ?m = "num_octets n"
  have "0 < n" using assms(3) by (metis less_le_trans zero_less_numeral zero_less_power)
  then have "256 ^ (?m - 1) < (256 :: nat) ^ k" "256 ^ (k - 1) < (256 :: nat) ^ ?m"
    using num_octets_lower [of n] num_octets_bounds [of n] assms by linarith+
  then have "?m - 1 < k" "k - 1 < ?m"
    by (simp_all add: power_strict_increasing_iff)
  then show ?thesis using assms(1) num_octets_bounds [of n] by linarith
qed

lemma num_octets_le:
  assumes "n < 256 ^ k" "0 < k"
  shows "num_octets n \<le> k"
proof (cases "n = 0")
  case True
  with assms show ?thesis by (simp add: num_octets.simps)
next
  case False
  then have "(256 :: nat) ^ (num_octets n - 1) < 256 ^ k"
    using num_octets_lower [of n] assms(1) by linarith
  then have "num_octets n - 1 < k" by (simp add: power_strict_increasing_iff)
  then show ?thesis by simp
qed

lemma num_octets_le_4: "n \<le> DER_MAX \<Longrightarrow> num_octets n \<le> 4"
  by (rule num_octets_le) simp_all

section \<open>Octets of a length\<close>

lemma u8_and_7f: "unat ((l :: u8) AND 0x7f) = unat l mod 128"
proof -
  have "(0x7f :: u8) = mask 7" by (simp add: mask_eq_exp_minus_1)
  then have "l AND 0x7f = take_bit 7 l" by (simp add: take_bit_eq_mask)
  then show ?thesis by (simp add: take_bit_eq_mod unat_mod_distrib)
qed

lemma u8_high_bit: "(l :: u8) AND 0x80 = 0 \<longleftrightarrow> unat l < 128"
proof -
  have "l AND 0x80 = 0 \<longleftrightarrow> \<not> bit l 7"
    using and_exp_eq_0_iff_not_bit [of l 7] by simp
  also have "bit l 7 \<longleftrightarrow> bit (unat l) 7"
    by (simp add: bit_unsigned_iff)
  also have "\<not> bit (unat l) 7 \<longleftrightarrow> even (unat l div 128)"
    by (simp add: bit_iff_odd)
  also have "\<dots> \<longleftrightarrow> unat l < 128"
  proof (cases "unat l < 128")
    case False
    then have "unat l div 128 = 1"
      using unat_u8_less [of l] by (intro div_nat_eqI) auto
    with False show ?thesis by simp
  qed simp
  finally show ?thesis .
qed

lemma u8_or_80:
  assumes "m < 128"
  shows "(0x80 :: u8) OR of_nat m = of_nat (128 + m)"
proof -
  have "of_nat m AND (0x80 :: u8) = 0"
    using assms u8_high_bit [of "of_nat m"] by (simp add: unat_of_nat_u8)
  then show ?thesis
    by (simp add: and.commute flip: disjunctive_add_eq_or)
qed

lemma unat_u8_or_80: "m < 128 \<Longrightarrow> unat ((0x80 :: u8) OR of_nat m) = 128 + m"
  by (simp only: u8_or_80 unat_of_nat_u8) simp

lemma u8_decompose:
  assumes "\<not> unat (l :: u8) < 128"
  shows "l = 0x80 OR of_nat (unat l mod 128)"
proof -
  have "128 + unat l mod 128 = unat l"
  proof -
    have "unat l mod 128 = (unat l - 128) mod 128"
      using assms by (simp add: le_mod_geq)
    also have "\<dots> = unat l - 128"
      using unat_u8_less [of l] by (intro mod_less) linarith
    finally have "unat l mod 128 = unat l - 128" .
    with assms show ?thesis by simp
  qed
  then have "0x80 OR of_nat (unat l mod 128) = (of_nat (unat l) :: u8)"
    by (simp only: u8_or_80 [of "unat l mod 128"] mod_less_divisor zero_less_numeral)
  then show ?thesis by simp
qed

section \<open>The reader accepts exactly the DER elements\<close>

lemma length_der_len: "length (der_len n) = (if n < 128 then 1 else 1 + num_octets n)"
  by (simp add: der_len_def)

lemma length_der_tlv:
  "length (der_tlv tag body) = 1 + length (der_len (length body)) + length body"
  by (simp add: der_tlv_def)

lemma asn1_header_der:
  assumes "low_tag tag" "length body \<le> DER_MAX"
  shows "asn1_header ber_ok (der_tlv tag body @ rest) =
    Some (tag, 1 + length (der_len (length body)), length (der_tlv tag body))"
proof (cases "length body < 128")
  case True
  then have "(of_nat (length body) :: u8) AND 0x80 = 0" "unat (of_nat (length body) :: u8) = length body"
    by (simp_all add: u8_high_bit unat_of_nat_u8)
  with True assms show ?thesis
    by (simp add: der_tlv_def der_len_def low_tag_def)
next
  case False
  let ?n = "length body" let ?k = "num_octets ?n"
  have k: "0 < ?k" "?k \<le> 4" "?n < 256 ^ ?k" "256 ^ (?k - 1) \<le> ?n"
    using False num_octets_bounds [of ?n] num_octets_lower [of ?n] num_octets_le_4 [OF assms(2)]
    by (cases body; simp)+
  let ?l = "(0x80 :: u8) OR of_nat ?k"
  have l: "?l AND 0x80 \<noteq> 0" "unat (?l AND 0x7f) = ?k"
    using k by (simp_all only: u8_high_bit u8_and_7f unat_u8_or_80) simp_all
  have n: "be_nat 0 (nat_be ?k ?n) = ?n"
    using k by (simp add: be_nat_nat_be)
  have "asn1_header ber_ok (tag # ?l # nat_be ?k ?n @ body @ rest) = Some (tag, 2 + ?k, ?n + (2 + ?k))"
    using l k n False assms by (simp add: low_tag_def not_less Let_def del: nat_be.simps)
  with False show ?thesis
    by (simp add: der_tlv_def der_len_def)
qed

lemma asn1_header_sound:
  assumes "asn1_header False bs = Some (tag, header_len, n)" "n \<le> length bs"
  obtains body rest where "bs = der_tlv tag body @ rest" "low_tag tag" "length body \<le> DER_MAX"
    "n = length (der_tlv tag body)" "header_len = 1 + length (der_len (length body))"
proof -
  obtain l cs where bs: "bs = tag # l # cs"
    using assms(1) by (cases bs rule: remdups_adj.cases) (auto split: if_splits simp: Let_def)
  have tag: "low_tag tag"
    using assms(1) by (auto simp: bs low_tag_def)
  show ?thesis
  proof (cases "l AND 0x80 = 0")
    case True
    then have l: "unat l < 128" and eq: "header_len = 2" "n = unat l + 2"
      using assms(1) tag by (auto simp: bs u8_high_bit low_tag_def)
    let ?body = "take (unat l) cs"
    have len: "length ?body = unat l" using eq assms(2) bs by simp
    show ?thesis
      by (rule that [of ?body "drop (unat l) cs"])
        (use len l tag in \<open>simp_all add: bs eq der_tlv_def der_len_def\<close>)
  next
    case False
    let ?k = "unat l mod 128"
    let ?n = "be_nat 0 (take ?k cs)"
    from False assms(1) have k: "0 < ?k" "?k \<le> 4" "?k \<le> length cs" "128 \<le> ?n" "256 ^ (?k - 1) \<le> ?n"
      and eq: "header_len = 2 + ?k" "n = ?n + (2 + ?k)"
      by (auto simp: bs Let_def u8_and_7f split: if_splits)
    have l: "l = 0x80 OR of_nat ?k"
      using False by (intro u8_decompose) (simp add: u8_high_bit)
    have "?n < 256 ^ ?k" using k be_nat_zero_bound [of "take ?k cs" ?k] by simp
    then have oct: "num_octets ?n = ?k" using k by (intro num_octets_unique) auto
    have le: "?n \<le> DER_MAX"
      using be_nat_zero_bound [of "take ?k cs" 4] k by simp
    let ?body = "take ?n (drop ?k cs)"
    have "?n \<le> length (drop ?k cs)"
      using eq assms(2) bs k by (simp add: le_diff_conv2)
    then have len: "length ?body = ?n"
      by (simp only: length_take min_absorb2)
    have "nat_be ?k ?n = take ?k cs"
      by (rule nat_be_be_nat) (use k in \<open>simp only: length_take min_absorb2\<close>)
    moreover have "der_len ?n = (0x80 OR of_nat (num_octets ?n)) # nat_be (num_octets ?n) ?n"
      using k(4) by (simp only: der_len_def not_less [symmetric] if_False)
    ultimately have "der_len ?n = l # take ?k cs"
      by (simp only: oct l [symmetric])
    then have "bs = der_tlv tag ?body @ drop ?n (drop ?k cs)"
      by (simp only: bs der_tlv_def len append_Cons append_Nil append_assoc append_take_drop_id)
    moreover have "length (der_len ?n) = 1 + ?k"
      using k(4) oct by (simp only: length_der_len not_less [symmetric] if_False)
    ultimately show ?thesis
      by (intro that [of ?body]) (simp_all only: tag le eq length_der_tlv len)
  qed
qed

lemma der_tlv_prefix_free:
  assumes "der_tlv tag body @ rest = der_tlv tag' body' @ rest'"
    and "low_tag tag" "length body \<le> DER_MAX" "low_tag tag'" "length body' \<le> DER_MAX"
  shows "tag = tag' \<and> body = body' \<and> rest = rest'"
proof -
  have "asn1_header False (der_tlv tag body @ rest) = asn1_header False (der_tlv tag' body' @ rest')"
    using assms(1) by simp
  then have "tag = tag' \<and> length (der_len (length body)) = length (der_len (length body')) \<and>
      length (der_tlv tag body) = length (der_tlv tag' body')"
    using asn1_header_der [OF assms(2,3), of False rest] asn1_header_der [OF assms(4,5), of False rest']
    by auto
  then have tag: "tag = tag'" and len: "length (der_tlv tag body) = length (der_tlv tag' body')"
    and hl: "length (der_len (length body)) = length (der_len (length body'))"
    by blast+
  have "der_tlv tag body = der_tlv tag' body'" "rest = rest'"
    using assms(1) len by (simp_all add: append_eq_append_conv)
  moreover from this hl tag have "body = body'"
    by (simp add: der_tlv_def append_eq_append_conv)
  ultimately show ?thesis using tag by simp
qed

lemma drop_der_header:
  "drop (1 + length (der_len (length body))) (der_tlv tag body) = body"
  by (simp add: der_tlv_def)

lemma CBS_get_any_asn1_element_iff:
  "CBS_get_any_asn1_element (CBS_of bs t) = (Some (out, v, header_len), cbs') \<longleftrightarrow>
     (\<exists>tag body rest. bs = der_tlv tag body @ rest \<and> low_tag tag \<and> length body \<le> DER_MAX \<and>
        v = ucast tag \<and> header_len = 1 + length (der_len (length body)) \<and>
        out = CBS_of (der_tlv tag body) (rest @ t) \<and> cbs' = CBS_of rest t)"
  (is "?lhs \<longleftrightarrow> ?rhs")
proof
  assume ?lhs
  then obtain tag n where h: "asn1_header False bs = Some (tag, header_len, n)" "n \<le> length bs"
    and out: "out = CBS_of (take n bs) (drop n bs @ t)" "v = ucast tag" "cbs' = CBS_of (drop n bs) t"
    by (auto simp: CBS_get_any_asn1_element_def view_simps split: option.splits if_splits)
  from h obtain body rest where "bs = der_tlv tag body @ rest" "low_tag tag" "length body \<le> DER_MAX"
    "n = length (der_tlv tag body)" "header_len = 1 + length (der_len (length body))"
    by (rule asn1_header_sound)
  with out show ?rhs by auto
next
  assume ?rhs
  then show ?lhs
    by (auto simp: CBS_get_any_asn1_element_def view_simps asn1_header_der)
qed

lemma cbs_get_asn1_SomeD:
  assumes "cbs_get_asn1 v skip (CBS_of bs t) = (Some out, cbs')"
  obtains tag body rest where "bs = der_tlv tag body @ rest" "low_tag tag" "length body \<le> DER_MAX"
    "v = ucast tag" "cbs' = CBS_of rest t"
    "out = (if skip then CBS_of body (rest @ t) else CBS_of (der_tlv tag body) (rest @ t))"
proof -
  from assms obtain el v' header_len c where
    e: "CBS_get_any_asn1_element (CBS_of bs t) = (Some (el, v', header_len), c)" and
    r: "(if v' \<noteq> v then op_fail
         else if skip then (case CBS_skip header_len el of (None, _) \<Rightarrow> op_fail | (Some _, out') \<Rightarrow> op_ret out')
         else op_ret el) c = (Some out, cbs')"
    by (auto simp: cbs_get_asn1_def elim!: op_bind_SomeE)
  from e obtain tag body rest where d: "bs = der_tlv tag body @ rest" "low_tag tag" "length body \<le> DER_MAX"
    "v' = ucast tag" "header_len = 1 + length (der_len (length body))"
    "el = CBS_of (der_tlv tag body) (rest @ t)" "c = CBS_of rest t"
    unfolding CBS_get_any_asn1_element_iff by blast
  show ?thesis
    by (rule that [OF d(1-3)])
      (use r d drop_der_header [of body tag] in \<open>auto simp: view_simps length_der_tlv split: if_splits\<close>)
qed

lemma cbs_get_asn1_der:
  assumes "low_tag tag" "length body \<le> DER_MAX"
  shows "cbs_get_asn1 (ucast tag) skip (CBS_of (der_tlv tag body @ rest) t) =
    (Some (if skip then CBS_of body (rest @ t) else CBS_of (der_tlv tag body) (rest @ t)),
     CBS_of rest t)"
proof -
  have "CBS_get_any_asn1_element (CBS_of (der_tlv tag body @ rest) t) =
    (Some (CBS_of (der_tlv tag body) (rest @ t), ucast tag, 1 + length (der_len (length body))), CBS_of rest t)"
    unfolding CBS_get_any_asn1_element_iff using assms by blast
  then show ?thesis
    using drop_der_header [of body tag]
    by (simp add: cbs_get_asn1_def op_bind_def view_simps length_der_tlv)
qed

section \<open>Unsigned integers\<close>

definition der_uint :: "nat \<Rightarrow> bytes" where
  "der_uint n =
     (let b = nat_be (num_octets n) n in if unat (hd b) < 128 then b else 0 # b)"

lemma asn1_uint64_loop_eq:
  "asn1_uint64_loop out bs =
     (if be_nat (unat out) bs < 2 ^ 64 then Some (be_word bs out) else None)"
proof (induction out bs rule: asn1_uint64_loop.induct)
  case (1 out)
  then show ?case using unsigned_less [of out] by (simp add: be_word_def)
next
  case (2 out b bs)
  have acc: "be_nat (256 * unat out + unat b) bs \<ge> 256 * unat out + unat b"
    by (subst be_nat_acc) (simp add: trans_le_add1)
  have top: "drop_bit 56 out = 0 \<longleftrightarrow> unat out < 2 ^ 56"
  proof -
    have "drop_bit 56 out = 0 \<longleftrightarrow> unat (drop_bit 56 out) = 0"
      by (simp only: unsigned_eq_0_iff)
    also have "\<dots> \<longleftrightarrow> unat out div 2 ^ 56 = 0"
      by (subst unat_drop_bit_eq) (simp only: drop_bit_eq_div)
    finally show ?thesis by (simp add: div_eq_0_iff)
  qed
  show ?case
  proof (cases "drop_bit 56 out = 0")
    case True
    then have "unat out < 72057594037927936" using top by simp
    then have "256 * unat out + unat b < 18446744073709551616"
      using unat_u8_less [of b] by linarith
    then have "unat (push_bit 8 out OR ucast b) = 256 * unat out + unat b"
      by (intro unat_shift_or_byte) simp
    with True 2 show ?thesis by (simp add: be_word_def)
  next
    case False
    then have "\<not> unat out < 2 ^ 56" by (simp only: top) simp
    with False acc show ?thesis by simp
  qed
qed

definition minimal_unsigned :: "bytes \<Rightarrow> bool" where
  "minimal_unsigned bs \<longleftrightarrow>
     bs \<noteq> [] \<and> unat (bs ! 0) < 128 \<and>
     \<not> (bs ! 0 = 0 \<and> length bs > 1 \<and> unat (bs ! 1) < 128)"

lemma be_nat_Cons_0: "be_nat 0 (b # bs) = unat b * 256 ^ length bs + be_nat 0 bs"
  using be_nat_acc [of "unat b" bs] by simp

lemma num_octets_be_nat:
  "b \<noteq> 0 \<Longrightarrow> num_octets (be_nat 0 (b # bs)) = length (b # bs)"
proof (rule num_octets_unique)
  assume "b \<noteq> 0"
  then have "1 \<le> unat b" by (simp add: Suc_le_eq unat_gt_0)
  then have "1 * 256 ^ length bs \<le> unat b * 256 ^ length bs"
    by (rule mult_right_mono) simp
  then show "256 ^ (length (b # bs) - 1) \<le> be_nat 0 (b # bs)"
    by (simp only: be_nat_Cons_0 length_Cons diff_Suc_1 mult_1 trans_le_add1)
qed (use be_nat_bound [of "b # bs"] in simp_all)

lemma nat_be_num_octets:
  "b \<noteq> 0 \<Longrightarrow> nat_be (num_octets (be_nat 0 (b # bs))) (be_nat 0 (b # bs)) = b # bs"
  by (rule nat_be_be_nat) (rule num_octets_be_nat [symmetric])

lemma der_uint_0: "der_uint 0 = [0]"
  by (simp add: der_uint_def num_octets.simps)

lemma minimal_unsigned_imp_der_uint: "minimal_unsigned bs \<Longrightarrow> der_uint (be_nat 0 bs) = bs"
proof -
  assume m: "minimal_unsigned bs"
  then obtain b cs where bs: "bs = b # cs" by (cases bs) (auto simp: minimal_unsigned_def)
  show ?thesis
  proof (cases "b = 0")
    case False
    then show ?thesis
      using m nat_be_num_octets [OF False, of cs]
      by (simp only: bs der_uint_def Let_def minimal_unsigned_def) simp
  next
    case True
    show ?thesis
    proof (cases cs)
      case Nil
      with True bs show ?thesis by (simp add: der_uint_0)
    next
      case (Cons c ds)
      with True m bs have c: "\<not> unat c < 128" by (simp add: minimal_unsigned_def)
      then have "c \<noteq> 0" by auto
      moreover have "be_nat 0 bs = be_nat 0 (c # ds)" by (simp add: bs True Cons)
      ultimately show ?thesis
        using nat_be_num_octets [of c ds] c
        by (simp only: bs True Cons der_uint_def Let_def) simp
    qed
  qed
qed

lemma nat_be_hd_nonzero:
  assumes "0 < n"
  obtains b bs where "nat_be (num_octets n) n = b # bs" "b \<noteq> 0" "be_nat 0 (b # bs) = n"
proof -
  obtain b bs where b: "nat_be (num_octets n) n = b # bs"
    using num_octets_bounds [of n] by (cases "nat_be (num_octets n) n") (auto dest: arg_cong [of _ _ length])
  have n: "be_nat 0 (b # bs) = n"
    using be_nat_nat_be [of "num_octets n" n] num_octets_bounds [of n] by (simp only: b mod_less)
  have "length bs = num_octets n - 1"
    using arg_cong [OF b, of length] by simp
  then have "256 ^ length bs \<le> n"
    using num_octets_lower [OF assms] by simp
  moreover have "be_nat 0 bs < 256 ^ length bs" by (rule be_nat_bound)
  ultimately have "b \<noteq> 0"
    using n by (auto simp: be_nat_Cons_0 simp del: be_nat.simps)
  with b n show ?thesis using that by blast
qed

lemma minimal_der_uint: "minimal_unsigned (der_uint n) \<and> be_nat 0 (der_uint n) = n"
proof (cases "n = 0")
  case True
  then show ?thesis by (simp add: der_uint_0 minimal_unsigned_def)
next
  case False
  then obtain b bs where "nat_be (num_octets n) n = b # bs" "b \<noteq> 0" "be_nat 0 (b # bs) = n"
    using nat_be_hd_nonzero [of n] by blast
  then show ?thesis
    by (auto simp: der_uint_def minimal_unsigned_def Let_def)
qed

lemma asn1_uint64_checks:
  assumes "p = body @ t"
  shows "(if length body = 0 then op_fail
     else if p ! 0 AND 0x80 \<noteq> 0 then op_fail
     else if p ! 0 = 0 \<and> length body > 1 \<and> p ! 1 AND 0x80 = 0 then op_fail
     else (case asn1_uint64_loop 0 (take (length body) p) of None \<Rightarrow> op_fail | Some v \<Rightarrow> op_ret v)) s =
    (if minimal_unsigned body \<and> be_nat 0 body < 2 ^ 64
     then (Some (of_nat (be_nat 0 body)), s) else (None, s))"
proof -
  have loop: "asn1_uint64_loop 0 body =
      (if be_nat 0 body < 2 ^ 64 then Some (of_nat (be_nat 0 body)) else None)"
  proof (cases "be_nat 0 body < 2 ^ 64")
    case True
    then have "unat (be_word body 0 :: u64) = be_nat 0 body"
      using unat_be_word [of "0 :: u64" body] by simp
    then have "be_word body 0 = (of_nat (be_nat 0 body) :: u64)"
      by (metis of_nat_unat ucast_id)
    with True show ?thesis by (simp add: asn1_uint64_loop_eq)
  next
    case False
    then show ?thesis by (simp add: asn1_uint64_loop_eq)
  qed
  have high: "(x AND 0x80 \<noteq> 0) = (\<not> unat x < 128)" for x :: u8
    by (simp only: u8_high_bit)
  consider "body = []" | b where "body = [b]" | b c cs where "body = b # c # cs"
    by (cases body rule: remdups_adj.cases) auto
  then show ?thesis
  proof cases
    case 1
    then show ?thesis by (simp add: minimal_unsigned_def)
  next
    case (2 b)
    show ?thesis
      using loop by (simp add: assms 2 minimal_unsigned_def high split: option.splits del: be_nat.simps)
  next
    case (3 b c cs)
    show ?thesis
      using loop by (simp add: assms 3 minimal_unsigned_def high u8_high_bit split: option.splits
          del: be_nat.simps)
  qed
qed

lemma CBS_get_asn1_uint64_of:
  "CBS_get_asn1_uint64 (CBS_of bs t) =
    (case CBS_get_asn1 CBS_ASN1_INTEGER (CBS_of bs t) of
       (None, c) \<Rightarrow> (None, c)
     | (Some b, c) \<Rightarrow>
         if minimal_unsigned (cbs_view b) \<and> be_nat 0 (cbs_view b) < 2 ^ 64
         then (Some (of_nat (be_nat 0 (cbs_view b))), c) else (None, c))"
proof (cases "CBS_get_asn1 CBS_ASN1_INTEGER (CBS_of bs t)")
  case (Pair r c)
  show ?thesis
  proof (cases r)
    case None
    with Pair show ?thesis by (simp add: CBS_get_asn1_uint64_def)
  next
    case (Some b)
    with Pair obtain tag body rest where b: "b = CBS_of body (rest @ t)"
      by (auto simp: CBS_get_asn1_def elim!: cbs_get_asn1_SomeD)
    with Pair Some have get: "CBS_get_asn1 CBS_ASN1_INTEGER (CBS_of bs t) = (Some b, c)" by simp
    show ?thesis
      unfolding CBS_get_asn1_uint64_def op_bind_def get Let_def
      by (simp only: b CBS_of_simps asn1_uint64_checks [OF refl] prod.case option.case)
  qed
qed

lemma length_der_uint: "n < 2 ^ 64 \<Longrightarrow> length (der_uint n) \<le> 9"
  using num_octets_le [of n 8] by (simp add: der_uint_def Let_def)

section \<open>Correctness of the reader\<close>

text \<open>C1: a reader delimiting the bytes \<open>bs\<close> yields an element for the tag \<open>v\<close> exactly when \<open>bs\<close>
  starts with the DER encoding of an element of that tag (single-octet tag, definite length in
  its minimal form, at most 2^32 - 1 bytes of contents); it then delimits the contents, and
  the input moves just past the element. In particular overlong and indefinite lengths, long
  tags and truncated elements are refused, and no byte outside the element is consumed.\<close>

theorem CBS_get_asn1_iff:
  "CBS_get_asn1 v (CBS_of bs t) = (Some out, cbs') \<longleftrightarrow>
     (\<exists>tag body rest. bs = der_tlv tag body @ rest \<and> low_tag tag \<and> length body \<le> DER_MAX \<and>
        v = ucast tag \<and> out = CBS_of body (rest @ t) \<and> cbs' = CBS_of rest t)"
  by (auto simp: CBS_get_asn1_def cbs_get_asn1_der elim!: cbs_get_asn1_SomeD)

lemma CBS_get_asn1_uint64_der:
  "CBS_get_asn1_uint64 (CBS_of (der_tlv 2 (der_uint (unat v)) @ rest) t) = (Some v, CBS_of rest t)"
proof -
  let ?b = "der_uint (unat v)"
  have m: "minimal_unsigned ?b" "be_nat 0 ?b = unat v" "unat v < 2 ^ 64"
    using minimal_der_uint unsigned_less [of v] by auto
  have "length ?b \<le> DER_MAX" using length_der_uint [OF m(3)] by simp
  then have "CBS_get_asn1 CBS_ASN1_INTEGER (CBS_of (der_tlv 2 ?b @ rest) t) = (Some (CBS_of ?b (rest @ t)), CBS_of rest t)"
    using cbs_get_asn1_der [of 2 ?b True rest t] by (simp add: CBS_get_asn1_def low_tag_def)
  then show ?thesis
    using m by (simp add: CBS_get_asn1_uint64_of)
qed

text \<open>C2: \<open>CBS_get_asn1_uint64\<close> accepts exactly the minimal DER encodings of the values below
  2^64: it returns \<open>v\<close> iff the input starts with the INTEGER whose contents are the shortest
  big-endian form of \<open>v\<close> (with a leading zero octet when the top bit is set).\<close>

theorem CBS_get_asn1_uint64_iff:
  "CBS_get_asn1_uint64 (CBS_of bs t) = (Some v, cbs') \<longleftrightarrow>
     (\<exists>rest. bs = der_tlv 2 (der_uint (unat v)) @ rest \<and> cbs' = CBS_of rest t)"
  (is "?lhs \<longleftrightarrow> ?rhs")
proof
  assume ?lhs
  then obtain b where get: "CBS_get_asn1 CBS_ASN1_INTEGER (CBS_of bs t) = (Some b, cbs')"
    and m: "minimal_unsigned (cbs_view b)" "be_nat 0 (cbs_view b) < 2 ^ 64"
    and v: "v = of_nat (be_nat 0 (cbs_view b))"
    by (auto simp: CBS_get_asn1_uint64_of split: prod.splits option.splits if_splits)
  from get obtain tag body rest where d: "bs = der_tlv tag body @ rest" "CBS_ASN1_INTEGER = ucast tag"
    "b = CBS_of body (rest @ t)" "cbs' = CBS_of rest t"
    unfolding CBS_get_asn1_def by (auto elim!: cbs_get_asn1_SomeD)
  from d have "tag = 2" using ucast_u8_u32_inject [of 2 tag] by simp
  moreover have "unat v = be_nat 0 body" using m(2) by (simp add: v d unat_of_nat)
  ultimately show ?rhs
    using d m minimal_unsigned_imp_der_uint [of body] by auto
qed (auto simp: CBS_get_asn1_uint64_der)

end
