(* ===== verification/Cbb.thy ===== *)
theory Cbb
  imports Der
begin

text \<open>
  The byte-string writer of \<open>crypto/bytestring/cbb.c\<close>.

  A top-level \<open>CBB\<close> and the children hanging off it share one buffer. Each \<open>CBB\<close> has at most
  one live child, so the tree is a chain: \<open>cbb_pending\<close> lists the children from the top-level
  one inwards, and a handle is its depth in the chain (0 is the top-level \<open>CBB\<close>, \<open>d + 1\<close> the
  child of \<open>d\<close>). \<open>child == NULL\<close> at depth \<open>d\<close> is \<open>length pending = d\<close>, and a handle whose \<open>base\<close>
  the code has set to \<open>NULL\<close> is a depth beyond the chain. A pointer into the buffer is an index.
\<close>

section \<open>State\<close>

record cbb_buffer_st =
  cb_buf :: bytes
  cb_len :: nat
  cb_cap :: nat
  cb_can_resize :: bool
  cb_error :: bool

record CBB_child =
  ch_offset :: nat
  ch_len_len :: nat
  ch_is_asn1 :: bool

record CBB =
  cbb_base :: "cbb_buffer_st option"
  cbb_pending :: "CBB_child list"
  cbb_env :: env

section \<open>The buffer\<close>

definition cbb_buffer_reserve :: "nat \<Rightarrow> (cbb_buffer_st \<times> env, nat) op" where
  "cbb_buffer_reserve n = (\<lambda>(b, e).
     let newlen = size_add (cb_len b) n in
     if newlen < cb_len b then (None, b\<lparr>cb_error := True\<rparr>, e)
     else if newlen > cb_cap b then
       if \<not> cb_can_resize b then (None, b\<lparr>cb_error := True\<rparr>, e)
       else
         let doubled = size_add (cb_cap b) (cb_cap b);
             newcap = (if doubled < cb_cap b \<or> doubled < newlen then newlen else doubled)
         in (case libc_realloc (cb_buf b) newcap e of
               (None, e') \<Rightarrow> (None, b\<lparr>cb_error := True\<rparr>, e')
             | (Some p, e') \<Rightarrow> (Some (cb_len b), b\<lparr>cb_buf := p, cb_cap := newcap\<rparr>, e'))
     else (Some (cb_len b), b, e))"

definition cbb_buffer_add :: "nat \<Rightarrow> (cbb_buffer_st \<times> env, nat) op" where
  "cbb_buffer_add n = op_bind (cbb_buffer_reserve n) (\<lambda>out (b, e).
     (Some out, b\<lparr>cb_len := cb_len b + n\<rparr>, e))"

text \<open>\<open>buf[i] = v; v >>= 8\<close> for \<open>n\<close> octets, the last one first; the rest of \<open>v\<close> is returned.\<close>

fun put_be :: "bytes \<Rightarrow> nat \<Rightarrow> nat \<Rightarrow> nat \<Rightarrow> bytes \<times> nat" where
  "put_be m i 0 v = (m, v)"
| "put_be m i (Suc n) v = put_be (m[i + n := of_nat v]) i n (v div 256)"

definition cbb_buffer_add_u :: "u32 \<Rightarrow> nat \<Rightarrow> (cbb_buffer_st \<times> env, unit) op" where
  "cbb_buffer_add_u v len_len =
     (if len_len = 0 then op_ret ()
      else op_bind (cbb_buffer_add len_len) (\<lambda>i (b, e).
        let (m, rest) = put_be (cb_buf b) i len_len (unat v) in
        if rest \<noteq> 0 then (None, b\<lparr>cb_buf := m, cb_error := True\<rparr>, e)
        else (Some (), b\<lparr>cb_buf := m\<rparr>, e)))"

section \<open>Flushing\<close>

definition asn1_len_form :: "nat \<Rightarrow> (nat \<times> u8 \<times> nat) option" where
  "asn1_len_form n =
     (if n > 0xfffffffe then None
      else if n > 0xffffff then Some (5, 0x80 OR 4, n)
      else if n > 0xffff then Some (4, 0x80 OR 3, n)
      else if n > 0xff then Some (3, 0x80 OR 2, n)
      else if n > 0x7f then Some (2, 0x80 OR 1, n)
      else Some (1, of_nat n, 0))"

text \<open>
  \<open>cbb_asn1_prefix\<close> is the branch for a pending ASN.1 length: the first length octet is
  written, and if more octets are needed the contents move up to make room.
\<close>

definition cbb_asn1_prefix ::
  "CBB_child \<Rightarrow> nat \<Rightarrow> nat \<Rightarrow> cbb_buffer_st \<times> env \<Rightarrow> (CBB_child \<times> nat) option \<times> cbb_buffer_st \<times> env" where
  "cbb_asn1_prefix c child_start n s =
     (case asn1_len_form n of
        None \<Rightarrow> (None, s)
      | Some (len_len, initial, n') \<Rightarrow>
          op_bind
            (if len_len \<noteq> 1 then
               op_bind (cbb_buffer_add (len_len - 1)) (\<lambda>_ (b, e).
                 (Some (), b\<lparr>cb_buf := blit (cb_buf b) (child_start + (len_len - 1))
                                        (take n' (drop child_start (cb_buf b)))\<rparr>, e))
             else op_ret ())
            (\<lambda>_ (b, e).
               (Some (c\<lparr>ch_offset := ch_offset c + 1, ch_len_len := len_len - 1\<rparr>, n'),
                b\<lparr>cb_buf := (cb_buf b)[ch_offset c := initial]\<rparr>, e)) s)"

fun cbb_flush_pending ::
  "CBB_child list \<Rightarrow> cbb_buffer_st \<times> env \<Rightarrow> bool \<times> CBB_child list \<times> cbb_buffer_st \<times> env" where
  "cbb_flush_pending [] (b, e) = (\<not> cb_error b, [], b, e)"
| "cbb_flush_pending (c # cs) (b, e) =
     (if cb_error b then (False, c # cs, b, e)
      else if ch_len_len c = 0 then (True, c # cs, b, e)
      else
        let child_start = size_add (ch_offset c) (ch_len_len c) in
        case cbb_flush_pending cs (b, e) of
          (ok, cs', b1, e1) \<Rightarrow>
            if \<not> ok \<or> child_start < ch_offset c \<or> cb_len b1 < child_start
            then (False, c # cs', b1\<lparr>cb_error := True\<rparr>, e1)
            else
              let n = cb_len b1 - child_start in
              case (if ch_is_asn1 c then cbb_asn1_prefix c child_start n (b1, e1)
                    else (Some (c, n), b1, e1)) of
                (None, b2, e2) \<Rightarrow> (False, c # cs', b2\<lparr>cb_error := True\<rparr>, e2)
              | (Some (c', n'), b2, e2) \<Rightarrow>
                  let (m, rest) = put_be (cb_buf b2) (ch_offset c') (ch_len_len c') n' in
                  if rest \<noteq> 0 then (False, c' # cs', b2\<lparr>cb_buf := m, cb_error := True\<rparr>, e2)
                  else (True, [], b2\<lparr>cb_buf := m\<rparr>, e2))"

definition CBB_flush :: "nat \<Rightarrow> (CBB, unit) op" where
  "CBB_flush d cbb =
     (case cbb_base cbb of
        None \<Rightarrow> (None, cbb)
      | Some b \<Rightarrow>
          if length (cbb_pending cbb) < d then (None, cbb)
          else case cbb_flush_pending (drop d (cbb_pending cbb)) (b, cbb_env cbb) of
            (ok, cs, b', e') \<Rightarrow>
              (if ok then Some () else None,
               cbb\<lparr>cbb_base := Some b', cbb_pending := take d (cbb_pending cbb) @ cs, cbb_env := e'\<rparr>))"

text \<open>An access to \<open>cbb->base\<close>: the buffer functions fail on a \<open>NULL\<close> base.\<close>

definition with_base :: "(cbb_buffer_st \<times> env, 'a) op \<Rightarrow> (CBB, 'a) op" where
  "with_base m cbb =
     (case cbb_base cbb of
        None \<Rightarrow> (None, cbb)
      | Some b \<Rightarrow> (case m (b, cbb_env cbb) of
          (r, b', e') \<Rightarrow> (r, cbb\<lparr>cbb_base := Some b', cbb_env := e'\<rparr>)))"

section \<open>Creating and finishing\<close>

definition CBB_zero :: "env \<Rightarrow> CBB" where
  "CBB_zero e = \<lparr>cbb_base = None, cbb_pending = [], cbb_env = e\<rparr>"

definition cbb_init :: "bytes \<Rightarrow> nat \<Rightarrow> (CBB, unit) op" where
  "cbb_init p cap cbb =
     (if \<not> malloc_ok (cbb_env cbb) then (None, cbb\<lparr>cbb_env := tick (cbb_env cbb)\<rparr>)
      else (Some (), cbb\<lparr>cbb_base := Some \<lparr>cb_buf = p, cb_len = 0, cb_cap = cap,
                                          cb_can_resize = True, cb_error = False\<rparr>,
                         cbb_env := tick (cbb_env cbb)\<rparr>))"

definition CBB_init :: "nat \<Rightarrow> env \<Rightarrow> unit option \<times> CBB" where
  "CBB_init initial_capacity e =
     (case libc_malloc initial_capacity e of
        (p, e') \<Rightarrow>
          if initial_capacity > 0 \<and> p = None then (None, CBB_zero e')
          else cbb_init (case p of None \<Rightarrow> [] | Some m \<Rightarrow> m) initial_capacity (CBB_zero e'))"

definition CBB_init_fixed :: "bytes \<Rightarrow> nat \<Rightarrow> env \<Rightarrow> unit option \<times> CBB" where
  "CBB_init_fixed p n e =
     op_bind (cbb_init p n)
       (\<lambda>_. with_base (\<lambda>(b, e'). (Some (), b\<lparr>cb_can_resize := False\<rparr>, e'))) (CBB_zero e)"

definition CBB_cleanup :: "CBB \<Rightarrow> CBB" where
  "CBB_cleanup cbb = cbb\<lparr>cbb_base := None\<rparr>"

text \<open>\<open>want_out\<close>: both \<open>out_data\<close> and \<open>out_len\<close> are non-\<open>NULL\<close>. The result is the buffer and its length.\<close>

definition CBB_finish :: "nat \<Rightarrow> bool \<Rightarrow> (CBB, bytes \<times> nat) op" where
  "CBB_finish d want_out =
     (if d \<noteq> 0 then op_fail
      else op_bind (CBB_flush d) (\<lambda>_ cbb.
        case cbb_base cbb of
          None \<Rightarrow> (None, cbb)
        | Some b \<Rightarrow>
            if cb_can_resize b \<and> \<not> want_out then (None, cbb)
            else (Some (cb_buf b, cb_len b), CBB_cleanup cbb)))"

section \<open>Adding data\<close>

definition cbb_add_child :: "nat \<Rightarrow> CBB_child \<Rightarrow> (CBB, unit) op" where
  "cbb_add_child d c cbb = (Some (), cbb\<lparr>cbb_pending := take d (cbb_pending cbb) @ [c]\<rparr>)"

definition cbb_add_length_prefixed :: "nat \<Rightarrow> nat \<Rightarrow> (CBB, unit) op" where
  "cbb_add_length_prefixed d len_len =
     op_bind (CBB_flush d) (\<lambda>_.
     op_bind (with_base (op_bind (cbb_buffer_add len_len) (\<lambda>i (b, e).
                (Some i, b\<lparr>cb_buf := blit (cb_buf b) i (replicate len_len 0)\<rparr>, e)))) (\<lambda>i.
     cbb_add_child d \<lparr>ch_offset = i, ch_len_len = len_len, ch_is_asn1 = False\<rparr>))"

definition CBB_add_u8_length_prefixed :: "nat \<Rightarrow> (CBB, unit) op" where
  "CBB_add_u8_length_prefixed d = cbb_add_length_prefixed d 1"

definition CBB_add_u16_length_prefixed :: "nat \<Rightarrow> (CBB, unit) op" where
  "CBB_add_u16_length_prefixed d = cbb_add_length_prefixed d 2"

definition CBB_add_u24_length_prefixed :: "nat \<Rightarrow> (CBB, unit) op" where
  "CBB_add_u24_length_prefixed d = cbb_add_length_prefixed d 3"

definition CBB_add_u8 :: "nat \<Rightarrow> u8 \<Rightarrow> (CBB, unit) op" where
  "CBB_add_u8 d v = op_bind (CBB_flush d) (\<lambda>_. with_base (cbb_buffer_add_u (ucast v) 1))"

definition CBB_add_u16 :: "nat \<Rightarrow> u16 \<Rightarrow> (CBB, unit) op" where
  "CBB_add_u16 d v = op_bind (CBB_flush d) (\<lambda>_. with_base (cbb_buffer_add_u (ucast v) 2))"

definition CBB_add_u24 :: "nat \<Rightarrow> u32 \<Rightarrow> (CBB, unit) op" where
  "CBB_add_u24 d v = op_bind (CBB_flush d) (\<lambda>_. with_base (cbb_buffer_add_u v 3))"

definition CBB_add_u32 :: "nat \<Rightarrow> u32 \<Rightarrow> (CBB, unit) op" where
  "CBB_add_u32 d v = op_bind (CBB_flush d) (\<lambda>_. with_base (cbb_buffer_add_u v 4))"

definition CBB_add_asn1 :: "nat \<Rightarrow> u32 \<Rightarrow> (CBB, unit) op" where
  "CBB_add_asn1 d tag =
     (if tag > 0xff \<or> tag AND 0x1f = 0x1f
      then with_base (\<lambda>(b, e). (None, b\<lparr>cb_error := True\<rparr>, e))
      else
        op_bind (CBB_flush d) (\<lambda>_.
        op_bind (CBB_add_u8 d (ucast tag)) (\<lambda>_.
        op_bind (with_base (\<lambda>(b, e). (Some (cb_len b), b, e))) (\<lambda>offset.
        op_bind (CBB_add_u8 d 0) (\<lambda>_.
        cbb_add_child d \<lparr>ch_offset = offset, ch_len_len = 1, ch_is_asn1 = True\<rparr>)))))"

definition CBB_add_bytes :: "nat \<Rightarrow> bytes \<Rightarrow> (CBB, unit) op" where
  "CBB_add_bytes d xs =
     op_bind (CBB_flush d) (\<lambda>_.
       with_base (op_bind (cbb_buffer_add (length xs)) (\<lambda>i (b, e).
         (Some (), b\<lparr>cb_buf := blit (cb_buf b) i xs\<rparr>, e))))"

definition CBB_add_space :: "nat \<Rightarrow> nat \<Rightarrow> (CBB, nat) op" where
  "CBB_add_space d n = op_bind (CBB_flush d) (\<lambda>_. with_base (cbb_buffer_add n))"

definition CBB_reserve :: "nat \<Rightarrow> nat \<Rightarrow> (CBB, nat) op" where
  "CBB_reserve d n = op_bind (CBB_flush d) (\<lambda>_. with_base (cbb_buffer_reserve n))"

definition CBB_did_write :: "nat \<Rightarrow> nat \<Rightarrow> (CBB, unit) op" where
  "CBB_did_write d n cbb =
     (if d < length (cbb_pending cbb) then (None, cbb)
      else with_base (\<lambda>(b, e).
        let newlen = size_add (cb_len b) n in
        if newlen < cb_len b \<or> newlen > cb_cap b then (None, b, e)
        else (Some (), b\<lparr>cb_len := newlen\<rparr>, e)) cbb)"

definition CBB_discard_child :: "nat \<Rightarrow> CBB \<Rightarrow> CBB" where
  "CBB_discard_child d cbb =
     (if length (cbb_pending cbb) \<le> d then cbb
      else cbb\<lparr>cbb_base := map_option (\<lambda>b. b\<lparr>cb_len := ch_offset (cbb_pending cbb ! d)\<rparr>) (cbb_base cbb),
               cbb_pending := take d (cbb_pending cbb)\<rparr>)"

text \<open>The start of a \<open>CBB\<close>'s own contents in the buffer; \<open>CBB_data\<close> and \<open>CBB_len\<close> delimit them.\<close>

definition cbb_start :: "nat \<Rightarrow> CBB \<Rightarrow> nat" where
  "cbb_start d cbb =
     (if d = 0 then 0
      else ch_offset (cbb_pending cbb ! (d - 1)) + ch_len_len (cbb_pending cbb ! (d - 1)))"

definition CBB_data :: "nat \<Rightarrow> CBB \<Rightarrow> bytes option" where
  "CBB_data d cbb = map_option (\<lambda>b. drop (cbb_start d cbb) (cb_buf b)) (cbb_base cbb)"

definition CBB_len :: "nat \<Rightarrow> CBB \<Rightarrow> nat option" where
  "CBB_len d cbb = map_option (\<lambda>b. cb_len b - cbb_start d cbb) (cbb_base cbb)"

fun add_asn1_uint64_loop :: "nat \<Rightarrow> u64 \<Rightarrow> nat list \<Rightarrow> bool \<Rightarrow> (CBB, bool) op" where
  "add_asn1_uint64_loop child v [] started = op_ret started"
| "add_asn1_uint64_loop child v (i # is) started =
     (let byte = ucast (drop_bit (8 * (7 - i)) v) :: u8 in
      if \<not> started then
        if byte = 0 then add_asn1_uint64_loop child v is False
        else
          op_bind (if byte AND 0x80 \<noteq> 0 then CBB_add_u8 child 0 else op_ret ()) (\<lambda>_.
          op_bind (CBB_add_u8 child byte) (\<lambda>_. add_asn1_uint64_loop child v is True))
      else op_bind (CBB_add_u8 child byte) (\<lambda>_. add_asn1_uint64_loop child v is True))"

definition CBB_add_asn1_uint64 :: "nat \<Rightarrow> u64 \<Rightarrow> (CBB, unit) op" where
  "CBB_add_asn1_uint64 d v =
     op_bind (CBB_add_asn1 d CBS_ASN1_INTEGER) (\<lambda>_.
     op_bind (add_asn1_uint64_loop (d + 1) v [0..<8] False) (\<lambda>started.
     op_bind (if \<not> started then CBB_add_u8 (d + 1) 0 else op_ret ()) (\<lambda>_.
     CBB_flush d)))"

end
