(* ===== verification/CbbSpec.thy ===== *)
theory CbbSpec
  imports Cbb
begin

text \<open>
  The contract of the writer. A \<open>builder\<close> is what a client of \<open>CBB\<close> thinks of: the bytes of
  the top-level \<open>CBB\<close> and, for every open child, the kind of its length prefix and the bytes
  written to it so far. No offsets, no moved contents, no buffer. The lemmas show that the
  shared buffer with pending prefixes implements it.
\<close>

section \<open>The abstract builder\<close>

datatype prefix = LenPrefix nat | Asn1Prefix

type_synonym builder = "bytes \<times> (prefix \<times> bytes) list"

fun prefix_room :: "prefix \<Rightarrow> nat" where
  "prefix_room (LenPrefix k) = k"
| "prefix_room Asn1Prefix = 1"

fun encode_prefix :: "prefix \<Rightarrow> bytes \<Rightarrow> bytes option" where
  "encode_prefix (LenPrefix k) body =
     (if length body < 256 ^ k then Some (nat_be k (length body) @ body) else None)"
| "encode_prefix Asn1Prefix body =
     (if length body \<le> 0xfffffffe then Some (der_len (length body) @ body) else None)"

fun close_all :: "(prefix \<times> bytes) list \<Rightarrow> bytes option" where
  "close_all [] = Some []"
| "close_all ((p, body) # fs) =
     (case close_all fs of None \<Rightarrow> None | Some inner \<Rightarrow> encode_prefix p (body @ inner))"

fun close_at :: "nat \<Rightarrow> builder \<Rightarrow> builder option" where
  "close_at 0 (root, fs) = map_option (\<lambda>inner. (root @ inner, [])) (close_all fs)"
| "close_at (Suc d) (root, []) = None"
| "close_at (Suc d) (root, (p, body) # fs) =
     map_option (\<lambda>(body', fs'). (root, (p, body') # fs')) (close_at d (body, fs))"

lemma close_at_code [code]:
  "close_at d g =
     (if d = 0 then map_option (\<lambda>inner. (fst g @ inner, [])) (close_all (snd g))
      else case g of
        (root, []) \<Rightarrow> None
      | (root, (p, body) # fs) \<Rightarrow>
          map_option (\<lambda>(body', fs'). (root, (p, body') # fs')) (close_at (d - 1) (body, fs)))"
  by (cases "(d, g)" rule: close_at.cases) auto

fun append_inner :: "builder \<Rightarrow> bytes \<Rightarrow> builder" where
  "append_inner (root, []) xs = (root @ xs, [])"
| "append_inner (root, (p, body) # fs) xs =
     (case append_inner (body, fs) xs of (body', fs') \<Rightarrow> (root, (p, body') # fs'))"

definition open_child :: "prefix \<Rightarrow> builder \<Rightarrow> builder" where
  "open_child p = (\<lambda>(root, fs). (root, fs @ [(p, [])]))"

fun builder_size :: "builder \<Rightarrow> nat" where
  "builder_size (root, fs) = length root + sum_list (map (\<lambda>(p, body). prefix_room p + length body) fs)"

section \<open>The representation\<close>

definition child_prefix :: "CBB_child \<Rightarrow> prefix" where
  "child_prefix c = (if ch_is_asn1 c then Asn1Prefix else LenPrefix (ch_len_len c))"

text \<open>
  \<open>lays_out at w cs g\<close>: the bytes \<open>w\<close>, which start at index \<open>at\<close>, are the contents of \<open>g\<close>
  with a gap for every pending prefix, where the children \<open>cs\<close> say the gaps are.
\<close>

fun lays_out :: "nat \<Rightarrow> bytes \<Rightarrow> CBB_child list \<Rightarrow> builder \<Rightarrow> bool" where
  "lays_out i w [] (root, []) \<longleftrightarrow> w = root"
| "lays_out i w (c # cs) (root, (p, body) # fs) \<longleftrightarrow>
     0 < ch_len_len c \<and> p = child_prefix c \<and> ch_len_len c = prefix_room p \<and>
     ch_offset c = i + length root \<and> take (length root) w = root \<and>
     length root + ch_len_len c \<le> length w \<and>
     lays_out (i + length root + ch_len_len c) (drop (length root + ch_len_len c) w) cs (body, fs)"
| "lays_out i w _ _ \<longleftrightarrow> False"

definition wf_buffer :: "cbb_buffer_st \<Rightarrow> bool" where
  "wf_buffer b \<longleftrightarrow> length (cb_buf b) = cb_cap b \<and> cb_len b \<le> cb_cap b \<and> cb_cap b \<le> SIZE_MAX"

definition written :: "cbb_buffer_st \<Rightarrow> bytes" where
  "written b = take (cb_len b) (cb_buf b)"

definition cbb_represents :: "CBB \<Rightarrow> builder \<Rightarrow> bool" where
  "cbb_represents cbb g \<longleftrightarrow>
     (\<exists>b. cbb_base cbb = Some b \<and> wf_buffer b \<and> \<not> cb_error b \<and>
          lays_out 0 (written b) (cbb_pending cbb) g)"

text \<open>\<open>fits b e n\<close>: the buffer has or can get room for \<open>n\<close> bytes.\<close>

definition fits :: "cbb_buffer_st \<Rightarrow> env \<Rightarrow> nat \<Rightarrow> bool" where
  "fits b e n \<longleftrightarrow>
     n \<le> cb_cap b \<or> cb_can_resize b \<and> never_fails e \<and> n \<le> SIZE_MAX"

lemma fits_mono: "fits b e n \<Longrightarrow> m \<le> n \<Longrightarrow> fits b e m"
  by (auto simp: fits_def)

lemma length_written [simp]: "wf_buffer b \<Longrightarrow> length (written b) = cb_len b"
  by (simp add: wf_buffer_def written_def)

lemma lays_out_length: "lays_out i w cs g \<Longrightarrow> length w = builder_size g"
  by (induction i w cs g rule: lays_out.induct) auto

lemma lays_out_pending: "lays_out i w cs g \<Longrightarrow> length cs = length (snd g)"
  by (induction i w cs g rule: lays_out.induct) auto

lemma lays_out_append:
  "lays_out i w cs g \<Longrightarrow> lays_out i (w @ xs) cs (append_inner g xs)"
proof (induction i w cs g rule: lays_out.induct)
  case (2 i w c cs root p body fs)
  then show ?case by (cases "append_inner (body, fs) xs") auto
qed auto

lemma lays_out_open:
  assumes "lays_out i w cs g" "ch_offset c = i + length w" "0 < ch_len_len c"
    "ch_len_len c = prefix_room (child_prefix c)" "length gap = ch_len_len c"
  shows "lays_out i (w @ gap) (cs @ [c]) (open_child (child_prefix c) g)"
  using assms
proof (induction i w cs g rule: lays_out.induct)
  case (2 i w c' cs root p' body fs)
  then have le: "length root + ch_len_len c' \<le> length w" by auto
  have "lays_out (i + length root + ch_len_len c')
          (drop (length root + ch_len_len c') w @ gap) (cs @ [c]) (open_child (child_prefix c) (body, fs))"
    using 2 le by (intro "2.IH") auto
  then show ?case using 2 le by (auto simp: open_child_def)
qed (auto simp: open_child_def)

lemma builder_size_append: "builder_size (append_inner g xs) = builder_size g + length xs"
proof (induction g xs rule: append_inner.induct)
  case (2 root p body fs xs)
  then show ?case by (cases "append_inner (body, fs) xs") simp
qed simp

section \<open>The buffer operations\<close>

text \<open>
  A buffer operation that fails has marked the buffer, and it fails only where the room is
  neither there nor obtainable.
\<close>

lemma cbb_buffer_reserve_cases:
  assumes "wf_buffer b" "n \<le> SIZE_MAX" "cbb_buffer_reserve n (b, e) = (r, b', e')"
  shows "wf_buffer b' \<and> cb_len b' = cb_len b \<and> written b' = written b \<and>
    (case r of
       None \<Rightarrow> cb_error b' \<and> \<not> fits b e (cb_len b + n)
     | Some i \<Rightarrow> i = cb_len b \<and> cb_error b' = cb_error b \<and> cb_len b + n \<le> cb_cap b' \<and>
                 (\<forall>m. fits b e m \<longrightarrow> fits b' e' m))"
proof (cases "cb_len b + n \<le> SIZE_MAX")
  case False
  then have "size_add (cb_len b) n < cb_len b"
    using assms(1,2) by (subst size_add_overflow_iff) (auto simp: wf_buffer_def)
  then show ?thesis
    using assms False by (auto simp: cbb_buffer_reserve_def wf_buffer_def written_def fits_def)
next
  case True
  show ?thesis
  proof (cases "cb_len b + n \<le> cb_cap b")
    case le: True
    then show ?thesis using True assms by (auto simp: cbb_buffer_reserve_def)
  next
    case False
    let ?d = "size_add (cb_cap b) (cb_cap b)"
    let ?cap = "if ?d < cb_cap b \<or> ?d < cb_len b + n then cb_len b + n else ?d"
    have cap: "cb_cap b \<le> ?cap" "cb_len b + n \<le> ?cap" "?cap \<le> SIZE_MAX"
      using False True by (auto simp: size_add_def)
    show ?thesis
    proof (cases "cb_can_resize b \<and> malloc_ok e")
      case ok: True
      then have "r = Some (cb_len b) \<and>
          b' = b\<lparr>cb_buf := cb_buf b @ map (fresh e) [cb_cap b..<?cap], cb_cap := ?cap\<rparr> \<and> e' = tick e"
        using False True assms cap
        by (auto simp: cbb_buffer_reserve_def libc_realloc_def wf_buffer_def Let_def)
      then show ?thesis
        using assms(1) cap by (auto simp: wf_buffer_def written_def fits_def)
    next
      case not_ok: False
      then have "r = None \<and> b' = b\<lparr>cb_error := True\<rparr>"
        using False True assms
        by (cases "cb_can_resize b") (auto simp: cbb_buffer_reserve_def libc_realloc_def Let_def)
      then show ?thesis
        using assms(1) False not_ok by (auto simp: wf_buffer_def written_def fits_def)
    qed
  qed
qed

lemma cbb_buffer_add_cases:
  assumes "wf_buffer b" "n \<le> SIZE_MAX" "cbb_buffer_add n (b, e) = (r, b', e')"
  shows "wf_buffer b' \<and>
    (case r of
       None \<Rightarrow> cb_error b' \<and> \<not> fits b e (cb_len b + n)
     | Some i \<Rightarrow> i = cb_len b \<and> cb_error b' = cb_error b \<and> cb_len b' = cb_len b + n \<and>
                 (\<exists>xs. length xs = n \<and> written b' = written b @ xs) \<and>
                 (\<forall>m. fits b e m \<longrightarrow> fits b' e' m))"
proof -
  obtain r0 b0 e0 where res: "cbb_buffer_reserve n (b, e) = (r0, b0, e0)"
    by (metis prod_cases3)
  note facts = cbb_buffer_reserve_cases [OF assms(1,2) res]
  show ?thesis
  proof (cases r0)
    case None
    then show ?thesis using facts res assms(3) by (auto simp: cbb_buffer_add_def op_bind_def)
  next
    case (Some i)
    then have b': "r = Some i" "b' = b0\<lparr>cb_len := cb_len b0 + n\<rparr>" "e' = e0"
      using res assms(3) by (auto simp: cbb_buffer_add_def op_bind_def)
    have "take (cb_len b + n) (cb_buf b0) = written b @ take n (drop (cb_len b) (cb_buf b0))"
      using facts by (auto simp: take_add written_def)
    then show ?thesis
      using Some facts b' by (auto simp: wf_buffer_def written_def fits_def)
  qed
qed

text \<open>Overwriting bytes that have been written.\<close>

lemma blit_middle: "length xs = length ys \<Longrightarrow> blit (pre @ ys @ post) (length pre) xs = pre @ xs @ post"
  by (simp add: blit_def)

lemma take_blit_inside:
  assumes "i + length xs \<le> l" "l \<le> length ys"
  shows "take l (blit ys i xs) = blit (take l ys) i xs"
proof (cases "xs = []")
  case False
  then have "i < l" using assms(1) by (cases xs) auto
  then show ?thesis using assms by (auto simp: blit_def min_def take_drop)
qed simp

lemma written_blit:
  assumes "wf_buffer b" "written b = pre @ ys @ post" "length ys = length xs" "i = length pre"
  shows "wf_buffer (b\<lparr>cb_buf := blit (cb_buf b) i xs\<rparr>) \<and>
    written (b\<lparr>cb_buf := blit (cb_buf b) i xs\<rparr>) = pre @ xs @ post"
proof -
  have "length (written b) = cb_len b" using assms(1) by simp
  then have "i + length xs \<le> cb_len b" using assms by simp
  moreover have "take (cb_len b) (blit (cb_buf b) i xs) = blit (written b) i xs"
    unfolding written_def using assms(1) calculation
    by (intro take_blit_inside) (auto simp: wf_buffer_def)
  moreover have "blit (written b) i xs = pre @ xs @ post"
    using assms by (simp only: assms(2,4) blit_middle)
  ultimately show ?thesis
    using assms(1) by (auto simp: wf_buffer_def written_def)
qed

lemma put_be_eq:
  "i + k \<le> length m \<Longrightarrow> put_be m i k v = (blit m i (nat_be k v), v div 256 ^ k)"
proof (induction k arbitrary: m v)
  case (Suc k)
  have "blit (m[i + k := of_nat v]) i (nat_be k (v div 256)) = blit m i (nat_be (Suc k) v)"
    using Suc.prems
    by (simp add: blit_def drop_update_swap upd_conv_take_nth_drop take_update_swap)
  then show ?case using Suc by (simp add: div_mult2_eq)
qed simp

section \<open>Flushing\<close>

lemma num_octets_by_bounds:
  "0 < k \<Longrightarrow> n < 256 ^ k \<Longrightarrow> 256 ^ (k - 1) \<le> n \<Longrightarrow> num_octets n = k"
  by (rule num_octets_unique)

lemma asn1_len_form_eq:
  "asn1_len_form n =
     (if n > 0xfffffffe then None
      else if n < 128 then Some (1, of_nat n, 0)
      else Some (Suc (num_octets n), 0x80 OR of_nat (num_octets n), n))"
proof -
  consider "n > 0xfffffffe" | "n \<le> 0xfffffffe" "n > 0xffffff" | "n \<le> 0xffffff" "n > 0xffff" |
    "n \<le> 0xffff" "n > 0xff" | "n \<le> 0xff" "n > 0x7f" | "n \<le> 0x7f"
    by linarith
  then show ?thesis
  proof cases
    case 2
    then have "num_octets n = 4" by (intro num_octets_unique) simp_all
    with 2 show ?thesis by (simp add: asn1_len_form_def)
  next
    case 3
    then have "num_octets n = 3" by (intro num_octets_unique) simp_all
    with 3 show ?thesis by (simp add: asn1_len_form_def)
  next
    case 4
    then have "num_octets n = 2" by (intro num_octets_unique) simp_all
    with 4 show ?thesis by (simp add: asn1_len_form_def)
  next
    case 5
    then have "num_octets n = 1" by (intro num_octets_unique) simp_all
    with 5 show ?thesis by (simp add: asn1_len_form_def)
  qed (simp_all add: asn1_len_form_def)
qed

lemma fits_buf [simp]: "fits (b\<lparr>cb_buf := m\<rparr>) e n \<longleftrightarrow> fits b e n"
  by (simp add: fits_def)

text \<open>
  \<open>flushed\<close> is what a flush of pending prefixes leaves behind: the closed bytes, or a marked
  buffer with a reason: a length that does not fit its prefix, or no room for the moved contents.
\<close>

definition flushed ::
  "cbb_buffer_st \<Rightarrow> env \<Rightarrow> bytes \<Rightarrow> bytes option \<Rightarrow> bool \<Rightarrow> cbb_buffer_st \<Rightarrow> env \<Rightarrow> bool" where
  "flushed b e pre closed ok b' e' \<longleftrightarrow> wf_buffer b' \<and>
     (if ok then \<not> cb_error b' \<and> map_option ((@) pre) closed = Some (written b') \<and>
                 (\<forall>m. fits b e m \<longrightarrow> fits b' e' m)
      else cb_error b' \<and> (\<forall>x. closed = Some x \<longrightarrow> \<not> fits b e (length pre + length x)))"

text \<open>The innermost step: the prefix of one child whose contents \<open>body\<close> are already closed.\<close>

definition write_prefix ::
  "CBB_child \<Rightarrow> cbb_buffer_st \<times> env \<Rightarrow> bool \<times> cbb_buffer_st \<times> env" where
  "write_prefix c s =
     (case (if ch_is_asn1 c
            then cbb_asn1_prefix c (ch_offset c + ch_len_len c)
                   (cb_len (fst s) - (ch_offset c + ch_len_len c)) s
            else (Some (c, cb_len (fst s) - (ch_offset c + ch_len_len c)), s)) of
        (None, b, e) \<Rightarrow> (False, b\<lparr>cb_error := True\<rparr>, e)
      | (Some (c', n'), b, e) \<Rightarrow>
          (case put_be (cb_buf b) (ch_offset c') (ch_len_len c') n' of
             (m, rest) \<Rightarrow> if rest \<noteq> 0 then (False, b\<lparr>cb_buf := m, cb_error := True\<rparr>, e)
                          else (True, b\<lparr>cb_buf := m\<rparr>, e)))"

lemma write_prefix_len:
  assumes "wf_buffer b" "\<not> cb_error b" "written b = pre @ gap @ body" "\<not> ch_is_asn1 c"
    "ch_offset c = length pre" "ch_len_len c = length gap" "write_prefix c (b, e) = (ok, b', e')"
  shows "flushed b e pre (encode_prefix (LenPrefix (length gap)) body) ok b' e'"
proof -
  let ?b = "b\<lparr>cb_buf := blit (cb_buf b) (length pre) (nat_be (length gap) (length body))\<rparr>"
  have len: "cb_len b = length pre + length gap + length body"
    using length_written [OF assms(1)] by (simp add: assms(3))
  then have "length pre + length gap \<le> length (cb_buf b)"
    using assms(1) by (simp add: wf_buffer_def)
  then have w: "(ok, b', e') =
      (if length body div 256 ^ length gap \<noteq> 0 then (False, ?b\<lparr>cb_error := True\<rparr>, e) else (True, ?b, e))"
    using assms(4-7) len by (simp add: write_prefix_def put_be_eq)
  have "wf_buffer ?b \<and> written ?b = pre @ nat_be (length gap) (length body) @ body"
    by (rule written_blit [OF assms(1,3)]) simp_all
  moreover have "length body div 256 ^ length gap \<noteq> 0 \<longleftrightarrow> \<not> length body < 256 ^ length gap"
    by (simp add: div_eq_0_iff)
  ultimately show ?thesis
    using w assms(2) by (auto simp: flushed_def wf_buffer_def written_def split: if_splits)
qed

lemma write_prefix_asn1:
  assumes "wf_buffer b" "\<not> cb_error b" "written b = pre @ [g] @ body" "ch_is_asn1 c"
    "ch_offset c = length pre" "ch_len_len c = 1" "write_prefix c (b, e) = (ok, b', e')"
  shows "flushed b e pre (encode_prefix Asn1Prefix body) ok b' e'"
proof -
  let ?n = "length body" and ?j = "num_octets (length body)"
  have len: "cb_len b = length pre + 1 + ?n"
    using length_written [OF assms(1)] by (simp add: assms(3))
  then have small: "?n \<le> SIZE_MAX" "length pre < length (cb_buf b)"
    using assms(1) by (auto simp: wf_buffer_def)
  consider "?n > 0xfffffffe" | "?n \<le> 0xfffffffe" "?n < 128" | "?n \<le> 0xfffffffe" "\<not> ?n < 128"
    by linarith
  then show ?thesis
  proof cases
    case 1
    then show ?thesis
      using assms len by (auto simp: write_prefix_def cbb_asn1_prefix_def asn1_len_form_eq flushed_def
          wf_buffer_def)
  next
    case 2
    let ?b = "b\<lparr>cb_buf := blit (cb_buf b) (length pre) [of_nat ?n]\<rparr>"
    have "(ok, b', e') = (True, ?b, e)"
      using 2 assms(4-7) len small(2)
      by (simp add: write_prefix_def cbb_asn1_prefix_def asn1_len_form_eq list_update_as_blit)
    moreover have "wf_buffer ?b \<and> written ?b = pre @ [of_nat ?n] @ body"
      by (rule written_blit [OF assms(1,3)]) simp_all
    ultimately show ?thesis
      using assms(2) 2 by (simp add: flushed_def der_len_def)
  next
    case 3
    have j: "?j \<le> 4" "0 < ?j" "?n < 256 ^ ?j"
      using 3 num_octets_le_4 [of ?n] num_octets_bounds [of ?n] by simp_all
    obtain r b1 e1 where add: "cbb_buffer_add ?j (b, e) = (r, b1, e1)" by (metis prod_cases3)
    have "?j \<le> SIZE_MAX" using j(1) by simp
    note grown = cbb_buffer_add_cases [OF assms(1) this add]
    show ?thesis
    proof (cases r)
      case None
      then have "(ok, b', e') = (False, b1\<lparr>cb_error := True\<rparr>, e1)"
        using 3 assms(4-7) len add j
        by (simp add: write_prefix_def cbb_asn1_prefix_def asn1_len_form_eq op_bind_def)
      moreover have "cb_len b + ?j = length pre + length (der_len ?n @ body)"
        using 3 len by (simp add: length_der_len)
      ultimately show ?thesis
        using grown None by (auto simp: flushed_def wf_buffer_def)
    next
      case (Some i)
      then obtain xs where b1: "wf_buffer b1" "cb_len b1 = cb_len b + ?j" "\<not> cb_error b1"
        "length xs = ?j" "written b1 = pre @ [g] @ body @ xs" "\<forall>m. fits b e m \<longrightarrow> fits b1 e1 m"
        using grown assms(2,3) by auto
      let ?b2 = "b1\<lparr>cb_buf := blit (cb_buf b1) (length pre + 1 + ?j) body\<rparr>"
      let ?b3 = "?b2\<lparr>cb_buf := blit (cb_buf ?b2) (length pre) [0x80 OR of_nat ?j]\<rparr>"
      let ?b4 = "?b3\<lparr>cb_buf := blit (cb_buf ?b3) (length pre + 1) (nat_be ?j ?n)\<rparr>"
      have "body = take ?n (drop (length pre + 1) (written b1))"
        by (simp add: b1(5))
      then have body: "take ?n (drop (length pre + 1) (cb_buf b1)) = body"
        using len b1(2) by (simp add: written_def drop_take min_def)
      have split: "written b1 = (pre @ [g] @ take ?j (body @ xs)) @ drop ?j (body @ xs) @ []"
        using b1(5) by (simp only: append_take_drop_id append_assoc append_Nil2)
      have w2: "wf_buffer ?b2 \<and> written ?b2 = (pre @ [g] @ take ?j (body @ xs)) @ body @ []"
        by (rule written_blit [OF b1(1) split]) (simp_all add: b1(4))
      have w3: "wf_buffer ?b3 \<and> written ?b3 = pre @ [0x80 OR of_nat ?j] @ take ?j (body @ xs) @ body"
        by (rule written_blit [where ys = "[g]"]) (use w2 in simp_all)
      have w4: "wf_buffer ?b4 \<and> written ?b4 = (pre @ [0x80 OR of_nat ?j]) @ nat_be ?j ?n @ body"
        by (rule written_blit [where ys = "take ?j (body @ xs)"]) (use w3 b1(4) in simp_all)
      have "length (cb_buf b1) \<ge> length pre + 1 + ?j + ?n"
        using b1(1,2) len by (simp add: wf_buffer_def)
      then have "(ok, b', e') = (True, ?b4, e1)"
        using 3 assms(4-7) len add j Some body
        by (simp add: write_prefix_def cbb_asn1_prefix_def asn1_len_form_eq op_bind_def
            list_update_as_blit put_be_eq div_eq_0_iff)
      then show ?thesis
        using w4 b1(3,6) 3 by (simp add: flushed_def der_len_def)
    qed
  qed
qed

lemma encode_prefix_room: "encode_prefix p y = Some z \<Longrightarrow> prefix_room p + length y \<le> length z"
  by (cases p) (auto simp: length_der_len split: if_splits)

lemma cbb_flush_pending_Cons:
  assumes "\<not> cb_error b" "0 < ch_len_len c" "ch_offset c + ch_len_len c \<le> SIZE_MAX"
    "cbb_flush_pending cs (b, e) = (ok1, cs1, b1, e1)"
    "ok1 \<Longrightarrow> ch_offset c + ch_len_len c \<le> cb_len b1"
  shows "\<exists>cs2. cbb_flush_pending (c # cs) (b, e) =
    (if ok1 then (case write_prefix c (b1, e1) of (ok, b2, e2) \<Rightarrow> (ok, if ok then [] else cs2, b2, e2))
     else (False, cs2, b1\<lparr>cb_error := True\<rparr>, e1))"
proof (cases ok1)
  case False
  then show ?thesis using assms by simp
next
  case True
  obtain r b2 e2 where r: "(if ch_is_asn1 c
      then cbb_asn1_prefix c (ch_offset c + ch_len_len c) (cb_len b1 - (ch_offset c + ch_len_len c)) (b1, e1)
      else (Some (c, cb_len b1 - (ch_offset c + ch_len_len c)), b1, e1)) = (r, b2, e2)"
    by (metis prod_cases3)
  note at = True assms size_add_exact [OF assms(3)]
  show ?thesis
  proof (cases r)
    case None
    then show ?thesis using r at by (auto simp: write_prefix_def Let_def)
  next
    case (Some x)
    obtain c' n' m rest where x: "x = (c', n')"
        "put_be (cb_buf b2) (ch_offset c') (ch_len_len c') n' = (m, rest)"
      by (metis surj_pair)
    then show ?thesis using r at Some by (auto simp: write_prefix_def Let_def)
  qed
qed

lemma cbb_flush_pending_flushed:
  assumes "wf_buffer b" "\<not> cb_error b" "written b = pre @ w" "lays_out (length pre) w cs g"
    "cbb_flush_pending cs (b, e) = (ok, cs', b', e')"
  shows "flushed b e pre (map_option fst (close_at 0 g)) ok b' e' \<and> (ok \<longrightarrow> cs' = [])"
  using assms
proof (induction cs arbitrary: pre w g ok cs' b' e')
  case Nil
  then show ?case by (cases g; cases "snd g") (auto simp: flushed_def)
next
  case (Cons c cs)
  obtain root p body fs where g: "g = (root, (p, body) # fs)"
    using Cons.prems(4) by (metis lays_out.simps(3) list.exhaust prod.exhaust)
  let ?start = "length root + ch_len_len c"
  define gap where "gap = take (ch_len_len c) (drop (length root) w)"
  have lay: "0 < ch_len_len c" "p = child_prefix c" "ch_len_len c = prefix_room p"
    "ch_offset c = length pre + length root" "take (length root) w = root" "?start \<le> length w"
    "lays_out (length pre + ?start) (drop ?start w) cs (body, fs)"
    using Cons.prems(4) by (auto simp: g add.assoc)
  have gap: "length gap = ch_len_len c" using lay(6) by (simp add: gap_def)
  have "w = root @ gap @ drop ?start w"
    unfolding gap_def by (metis append.assoc append_take_drop_id lay(5) take_add)
  then have w: "written b = (pre @ root @ gap) @ drop ?start w"
    using Cons.prems(3) by simp
  have "length (written b) = cb_len b" using Cons.prems(1) by simp
  then have b_len: "cb_len b = length pre + length w" using Cons.prems(3) by simp
  obtain ok1 cs1 b1 e1 where rest: "cbb_flush_pending cs (b, e) = (ok1, cs1, b1, e1)"
    by (metis prod_cases4)
  have IH: "flushed b e (pre @ root @ gap) (map_option fst (close_at 0 (body, fs))) ok1 b1 e1"
    using Cons.IH [OF Cons.prems(1,2) w _ rest, of "(body, fs)"] lay(7) gap by (simp add: add.assoc)
  have room: "ok1 \<Longrightarrow> ch_offset c + ch_len_len c \<le> cb_len b1"
  proof -
    assume ok1
    then obtain x where "(pre @ root @ gap) @ x = written b1" "wf_buffer b1"
      using IH unfolding flushed_def by auto
    then show ?thesis using length_written [of b1] lay(4) gap by (auto dest: arg_cong [of _ _ length])
  qed
  have "ch_offset c + ch_len_len c \<le> SIZE_MAX"
    using Cons.prems(1) lay(4,6) b_len by (simp add: wf_buffer_def)
  from cbb_flush_pending_Cons [OF Cons.prems(2) lay(1) this rest room] obtain cs2 where
    step: "(ok, cs', b', e') =
      (if ok1 then (case write_prefix c (b1, e1) of (ok, b2, e2) \<Rightarrow> (ok, if ok then [] else cs2, b2, e2))
       else (False, cs2, b1\<lparr>cb_error := True\<rparr>, e1))"
    using Cons.prems(5) by auto
  show ?case
  proof (cases ok1)
    case False
    have "\<not> fits b e (length pre + (length root + length z))"
      if "close_all fs = Some x" "encode_prefix p (body @ x) = Some z" for x z
    proof -
      have "\<not> fits b e (length pre + ?start + (length body + length x))"
        using IH False that gap by (auto simp: flushed_def add.assoc)
      moreover have "length pre + ?start + (length body + length x) \<le> length pre + (length root + length z)"
        using encode_prefix_room [OF that(2)] lay(3) by simp
      ultimately show ?thesis using fits_mono by blast
    qed
    then show ?thesis
      using False step IH by (auto simp: g flushed_def wf_buffer_def split: option.splits)
  next
    case True
    then obtain inner where inner: "close_all fs = Some inner" "wf_buffer b1" "\<not> cb_error b1"
        "written b1 = (pre @ root) @ gap @ body @ inner" "\<forall>m. fits b e m \<longrightarrow> fits b1 e1 m"
      using IH by (auto simp: flushed_def split: option.splits)
    obtain wp: "write_prefix c (b1, e1) = (ok, b', e')" and cs': "ok \<longrightarrow> cs' = []"
      using step True by (auto split: prod.splits)
    have "flushed b1 e1 (pre @ root) (encode_prefix p (body @ inner)) ok b' e'"
    proof (cases "ch_is_asn1 c")
      case asn1: True
      then obtain x where "gap = [x]" "p = Asn1Prefix"
        using gap lay(2,3) by (auto simp: child_prefix_def length_Suc_conv)
      then show ?thesis
        using write_prefix_asn1 [OF inner(2,3) _ asn1 _ _ wp, of "pre @ root" x] inner(4) lay(4) gap by simp
    next
      case len: False
      then have "p = LenPrefix (length gap)" using gap lay(2) by (simp add: child_prefix_def)
      then show ?thesis
        using write_prefix_len [OF inner(2-4) len _ _ wp] lay(4) gap by simp
    qed
    then show ?thesis
      using inner(1,5) cs' by (auto simp: g flushed_def add.assoc)
  qed
qed

section \<open>Appending\<close>

text \<open>An append is described by \<open>flushed\<close> too: the bytes written before are the prefix.\<close>

lemma flushed_append:
  assumes "wf_buffer b" "\<not> cb_error b" "n \<le> SIZE_MAX" "length xs = n"
    "op_bind (cbb_buffer_add n) (\<lambda>i (b, e). (Some (h i), b\<lparr>cb_buf := blit (cb_buf b) i xs\<rparr>, e)) (b, e)
       = (r, b', e')"
  shows "flushed b e (written b) (Some xs) (r \<noteq> None) b' e' \<and> (r \<noteq> None \<longrightarrow> r = Some (h (cb_len b)))"
proof -
  obtain r1 b1 e1 where add: "cbb_buffer_add n (b, e) = (r1, b1, e1)" by (metis prod_cases3)
  note facts = cbb_buffer_add_cases [OF assms(1,3) add]
  show ?thesis
  proof (cases r1)
    case None
    then show ?thesis using add assms facts by (auto simp: op_bind_def flushed_def)
  next
    case (Some i)
    then obtain ys where ys: "wf_buffer b1" "length ys = n" "written b1 = written b @ ys @ []" "\<not> cb_error b1"
        "\<forall>m. fits b e m \<longrightarrow> fits b1 e1 m" "i = cb_len b"
      using facts assms(2) by auto
    have "wf_buffer (b1\<lparr>cb_buf := blit (cb_buf b1) (cb_len b) xs\<rparr>) \<and>
        written (b1\<lparr>cb_buf := blit (cb_buf b1) (cb_len b) xs\<rparr>) = written b @ xs @ []"
      by (rule written_blit [OF ys(1,3)]) (use ys(2) assms(1,4) in simp_all)
    then show ?thesis using Some add assms(5) ys by (auto simp: op_bind_def flushed_def)
  qed
qed

lemma cbb_buffer_add_flushed:
  assumes "wf_buffer b" "\<not> cb_error b" "n \<le> SIZE_MAX" "cbb_buffer_add n (b, e) = (r, b', e')"
  obtains xs where "length xs = n" "flushed b e (written b) (Some xs) (r \<noteq> None) b' e'"
    "r \<noteq> None \<longrightarrow> r = Some (cb_len b)"
proof (cases r)
  case None
  then show ?thesis
    using cbb_buffer_add_cases [OF assms(1,3,4)] assms(1)
    by (intro that [of "replicate n 0"]) (auto simp: flushed_def)
next
  case (Some i)
  note facts = cbb_buffer_add_cases [OF assms(1,3,4)]
  from Some facts obtain xs where "length xs = n" "written b' = written b @ xs" by auto
  with Some facts assms(2) show ?thesis
    by (intro that [of xs]) (simp_all add: flushed_def)
qed

lemma cbb_buffer_add_u_flushed:
  assumes "wf_buffer b" "\<not> cb_error b" "k \<le> SIZE_MAX" "cbb_buffer_add_u v k (b, e) = (r, b', e')" "0 < k"
  shows "flushed b e (written b) (if unat v < 256 ^ k then Some (nat_be k (unat v)) else None) (r \<noteq> None) b' e'"
proof -
  obtain r1 b1 e1 where add: "cbb_buffer_add k (b, e) = (r1, b1, e1)" by (metis prod_cases3)
  note facts = cbb_buffer_add_cases [OF assms(1,3) add]
  show ?thesis
  proof (cases r1)
    case None
    then show ?thesis using add assms facts by (auto simp: cbb_buffer_add_u_def op_bind_def flushed_def)
  next
    case (Some i)
    then obtain ys where ys: "wf_buffer b1" "length ys = k" "written b1 = written b @ ys @ []" "\<not> cb_error b1"
        "\<forall>m. fits b e m \<longrightarrow> fits b1 e1 m" "i = cb_len b" "cb_len b1 = cb_len b + k"
      using facts assms(2) by auto
    let ?b = "b1\<lparr>cb_buf := blit (cb_buf b1) (cb_len b) (nat_be k (unat v))\<rparr>"
    have "wf_buffer ?b \<and> written ?b = written b @ nat_be k (unat v) @ []"
      by (rule written_blit [OF ys(1,3)]) (use ys(2) assms(1) in simp_all)
    moreover have "(r, b', e') = (if unat v div 256 ^ k \<noteq> 0 then (None, ?b\<lparr>cb_error := True\<rparr>, e1)
        else (Some (), ?b, e1))"
      using Some add assms(4,5) ys by (simp add: cbb_buffer_add_u_def op_bind_def put_be_eq wf_buffer_def)
    moreover have "unat v div 256 ^ k \<noteq> 0 \<longleftrightarrow> \<not> unat v < 256 ^ k"
      by (simp add: div_eq_0_iff)
    ultimately show ?thesis
      using ys by (auto simp: flushed_def wf_buffer_def written_def split: if_splits)
  qed
qed

section \<open>Handles\<close>

lemma lays_out_split:
  assumes "lays_out i w cs g" "d \<le> length cs"
  obtains pre w' sub G where "w = pre @ w'" "lays_out (i + length pre) w' (drop d cs) sub"
    "\<And>x. lays_out i (pre @ x) (take d cs) (G x)"
    "close_at d g = map_option (\<lambda>s. G (fst s)) (close_at 0 sub)"
  using assms
proof (induction i w cs g arbitrary: d thesis rule: lays_out.induct)
  case (1 i w root)
  then show ?case by (intro "1.prems"(1) [of "[]" w "(root, [])" "\<lambda>x. (x, [])"]) auto
next
  case (2 i w c cs root p body fs)
  show ?case
  proof (cases d)
    case 0
    then show ?thesis
      by (intro "2.prems"(1) [of "[]" w "(root, (p, body) # fs)" "\<lambda>x. (x, [])"])
         (use "2.prems"(2) in \<open>auto simp: option.map_comp comp_def\<close>)
  next
    case (Suc d')
    let ?k = "length root + ch_len_len c"
    have inner: "lays_out (i + length root + ch_len_len c) (drop ?k w) cs (body, fs)" and le: "d' \<le> length cs"
      using "2.prems"(2,3) Suc by auto
    obtain pre w' sub G where IH: "drop ?k w = pre @ w'"
        "lays_out (i + length root + ch_len_len c + length pre) w' (drop d' cs) sub"
        "\<And>x. lays_out (i + length root + ch_len_len c) (pre @ x) (take d' cs) (G x)"
        "close_at d' (body, fs) = map_option (\<lambda>s. G (fst s)) (close_at 0 sub)"
      by (rule "2.IH" [OF _ inner le]) (rule that)
    have len: "?k \<le> length w" using "2.prems"(2) by auto
    show ?thesis
    proof (rule "2.prems"(1))
      show "w = (take ?k w @ pre) @ w'" by (simp add: IH(1) [symmetric])
      show "lays_out (i + length (take ?k w @ pre)) w' (drop d (c # cs)) sub"
        using IH(2) len by (simp add: Suc min_def add.assoc)
      show "close_at d (root, (p, body) # fs) =
          map_option (\<lambda>s. (case G (fst s) of (body', fs') \<Rightarrow> (root, (p, body') # fs'))) (close_at 0 sub)"
        by (simp add: Suc IH(4) option.map_comp comp_def)
      show "lays_out i ((take ?k w @ pre) @ x) (take d (c # cs))
          (case G x of (body', fs') \<Rightarrow> (root, (p, body') # fs'))" for x
      proof -
        have "take (length root) (take ?k w @ pre @ x) = root"
          using "2.prems"(2) len by auto
        then show ?thesis
          using "2.prems"(2) len IH(3) [of x] by (auto simp: Suc split: prod.splits)
      qed
    qed
  qed
qed simp_all

section \<open>The operations on a CBB\<close>

definition cbb_fits :: "CBB \<Rightarrow> nat \<Rightarrow> bool" where
  "cbb_fits cbb n \<longleftrightarrow> (case cbb_base cbb of None \<Rightarrow> False | Some b \<Rightarrow> fits b (cbb_env cbb) n)"

definition cbb_broken :: "CBB \<Rightarrow> bool" where
  "cbb_broken cbb \<longleftrightarrow> (\<exists>b. cbb_base cbb = Some b \<and> wf_buffer b \<and> cb_error b)"

text \<open>
  \<open>implements d cbb spec r cbb'\<close>: an operation through handle \<open>d\<close> whose abstract result is
  \<open>spec\<close>. If it succeeds, \<open>spec\<close> is defined and represented; if it fails, the buffer is marked
  (unless the handle was stale) and \<open>spec\<close> was undefined or too large for the buffer.
\<close>

definition implements :: "nat \<Rightarrow> CBB \<Rightarrow> builder option \<Rightarrow> bool \<Rightarrow> CBB \<Rightarrow> bool" where
  "implements d cbb spec ok cbb' \<longleftrightarrow>
     (if ok then \<exists>g'. spec = Some g' \<and> cbb_represents cbb' g' \<and> (\<forall>m. cbb_fits cbb m \<longrightarrow> cbb_fits cbb' m)
      else (d \<le> length (cbb_pending cbb) \<longrightarrow> cbb_broken cbb') \<and>
           (\<forall>g'. spec = Some g' \<longrightarrow> \<not> cbb_fits cbb (builder_size g')))"

lemma close_at_beyond: "length (snd g) < d \<Longrightarrow> close_at d g = None"
  by (induction d g rule: close_at.induct) auto

lemma CBB_flush_implements:
  assumes "cbb_represents cbb g" "CBB_flush d cbb = (r, cbb')"
  shows "implements d cbb (close_at d g) (r \<noteq> None) cbb' \<and>
    (r \<noteq> None \<longrightarrow> cbb_pending cbb' = take d (cbb_pending cbb) \<and> d \<le> length (cbb_pending cbb))"
proof -
  obtain b where b: "cbb_base cbb = Some b" "wf_buffer b" "\<not> cb_error b"
      "lays_out 0 (written b) (cbb_pending cbb) g"
    using assms(1) by (auto simp: cbb_represents_def)
  show ?thesis
  proof (cases "d \<le> length (cbb_pending cbb)")
    case False
    then show ?thesis
      using assms(2) b lays_out_pending [OF b(4)] close_at_beyond [of g d]
      by (auto simp: CBB_flush_def implements_def)
  next
    case True
    from lays_out_split [OF b(4) True] obtain pre w' sub G where
      G: "written b = pre @ w'" "lays_out (0 + length pre) w' (drop d (cbb_pending cbb)) sub"
      "\<And>x. lays_out 0 (pre @ x) (take d (cbb_pending cbb)) (G x)"
      "close_at d g = map_option (\<lambda>s. G (fst s)) (close_at 0 sub)" by blast
    obtain ok cs b' e' where fl: "cbb_flush_pending (drop d (cbb_pending cbb)) (b, cbb_env cbb) = (ok, cs, b', e')"
      by (metis prod_cases4)
    have r: "r = (if ok then Some () else None)"
        "cbb' = cbb\<lparr>cbb_base := Some b', cbb_pending := take d (cbb_pending cbb) @ cs, cbb_env := e'\<rparr>"
      using assms(2) b(1) True fl by (auto simp: CBB_flush_def)
    have F: "flushed b (cbb_env cbb) pre (map_option fst (close_at 0 sub)) ok b' e'" "ok \<longrightarrow> cs = []"
      using cbb_flush_pending_flushed [OF b(2,3) G(1) _ fl] G(2) by simp_all
    show ?thesis
    proof (cases ok)
      case False
      have "length pre + length x = builder_size (G x)" for x
        using lays_out_length [OF G(3) [of x]] by simp
      then show ?thesis
        using False F r True b(1)
        by (auto simp: implements_def flushed_def G(4) cbb_broken_def cbb_fits_def)
    next
      case ok: True
      then obtain x s where "close_at 0 sub = Some (x, s)" "written b' = pre @ x" "wf_buffer b'" "\<not> cb_error b'"
          "\<forall>m. fits b (cbb_env cbb) m \<longrightarrow> fits b' e' m"
        using F(1) by (auto simp: flushed_def)
      then show ?thesis
        using ok F(2) r True b(1) G(3) [of x]
        by (auto simp: implements_def G(4) cbb_represents_def cbb_fits_def)
    qed
  qed
qed

definition add_spec :: "nat \<Rightarrow> bytes option \<Rightarrow> builder \<Rightarrow> builder option" where
  "add_spec d xs g =
     (case close_at d g of None \<Rightarrow> None | Some g' \<Rightarrow> map_option (append_inner g') xs)"

lemma with_base_implements:
  assumes "cbb_represents cbb g" "with_base m cbb = (r, cbb')"
    "\<And>b r' b' e'. wf_buffer b \<Longrightarrow> \<not> cb_error b \<Longrightarrow> cbb_base cbb = Some b \<Longrightarrow> m (b, cbb_env cbb) = (r', b', e')
       \<Longrightarrow> flushed b (cbb_env cbb) (written b) xs (r' \<noteq> None) b' e'"
  shows "implements d cbb (map_option (append_inner g) xs) (r \<noteq> None) cbb' \<and> cbb_pending cbb' = cbb_pending cbb"
proof -
  obtain b where b: "cbb_base cbb = Some b" "wf_buffer b" "\<not> cb_error b"
      "lays_out 0 (written b) (cbb_pending cbb) g"
    using assms(1) by (auto simp: cbb_represents_def)
  obtain r' b' e' where m: "m (b, cbb_env cbb) = (r', b', e')" by (metis prod_cases3)
  have F: "flushed b (cbb_env cbb) (written b) xs (r' \<noteq> None) b' e'"
    by (rule assms(3) [OF b(2,3,1) m])
  have r: "r = r'" "cbb' = cbb\<lparr>cbb_base := Some b', cbb_env := e'\<rparr>"
    using assms(2) b(1) m by (auto simp: with_base_def)
  show ?thesis
  proof (cases r)
    case None
    have "length (written b) + length x = builder_size (append_inner g x)" for x
      using lays_out_length [OF b(4)] by (simp add: builder_size_append)
    then show ?thesis
      using None F r b(1) by (auto simp: implements_def flushed_def cbb_broken_def cbb_fits_def)
  next
    case (Some y)
    then obtain x where "xs = Some x" "written b' = written b @ x" "wf_buffer b'" "\<not> cb_error b'"
        "\<forall>m. fits b (cbb_env cbb) m \<longrightarrow> fits b' e' m"
      using F r by (auto simp: flushed_def)
    then show ?thesis
      using Some r b(1) lays_out_append [OF b(4), of x]
      by (auto simp: implements_def cbb_represents_def cbb_fits_def)
  qed
qed

lemma implements_bind:
  assumes "m cbb = (r1, cbb1)" "implements d cbb spec1 (r1 \<noteq> None) cbb1"
    "op_bind m f cbb = (r, cbb')"
    "\<And>x g1. r1 = Some x \<Longrightarrow> spec1 = Some g1 \<Longrightarrow> cbb_represents cbb1 g1 \<Longrightarrow> f x cbb1 = (r, cbb') \<Longrightarrow>
       implements d cbb1 (spec2 g1) (r \<noteq> None) cbb' \<and> d \<le> length (cbb_pending cbb1)"
    "\<And>g1 g2. spec1 = Some g1 \<Longrightarrow> spec2 g1 = Some g2 \<Longrightarrow> builder_size g1 \<le> builder_size g2"
  shows "implements d cbb (Option.bind spec1 spec2) (r \<noteq> None) cbb'"
proof (cases r1)
  case None
  have "\<not> cbb_fits cbb (builder_size g2)" if "spec1 = Some g1" "spec2 g1 = Some g2" for g1 g2
    using None assms(2) assms(5) [OF that] that(1) fits_mono
    by (fastforce simp: implements_def cbb_fits_def split: option.splits)
  then show ?thesis
    using None assms(1-3) by (auto simp: implements_def bind_eq_Some_conv)
next
  case (Some x)
  then obtain g1 where g1: "spec1 = Some g1" "cbb_represents cbb1 g1" "\<forall>m. cbb_fits cbb m \<longrightarrow> cbb_fits cbb1 m"
    using assms(2) by (auto simp: implements_def)
  have "f x cbb1 = (r, cbb')" using Some assms(1,3) by simp
  from assms(4) [OF Some g1(1,2) this] show ?thesis
    using g1 by (auto simp: implements_def)
qed

lemma flush_with_base_implements:
  assumes "cbb_represents cbb g" "op_bind (CBB_flush d) (\<lambda>_. with_base m) cbb = (r, cbb')"
    "\<And>b e r' b' e'. wf_buffer b \<Longrightarrow> \<not> cb_error b \<Longrightarrow> m (b, e) = (r', b', e')
       \<Longrightarrow> flushed b e (written b) xs (r' \<noteq> None) b' e'"
  shows "implements d cbb (add_spec d xs g) (r \<noteq> None) cbb' \<and>
    (r \<noteq> None \<longrightarrow> cbb_pending cbb' = take d (cbb_pending cbb) \<and> d \<le> length (cbb_pending cbb))"
proof -
  obtain r1 cbb1 where fl: "CBB_flush d cbb = (r1, cbb1)" by (metis surj_pair)
  note F = CBB_flush_implements [OF assms(1) fl]
  have step: "implements d cbb1 (map_option (append_inner g1) xs) (r \<noteq> None) cbb' \<and>
      cbb_pending cbb' = cbb_pending cbb1"
    if "cbb_represents cbb1 g1" "with_base m cbb1 = (r, cbb')" for g1
    by (rule with_base_implements [OF that]) (rule assms(3))
  have "add_spec d xs g = Option.bind (close_at d g) (\<lambda>g1. map_option (append_inner g1) xs)"
    by (simp add: add_spec_def split: option.split)
  moreover have "implements d cbb (Option.bind (close_at d g) (\<lambda>g1. map_option (append_inner g1) xs))
      (r \<noteq> None) cbb'"
  proof (rule implements_bind [OF fl conjunct1 [OF F] assms(2)])
    show "implements d cbb1 (map_option (append_inner g1) xs) (r \<noteq> None) cbb' \<and> d \<le> length (cbb_pending cbb1)"
      if "r1 = Some x" "cbb_represents cbb1 g1" "with_base m cbb1 = (r, cbb')" for x g1
      using step [OF that(2,3)] F that(1) by auto
    show "builder_size g1 \<le> builder_size g2" if "map_option (append_inner g1) xs = Some g2" for g1 g2
      using that builder_size_append [of g1] by (cases xs) auto
  qed
  moreover have "r \<noteq> None \<longrightarrow> cbb_pending cbb' = take d (cbb_pending cbb) \<and> d \<le> length (cbb_pending cbb)"
  proof
    assume "r \<noteq> None"
    then obtain x y where xy: "r1 = Some x" "with_base m cbb1 = (Some y, cbb')" "r = Some y"
      using assms(2) fl by (auto elim: op_bind_SomeE)
    then obtain g1 where "cbb_represents cbb1 g1" using F by (auto simp: implements_def)
    then show "cbb_pending cbb' = take d (cbb_pending cbb) \<and> d \<le> length (cbb_pending cbb)"
      using step xy F by auto
  qed
  ultimately show ?thesis by simp
qed

lemma CBB_add_bytes_implements:
  assumes "cbb_represents cbb g" "length xs \<le> SIZE_MAX" "CBB_add_bytes d xs cbb = (r, cbb')"
  shows "implements d cbb (add_spec d (Some xs) g) (r \<noteq> None) cbb' \<and>
    (r \<noteq> None \<longrightarrow> cbb_pending cbb' = take d (cbb_pending cbb) \<and> d \<le> length (cbb_pending cbb))"
  by (rule flush_with_base_implements [OF assms(1) assms(3) [unfolded CBB_add_bytes_def]])
     (use assms(2) flushed_append [where h = "\<lambda>_. ()"] in blast)

lemma cbb_add_u_implements:
  assumes "cbb_represents cbb g" "op_bind (CBB_flush d) (\<lambda>_. with_base (cbb_buffer_add_u v k)) cbb = (r, cbb')"
    "0 < k" "k \<le> SIZE_MAX"
  shows "implements d cbb (add_spec d (if unat v < 256 ^ k then Some (nat_be k (unat v)) else None) g) (r \<noteq> None) cbb' \<and>
    (r \<noteq> None \<longrightarrow> cbb_pending cbb' = take d (cbb_pending cbb) \<and> d \<le> length (cbb_pending cbb))"
  by (rule flush_with_base_implements [OF assms(1,2)])
     (use assms(3,4) cbb_buffer_add_u_flushed in blast)

section \<open>Opening a child\<close>

lemma close_at_depth: "close_at d g = Some g' \<Longrightarrow> length (snd g') = d"
  by (induction d g arbitrary: g' rule: close_at.induct) auto

lemma builder_size_open [simp]: "builder_size (open_child p g) = builder_size g + prefix_room p"
  by (cases g) (simp add: open_child_def)

lemma CBB_flush_noop:
  assumes "cbb_represents cbb g" "length (cbb_pending cbb) = d"
  shows "CBB_flush d cbb = (Some (), cbb)"
  using assms by (auto simp: cbb_represents_def CBB_flush_def)

text \<open>
  The last step of opening a child: \<open>m\<close> appends the gap for the prefix, and the child is
  hung on the \<open>CBB\<close> with the length the buffer had before as its offset.
\<close>

lemma open_gap_implements:
  assumes rep: "cbb_represents cbb g" "length (cbb_pending cbb) = d"
    and run: "op_bind (with_base m) (\<lambda>x. cbb_add_child d (c x)) cbb = (r, cbb')"
    and m: "\<And>b r' b' e'. wf_buffer b \<Longrightarrow> \<not> cb_error b \<Longrightarrow> cbb_base cbb = Some b \<Longrightarrow> m (b, cbb_env cbb) = (r', b', e')
       \<Longrightarrow> \<exists>gap. flushed b (cbb_env cbb) (written b) (Some gap) (r' \<noteq> None) b' e' \<and> length gap = prefix_room p \<and>
             (\<forall>x. r' = Some x \<longrightarrow> ch_offset (c x) = cb_len b)"
    and c: "\<And>x. child_prefix (c x) = p" "\<And>x. ch_len_len (c x) = prefix_room p" "0 < prefix_room p"
  shows "implements d cbb (Some (open_child p g)) (r \<noteq> None) cbb'"
proof -
  obtain b where b: "cbb_base cbb = Some b" "wf_buffer b" "\<not> cb_error b"
      "lays_out 0 (written b) (cbb_pending cbb) g"
    using rep by (auto simp: cbb_represents_def)
  obtain r' b' e' where mm: "m (b, cbb_env cbb) = (r', b', e')" by (metis prod_cases3)
  from m [OF b(2,3,1) mm] obtain gap where
    F: "flushed b (cbb_env cbb) (written b) (Some gap) (r' \<noteq> None) b' e'" "length gap = prefix_room p"
      "\<forall>x. r' = Some x \<longrightarrow> ch_offset (c x) = cb_len b" by blast
  show ?thesis
  proof (cases r')
    case None
    have "length (written b) + length gap = builder_size (open_child p g)"
      using lays_out_length [OF b(4)] F(2) by simp
    then show ?thesis
      using None F(1) run b(1) mm
      by (auto simp: implements_def flushed_def cbb_broken_def cbb_fits_def op_bind_def with_base_def)
  next
    case (Some x)
    have "lays_out 0 (written b @ gap) (cbb_pending cbb @ [c x]) (open_child p g)"
      using lays_out_open [OF b(4), of "c x" gap] F(2,3) Some c b(2) by simp
    then show ?thesis
      using Some F(1) run b(1) mm rep(2)
      by (auto simp: implements_def flushed_def cbb_represents_def cbb_fits_def op_bind_def
          with_base_def cbb_add_child_def)
  qed
qed

definition open_spec :: "nat \<Rightarrow> bytes \<Rightarrow> prefix \<Rightarrow> builder \<Rightarrow> builder option" where
  "open_spec d hdr p g = map_option (\<lambda>g1. open_child p (append_inner g1 hdr)) (close_at d g)"

lemma append_inner_Nil [simp]: "append_inner g [] = g"
proof (induction g "[] :: bytes" rule: append_inner.induct)
  case (2 root p body fs)
  then show ?case by simp
qed simp

lemma cbb_add_length_prefixed_implements:
  assumes "cbb_represents cbb g" "0 < k" "k \<le> SIZE_MAX" "cbb_add_length_prefixed d k cbb = (r, cbb')"
  shows "implements d cbb (open_spec d [] (LenPrefix k) g) (r \<noteq> None) cbb'"
proof -
  obtain r1 cbb1 where fl: "CBB_flush d cbb = (r1, cbb1)" by (metis surj_pair)
  note F = CBB_flush_implements [OF assms(1) fl]
  have "implements d cbb (Option.bind (close_at d g) (\<lambda>g1. Some (open_child (LenPrefix k) g1))) (r \<noteq> None) cbb'"
  proof (rule implements_bind [OF fl conjunct1 [OF F] assms(4) [unfolded cbb_add_length_prefixed_def]])
    fix x g1
    assume a: "r1 = Some x" "cbb_represents cbb1 g1"
      "op_bind (with_base (op_bind (cbb_buffer_add k)
           (\<lambda>i (b, e). (Some i, b\<lparr>cb_buf := blit (cb_buf b) i (replicate k 0)\<rparr>, e))))
         (\<lambda>i. cbb_add_child d \<lparr>ch_offset = i, ch_len_len = k, ch_is_asn1 = False\<rparr>) cbb1 = (r, cbb')"
    then have pend: "length (cbb_pending cbb1) = d" using F by simp
    have "implements d cbb1 (Some (open_child (LenPrefix k) g1)) (r \<noteq> None) cbb'"
    proof (rule open_gap_implements [OF a(2) pend a(3)])
      fix b r' b' e'
      assume b: "wf_buffer b" "\<not> cb_error b"
        "op_bind (cbb_buffer_add k) (\<lambda>i (b, e). (Some i, b\<lparr>cb_buf := blit (cb_buf b) i (replicate k 0)\<rparr>, e))
           (b, cbb_env cbb1) = (r', b', e')"
      from flushed_append [OF b(1,2) assms(3) _ b(3)]
      show "\<exists>gap. flushed b (cbb_env cbb1) (written b) (Some gap) (r' \<noteq> None) b' e' \<and>
          length gap = prefix_room (LenPrefix k) \<and>
          (\<forall>x. r' = Some x \<longrightarrow> ch_offset \<lparr>ch_offset = x, ch_len_len = k, ch_is_asn1 = False\<rparr> = cb_len b)"
        by (intro exI [of _ "replicate k 0"]) auto
    qed (use assms(2) in \<open>simp_all add: child_prefix_def\<close>)
    then show "implements d cbb1 (Some (open_child (LenPrefix k) g1)) (r \<noteq> None) cbb' \<and>
        d \<le> length (cbb_pending cbb1)"
      using pend by simp
  next
    show "builder_size g1 \<le> builder_size g2" if "Some (open_child (LenPrefix k) g1) = Some g2" for g1 g2
      using that builder_size_open [of "LenPrefix k" g1] by simp
  qed
  then show ?thesis by (simp add: open_spec_def bind_eq_Some_conv map_conv_bind_option comp_def)
qed

lemma CBB_add_u8_noflush:
  assumes "cbb_represents cbb g" "length (cbb_pending cbb) = d"
  shows "CBB_add_u8 d v cbb = with_base (cbb_buffer_add_u (ucast v) 1) cbb"
  by (simp add: CBB_add_u8_def op_bind_def CBB_flush_noop [OF assms])

lemma cbb_add_u8_flushed:
  assumes "wf_buffer b" "\<not> cb_error b" "cbb_buffer_add_u (ucast (v :: u8)) 1 (b, e) = (r, b', e')"
  shows "flushed b e (written b) (Some [v]) (r \<noteq> None) b' e'"
  using cbb_buffer_add_u_flushed [OF assms(1,2) _ assms(3)] by (simp add: unat_ucast_u8)

lemma cbb_add_asn1_last:
  assumes rep: "cbb_represents cbb g" "length (cbb_pending cbb) = d"
    and run: "op_bind (with_base (\<lambda>(b, e). (Some (cb_len b), b, e))) (\<lambda>offset.
        op_bind (CBB_add_u8 d 0) (\<lambda>_.
        cbb_add_child d \<lparr>ch_offset = offset, ch_len_len = 1, ch_is_asn1 = True\<rparr>)) cbb = (r, cbb')"
  shows "implements d cbb (Some (open_child Asn1Prefix g)) (r \<noteq> None) cbb'"
proof -
  obtain b where b: "cbb_base cbb = Some b" using rep by (auto simp: cbb_represents_def)
  let ?c = "\<lparr>ch_offset = cb_len b, ch_len_len = 1, ch_is_asn1 = True\<rparr>"
  have "with_base (\<lambda>(b, e). (Some (cb_len b), b, e)) cbb = (Some (cb_len b), cbb)"
    using b by (simp add: with_base_def)
  then have run': "op_bind (with_base (cbb_buffer_add_u (ucast (0 :: u8)) 1)) (\<lambda>_. cbb_add_child d ?c) cbb = (r, cbb')"
    using run CBB_add_u8_noflush [OF rep, of 0] by (simp add: op_bind_def)
  show ?thesis
  proof (rule open_gap_implements [OF rep run'])
    fix b0 r' b' e'
    assume a: "wf_buffer b0" "\<not> cb_error b0" "cbb_base cbb = Some b0"
      "cbb_buffer_add_u (ucast (0 :: u8)) 1 (b0, cbb_env cbb) = (r', b', e')"
    from cbb_add_u8_flushed [OF a(1,2,4)] a(3) b
    show "\<exists>gap. flushed b0 (cbb_env cbb) (written b0) (Some gap) (r' \<noteq> None) b' e' \<and>
        length gap = prefix_room Asn1Prefix \<and> (\<forall>x. r' = Some x \<longrightarrow> ch_offset ?c = cb_len b0)"
      by (intro exI [of _ "[0]"]) auto
  qed (simp_all add: child_prefix_def)
qed

definition valid_tag :: "u32 \<Rightarrow> bool" where
  "valid_tag tag \<longleftrightarrow> tag \<le> 0xff \<and> tag AND 0x1f \<noteq> 0x1f"

lemma CBB_add_asn1_implements:
  assumes "cbb_represents cbb g" "CBB_add_asn1 d tag cbb = (r, cbb')"
  shows "implements d cbb (if valid_tag tag then open_spec d [ucast tag] Asn1Prefix g else None) (r \<noteq> None) cbb'"
proof (cases "valid_tag tag")
  case False
  then show ?thesis
    using assms by (auto simp: CBB_add_asn1_def valid_tag_def with_base_def implements_def cbb_broken_def
        cbb_represents_def wf_buffer_def not_le)
next
  case True
  obtain r1 cbb1 where fl: "CBB_flush d cbb = (r1, cbb1)" by (metis surj_pair)
  note F = CBB_flush_implements [OF assms(1) fl]
  have run: "op_bind (CBB_flush d) (\<lambda>_. op_bind (CBB_add_u8 d (ucast tag)) (\<lambda>_.
        op_bind (with_base (\<lambda>(b, e). (Some (cb_len b), b, e))) (\<lambda>offset.
        op_bind (CBB_add_u8 d 0) (\<lambda>_.
        cbb_add_child d \<lparr>ch_offset = offset, ch_len_len = 1, ch_is_asn1 = True\<rparr>)))) cbb = (r, cbb')"
    using assms(2) True by (simp add: CBB_add_asn1_def valid_tag_def not_less [symmetric])
  have "implements d cbb
      (Option.bind (close_at d g) (\<lambda>g1. Some (open_child Asn1Prefix (append_inner g1 [ucast tag])))) (r \<noteq> None) cbb'"
  proof (rule implements_bind [OF fl conjunct1 [OF F] run])
    fix x g1
    assume a: "r1 = Some x" "cbb_represents cbb1 g1"
      "op_bind (CBB_add_u8 d (ucast tag)) (\<lambda>_.
        op_bind (with_base (\<lambda>(b, e). (Some (cb_len b), b, e))) (\<lambda>offset.
        op_bind (CBB_add_u8 d 0) (\<lambda>_.
        cbb_add_child d \<lparr>ch_offset = offset, ch_len_len = 1, ch_is_asn1 = True\<rparr>))) cbb1 = (r, cbb')"
    then have pend: "length (cbb_pending cbb1) = d" using F by simp
    obtain r2 cbb2 where u8: "CBB_add_u8 d (ucast tag) cbb1 = (r2, cbb2)" by (metis surj_pair)
    have W: "implements d cbb1 (map_option (append_inner g1) (Some [ucast tag])) (r2 \<noteq> None) cbb2 \<and>
        cbb_pending cbb2 = cbb_pending cbb1"
      by (rule with_base_implements [OF a(2) u8 [unfolded CBB_add_u8_noflush [OF a(2) pend]]])
         (rule cbb_add_u8_flushed)
    have "implements d cbb1 (Option.bind (Some (append_inner g1 [ucast tag])) (\<lambda>g2. Some (open_child Asn1Prefix g2)))
        (r \<noteq> None) cbb'"
    proof (rule implements_bind [OF u8 _ a(3)])
      show "implements d cbb1 (Some (append_inner g1 [ucast tag])) (r2 \<noteq> None) cbb2" using W by simp
    next
      show "builder_size h1 \<le> builder_size h2" if "Some (open_child Asn1Prefix h1) = Some h2" for h1 h2
        using that builder_size_open [of Asn1Prefix h1] by simp
    qed (use cbb_add_asn1_last W pend in auto)
    then show "implements d cbb1 (Some (open_child Asn1Prefix (append_inner g1 [ucast tag]))) (r \<noteq> None) cbb' \<and>
        d \<le> length (cbb_pending cbb1)"
      using pend by simp
  next
    show "builder_size g1 \<le> builder_size g2"
      if "Some (open_child Asn1Prefix (append_inner g1 [ucast tag])) = Some g2" for g1 g2
      using that builder_size_open [of Asn1Prefix "append_inner g1 [ucast tag]"]
        builder_size_append [of g1 "[ucast tag]"] by auto
  qed
  then show ?thesis using True by (simp add: open_spec_def map_conv_bind_option comp_def)
qed

end
