(* ===== verification/CbbRefine.thy ===== *)
theory CbbRefine
  imports CbbSpec
begin

text \<open>
  The writer refines the abstract builder: every sequence of calls, through any live handles,
  leaves the shared buffer in a state that represents what the builder computes, and a finished
  \<open>CBB\<close> holds the builder's bytes. The reader of \<open>Cbs\<close> gets back what was written.
\<close>

section \<open>Operations of several bytes\<close>

definition add_u8s :: "nat \<Rightarrow> bytes \<Rightarrow> (CBB, unit) op" where
  "add_u8s d bs = foldr (\<lambda>b k. op_bind (CBB_add_u8 d b) (\<lambda>_. k)) bs (op_ret ())"

lemma add_u8s_simps [simp]:
  "add_u8s d [] = op_ret ()"
  "add_u8s d (b # bs) = op_bind (CBB_add_u8 d b) (\<lambda>_. add_u8s d bs)"
  by (simp_all add: add_u8s_def)

lemma op_bind_assoc: "op_bind (op_bind m f) k = op_bind m (\<lambda>x. op_bind (f x) k)"
  by (rule ext) (auto simp: op_bind_def split: prod.splits option.splits)

lemma op_ret_bind [simp]: "op_bind (op_ret x) f = f x" "op_bind (Pair (Some x)) f = f x"
  by (rule ext, simp)+

definition sign_pad :: "bytes \<Rightarrow> bytes" where
  "sign_pad bs = (case bs of [] \<Rightarrow> [] | b # _ \<Rightarrow> if b AND 0x80 \<noteq> 0 then 0 # bs else bs)"

lemma add_asn1_uint64_loop_eq:
  fixes v :: u64 and "is" :: "nat list"
  defines "bs \<equiv> map (\<lambda>i. ucast (drop_bit (8 * (7 - i)) v)) is"
  shows "add_asn1_uint64_loop child v is started =
    op_bind (add_u8s child (if started then bs else sign_pad (dropWhile (\<lambda>b. b = 0) bs)))
      (\<lambda>_. op_ret (started \<or> dropWhile (\<lambda>b. b = 0) bs \<noteq> []))"
  unfolding bs_def
proof (induction "is" arbitrary: started)
  case (Cons i "is")
  show ?case
    by (cases started) (auto simp: Cons.IH Let_def op_bind_assoc sign_pad_def)
qed (auto simp: sign_pad_def op_ret_def)

lemma nat_be_eq_map: "nat_be k n = map (\<lambda>i. of_nat (n div 256 ^ (k - 1 - i))) [0..<k]"
proof (induction k arbitrary: n)
  case (Suc k)
  have "n div 256 div 256 ^ (k - 1 - i) = n div 256 ^ (k - i)" if "i < k" for i
  proof -
    have "(256 :: nat) ^ (k - i) = 256 * 256 ^ (k - 1 - i)"
      using that by (simp add: Suc_diff_Suc flip: power_Suc)
    then show ?thesis by (simp add: div_mult2_eq)
  qed
  then have "map (\<lambda>i. of_nat (n div 256 div 256 ^ (k - 1 - i)) :: u8) [0..<k] =
      map (\<lambda>i. of_nat (n div 256 ^ (k - i))) [0..<k]"
    by (intro map_cong) simp_all
  then show ?case by (simp add: Suc.IH)
qed simp

lemma ucast_drop_bit_octet: "ucast (drop_bit (8 * j) (v :: u64)) = (of_nat (unat v div 256 ^ j) :: u8)"
proof -
  have "unat (drop_bit (8 * j) v) = unat v div 256 ^ j"
    by (subst unat_drop_bit_eq) (simp add: drop_bit_eq_div power_mult)
  then show ?thesis by (metis of_nat_unat)
qed

lemma nat_be_nonempty: "0 < k \<Longrightarrow> nat_be k n \<noteq> []"
  by (cases k) simp_all

lemma dropWhile_nat_be:
  "n < 256 ^ k \<Longrightarrow> dropWhile (\<lambda>b. b = 0) (nat_be k n) = (if n = 0 then [] else nat_be (num_octets n) n)"
proof (induction k arbitrary: n)
  case (Suc k)
  show ?case
  proof (cases "n < 256")
    case True
    then have "of_nat n = (0 :: u8) \<longleftrightarrow> n = 0"
      using unat_of_nat_u8 [of n] by (auto simp: word_unat_eq_iff)
    then show ?thesis
      using True Suc.IH [of 0] by (auto simp: dropWhile_append num_octets.simps [of n] dropWhile_eq_Nil_conv)
  next
    case False
    then have "n div 256 < 256 ^ k" "n div 256 \<noteq> 0"
      using Suc.prems by (auto simp: div_less_iff_less_mult mult.commute)
    then have dw: "dropWhile (\<lambda>b. b = 0) (nat_be k (n div 256)) = nat_be (num_octets (n div 256)) (n div 256)"
      using Suc.IH [of "n div 256"] by simp
    moreover have "nat_be (num_octets (n div 256)) (n div 256) \<noteq> []"
      using num_octets_bounds [of "n div 256"] by (intro nat_be_nonempty) blast
    ultimately have "dropWhile (\<lambda>b. b = 0) (nat_be k (n div 256)) \<noteq> []"
      by (simp only: not_False_eq_True)
    then have "\<not> (\<forall>b\<in>set (nat_be k (n div 256)). b = 0)"
      by (simp only: dropWhile_eq_Nil_conv not_False_eq_True)
    then have "dropWhile (\<lambda>b. b = 0) (nat_be (Suc k) n) = nat_be (num_octets (n div 256)) (n div 256) @ [of_nat n]"
      by (simp only: nat_be.simps dropWhile_append if_False dw)
    then show ?thesis
      using False by (simp add: num_octets.simps [of n])
  qed
qed simp

lemma uint64_octets:
  fixes v :: u64
  defines "bs \<equiv> map (\<lambda>i. ucast (drop_bit (8 * (7 - i)) v) :: u8) [0..<8]"
  shows "(if dropWhile (\<lambda>b. b = 0) bs = [] then [0] else sign_pad (dropWhile (\<lambda>b. b = 0) bs)) = der_uint (unat v)"
proof -
  have "bs = nat_be 8 (unat v)"
    unfolding bs_def nat_be_eq_map ucast_drop_bit_octet by (rule map_cong) simp_all
  moreover have "unat v < 256 ^ 8" using unsigned_less [of v] by simp
  ultimately have dw: "dropWhile (\<lambda>b. b = 0) bs = (if unat v = 0 then [] else nat_be (num_octets (unat v)) (unat v))"
    using dropWhile_nat_be by simp
  show ?thesis
  proof (cases "unat v = 0")
    case False
    then obtain b c where "nat_be (num_octets (unat v)) (unat v) = b # c"
      using num_octets_bounds [of "unat v"] length_nat_be [of "num_octets (unat v)" "unat v"]
      by (cases "nat_be (num_octets (unat v)) (unat v)") auto
    then show ?thesis using False dw by (auto simp: sign_pad_def der_uint_def Let_def u8_high_bit)
  qed (simp add: dw der_uint_0)
qed

lemma uint64_last:
  "op_bind (op_bind (add_u8s d (sign_pad bs)) (\<lambda>_. op_ret (bs \<noteq> [])))
     (\<lambda>started. op_bind (if \<not> started then CBB_add_u8 d 0 else op_ret ()) k) =
   op_bind (add_u8s d (if bs = [] then [0] else sign_pad bs)) k"
  by (cases "bs = []") (simp_all add: op_bind_assoc sign_pad_def)

lemma CBB_add_asn1_uint64_eq:
  "CBB_add_asn1_uint64 d v = op_bind (CBB_add_asn1 d CBS_ASN1_INTEGER)
     (\<lambda>_. op_bind (add_u8s (d + 1) (der_uint (unat v))) (\<lambda>_. CBB_flush d))"
proof -
  let ?bs = "dropWhile (\<lambda>b. b = 0) (map (\<lambda>i. ucast (drop_bit (8 * (7 - i)) v) :: u8) [0..<8])"
  have "op_bind (add_asn1_uint64_loop (d + 1) v [0..<8] False)
      (\<lambda>started. op_bind (if \<not> started then CBB_add_u8 (d + 1) 0 else op_ret ()) k) =
    op_bind (add_u8s (d + 1) (if ?bs = [] then [0] else sign_pad ?bs)) k" for k :: "unit \<Rightarrow> (CBB, unit) op"
    unfolding add_asn1_uint64_loop_eq simp_thms if_False by (rule uint64_last)
  then show ?thesis unfolding CBB_add_asn1_uint64_def by (simp only: uint64_octets)
qed

lemma append_inner_append: "append_inner (append_inner g xs) ys = append_inner g (xs @ ys)"
proof (induction g xs rule: append_inner.induct)
  case (2 root p body fs xs)
  then show ?case by (cases "append_inner (body, fs) xs") simp
qed simp

section \<open>Appending through a handle\<close>

lemma represents_pending: "cbb_represents cbb g \<Longrightarrow> length (cbb_pending cbb) = length (snd g)"
  by (auto simp: cbb_represents_def dest: lays_out_pending)

lemma add_u8s_implements:
  assumes "cbb_represents cbb g" "length (cbb_pending cbb) = child" "d \<le> child"
    "add_u8s child bs cbb = (r, cbb')"
  shows "implements d cbb (Some (append_inner g bs)) (r \<noteq> None) cbb' \<and> cbb_pending cbb' = cbb_pending cbb"
  using assms
proof (induction bs arbitrary: cbb g)
  case Nil
  then show ?case by (auto simp: implements_def)
next
  case (Cons b bs)
  obtain r1 cbb1 where u8: "CBB_add_u8 child b cbb = (r1, cbb1)" by (metis surj_pair)
  have W: "implements d cbb (map_option (append_inner g) (Some [b])) (r1 \<noteq> None) cbb1 \<and> cbb_pending cbb1 = cbb_pending cbb"
    by (rule with_base_implements [OF Cons.prems(1) u8 [unfolded CBB_add_u8_noflush [OF Cons.prems(1,2)]]])
       (rule cbb_add_u8_flushed)
  have run: "op_bind (CBB_add_u8 child b) (\<lambda>_. add_u8s child bs) cbb = (r, cbb')"
    using Cons.prems(4) by simp
  have step: "implements d cbb1 (Some (append_inner g1 bs)) (r \<noteq> None) cbb' \<and> cbb_pending cbb' = cbb_pending cbb1"
    if "cbb_represents cbb1 g1" "add_u8s child bs cbb1 = (r, cbb')" for g1
    using Cons.IH [OF that(1) _ Cons.prems(3) that(2)] W Cons.prems(2) by simp
  have "implements d cbb (Option.bind (Some (append_inner g [b])) (\<lambda>g1. Some (append_inner g1 bs))) (r \<noteq> None) cbb'"
  proof (rule implements_bind [OF u8 _ run])
    show "builder_size g1 \<le> builder_size g2" if "Some (append_inner g1 bs) = Some g2" for g1 g2
      using that builder_size_append [of g1 bs] by simp
  qed (use W step Cons.prems in auto)
  moreover have "append_inner (append_inner g [b]) bs = append_inner g (b # bs)"
    by (simp add: append_inner_append)
  moreover have "cbb_pending cbb' = cbb_pending cbb"
  proof (cases r1)
    case None
    then show ?thesis using run u8 W by simp
  next
    case (Some x)
    then have "cbb_represents cbb1 (append_inner g [b])" "add_u8s child bs cbb1 = (r, cbb')"
      using run u8 W by (auto simp: implements_def)
    then show ?thesis using step W by simp
  qed
  ultimately show ?case by simp
qed

lemma close_at_open_append:
  assumes "length (snd g) = d"
  shows "close_at d (append_inner (open_child p g) xs) = map_option (append_inner g) (encode_prefix p xs)"
  using assms
proof (induction d arbitrary: g)
  case 0
  then show ?case by (cases g) (auto simp: open_child_def option.map_comp comp_def split: option.split)
next
  case (Suc d)
  then obtain root q body fs where g: "g = (root, (q, body) # fs)" "length fs = d"
    by (cases g) (auto simp: length_Suc_conv)
  obtain body' fs' where a: "append_inner (open_child p (body, fs)) xs = (body', fs')" by fastforce
  have "close_at d (body', fs') = map_option (append_inner (body, fs)) (encode_prefix p xs)"
    using Suc.IH [of "(body, fs)"] g(2) a by simp
  then show ?case
    using a by (auto simp: g(1) open_child_def option.map_comp comp_def split: prod.splits)
qed

lemma close_at_self: "length (snd g) = d \<Longrightarrow> close_at d g = Some g"
proof (induction d arbitrary: g)
  case (Suc d)
  then obtain root q body fs where "g = (root, (q, body) # fs)" "length fs = d"
    by (cases g) (auto simp: length_Suc_conv)
  then show ?case using Suc.IH [of "(body, fs)"] by simp
qed (auto simp: split_beta)

lemma append_inner_depth [simp]: "length (snd (append_inner g xs)) = length (snd g)"
proof (induction g xs rule: append_inner.induct)
  case (2 root p body fs xs)
  then show ?case by (cases "append_inner (body, fs) xs") simp
qed simp

lemma close_all_size:
  "close_all fs = Some xs \<Longrightarrow> sum_list (map (\<lambda>(p, body). prefix_room p + length body) fs) \<le> length xs"
proof (induction fs arbitrary: xs)
  case (Cons f fs)
  obtain p body where f: "f = (p, body)" by fastforce
  with Cons.prems obtain inner where inner: "close_all fs = Some inner" "encode_prefix p (body @ inner) = Some xs"
    by (auto split: option.splits)
  then show ?case using encode_prefix_room [OF inner(2)] Cons.IH [OF inner(1)] by (simp add: f)
qed simp

lemma close_at_size: "close_at d g = Some g' \<Longrightarrow> builder_size g \<le> builder_size g'"
proof (induction d g arbitrary: g' rule: close_at.induct)
  case (1 root fs)
  then show ?case using close_all_size [of fs] by auto
next
  case (3 d root p body fs)
  then obtain body' fs' where "close_at d (body, fs) = Some (body', fs')" "g' = (root, (p, body') # fs')"
    by auto
  then show ?case using "3.IH" by fastforce
qed simp

lemma CBB_add_asn1_uint64_implements:
  assumes "cbb_represents cbb g" "CBB_add_asn1_uint64 d v cbb = (r, cbb')"
  shows "implements d cbb (add_spec d (Some (der_tlv 2 (der_uint (unat v)))) g) (r \<noteq> None) cbb'"
proof -
  let ?body = "der_uint (unat v)"
  have vt: "valid_tag CBS_ASN1_INTEGER" by (simp add: valid_tag_def)
  have "unat v < 2 ^ 64" using unsigned_less [of v] by simp
  then have small: "length ?body \<le> 0xfffffffe"
    using length_der_uint by fastforce
  obtain r1 cbb1 where op: "CBB_add_asn1 d CBS_ASN1_INTEGER cbb = (r1, cbb1)" by (metis surj_pair)
  have F: "implements d cbb (open_spec d [2] Asn1Prefix g) (r1 \<noteq> None) cbb1"
    using CBB_add_asn1_implements [OF assms(1) op] vt by simp
  let ?rest = "\<lambda>g1. Option.bind (Some (append_inner g1 ?body)) (close_at d)"
  have "implements d cbb (Option.bind (open_spec d [2] Asn1Prefix g)
      (\<lambda>g1. if length (snd g1) = Suc d then ?rest g1 else None)) (r \<noteq> None) cbb'"
  proof (rule implements_bind [OF op F assms(2) [unfolded CBB_add_asn1_uint64_eq]])
    fix x g1
    assume a: "open_spec d [2] Asn1Prefix g = Some g1" "cbb_represents cbb1 g1"
      "op_bind (add_u8s (d + 1) ?body) (\<lambda>_. CBB_flush d) cbb1 = (r, cbb')"
    have len: "length (snd g1) = Suc d"
      using a(1) close_at_depth [of d g] append_inner_depth
      by (auto simp: open_spec_def open_child_def split_beta)
    then have pend: "length (cbb_pending cbb1) = d + 1"
      using represents_pending [OF a(2)] by simp
    obtain r2 cbb2 where adds: "add_u8s (d + 1) ?body cbb1 = (r2, cbb2)" by (metis surj_pair)
    have A: "implements d cbb1 (Some (append_inner g1 ?body)) (r2 \<noteq> None) cbb2 \<and> cbb_pending cbb2 = cbb_pending cbb1"
      by (rule add_u8s_implements [OF a(2) pend _ adds]) simp
    have "implements d cbb1 (?rest g1) (r \<noteq> None) cbb'"
      by (rule implements_bind [OF adds conjunct1 [OF A] a(3)])
         (use CBB_flush_implements A pend close_at_size in auto)
    then show "implements d cbb1 (if length (snd g1) = Suc d then ?rest g1 else None) (r \<noteq> None) cbb' \<and>
        d \<le> length (cbb_pending cbb1)"
      using len pend by simp
  next
    show "builder_size g1 \<le> builder_size g2"
      if "(if length (snd g1) = Suc d then ?rest g1 else None) = Some g2" for g1 g2
      using that close_at_size [of d "append_inner g1 ?body" g2] builder_size_append [of g1 ?body]
      by (auto split: if_splits)
  qed
  moreover have "Option.bind (open_spec d [2] Asn1Prefix g) (\<lambda>g1. if length (snd g1) = Suc d then ?rest g1 else None) =
      add_spec d (Some (der_tlv 2 ?body)) g"
  proof (cases "close_at d g")
    case (Some g0)
    let ?g1 = "append_inner g0 [2]"
    have len: "length (snd ?g1) = d" using close_at_depth [OF Some] append_inner_depth by simp
    then have "length (snd (open_child Asn1Prefix ?g1)) = Suc d"
      by (simp add: open_child_def split_beta)
    then show ?thesis
      using Some small close_at_open_append [OF len, of Asn1Prefix ?body]
      by (simp add: open_spec_def add_spec_def append_inner_append der_tlv_def)
  qed (simp add: open_spec_def add_spec_def)
  ultimately show ?thesis by simp
qed

section \<open>Sequences of calls\<close>

datatype cbb_cmd =
    Flush nat
  | AddU8 nat u8
  | AddU16 nat u16
  | AddU24 nat u32
  | AddU32 nat u32
  | AddBytes nat bytes
  | AddAsn1Uint64 nat u64
  | OpenU8 nat
  | OpenU16 nat
  | OpenU24 nat
  | OpenAsn1 nat u32
  | Discard nat

fun cbb_exec :: "cbb_cmd \<Rightarrow> (CBB, unit) op" where
  "cbb_exec (Flush d) = CBB_flush d"
| "cbb_exec (AddU8 d v) = CBB_add_u8 d v"
| "cbb_exec (AddU16 d v) = CBB_add_u16 d v"
| "cbb_exec (AddU24 d v) = CBB_add_u24 d v"
| "cbb_exec (AddU32 d v) = CBB_add_u32 d v"
| "cbb_exec (AddBytes d xs) = CBB_add_bytes d xs"
| "cbb_exec (AddAsn1Uint64 d v) = CBB_add_asn1_uint64 d v"
| "cbb_exec (OpenU8 d) = CBB_add_u8_length_prefixed d"
| "cbb_exec (OpenU16 d) = CBB_add_u16_length_prefixed d"
| "cbb_exec (OpenU24 d) = CBB_add_u24_length_prefixed d"
| "cbb_exec (OpenAsn1 d tag) = CBB_add_asn1 d tag"
| "cbb_exec (Discard d) = (\<lambda>cbb. (Some (), CBB_discard_child d cbb))"

fun cbb_run :: "cbb_cmd list \<Rightarrow> (CBB, unit) op" where
  "cbb_run [] = op_ret ()"
| "cbb_run (c # cs) = op_bind (cbb_exec c) (\<lambda>_. cbb_run cs)"

text \<open>The same commands on the abstract builder.\<close>

fun builder_exec :: "cbb_cmd \<Rightarrow> builder \<Rightarrow> builder option" where
  "builder_exec (Flush d) g = close_at d g"
| "builder_exec (AddU8 d v) g = add_spec d (Some [v]) g"
| "builder_exec (AddU16 d v) g = add_spec d (Some (nat_be 2 (unat v))) g"
| "builder_exec (AddU24 d v) g =
     add_spec d (if unat v < 256 ^ 3 then Some (nat_be 3 (unat v)) else None) g"
| "builder_exec (AddU32 d v) g = add_spec d (Some (nat_be 4 (unat v))) g"
| "builder_exec (AddBytes d xs) g = add_spec d (Some xs) g"
| "builder_exec (AddAsn1Uint64 d v) g = add_spec d (Some (der_tlv 2 (der_uint (unat v)))) g"
| "builder_exec (OpenU8 d) g = open_spec d [] (LenPrefix 1) g"
| "builder_exec (OpenU16 d) g = open_spec d [] (LenPrefix 2) g"
| "builder_exec (OpenU24 d) g = open_spec d [] (LenPrefix 3) g"
| "builder_exec (OpenAsn1 d tag) g =
     (if valid_tag tag then open_spec d [ucast tag] Asn1Prefix g else None)"
| "builder_exec (Discard d) g = Some (fst g, take d (snd g))"

text \<open>\<open>limit\<close> bounds the room the builder may take at any moment.\<close>

fun builder_run :: "nat option \<Rightarrow> cbb_cmd list \<Rightarrow> builder \<Rightarrow> builder option" where
  "builder_run limit [] g = Some g"
| "builder_run limit (c # cs) g =
     (case builder_exec c g of
        None \<Rightarrow> None
      | Some g' \<Rightarrow>
          if (case limit of None \<Rightarrow> True | Some m \<Rightarrow> builder_size g' \<le> m) then builder_run limit cs g' else None)"

text \<open>A byte block a client passes in is an object of the C program, so its size is a \<open>size_t\<close>.\<close>

fun cmd_object :: "cbb_cmd \<Rightarrow> bool" where
  "cmd_object (AddBytes d xs) \<longleftrightarrow> length xs \<le> SIZE_MAX"
| "cmd_object _ \<longleftrightarrow> True"

lemma lays_out_discard:
  "lays_out i w cs g \<Longrightarrow> d < length cs \<Longrightarrow>
     i \<le> ch_offset (cs ! d) \<and> ch_offset (cs ! d) \<le> i + length w \<and>
     lays_out i (take (ch_offset (cs ! d) - i) w) (take d cs) (fst g, take d (snd g))"
proof (induction i w cs g arbitrary: d rule: lays_out.induct)
  case (2 i w c cs root p body fs)
  show ?case
  proof (cases d)
    case 0
    then show ?thesis using 2 by auto
  next
    case (Suc d')
    let ?k = "length root + ch_len_len c"
    have inner: "lays_out (i + length root + ch_len_len c) (drop ?k w) cs (body, fs)" "?k \<le> length w"
        "take (length root) w = root"
      using "2.prems"(1) by auto
    have IH: "i + length root + ch_len_len c \<le> ch_offset (cs ! d')"
      "ch_offset (cs ! d') \<le> i + length root + ch_len_len c + length (drop ?k w)"
      "lays_out (i + length root + ch_len_len c)
         (take (ch_offset (cs ! d') - (i + length root + ch_len_len c)) (drop ?k w)) (take d' cs) (body, take d' fs)"
      using "2.IH" [OF inner(1), of d'] "2.prems"(2) Suc by simp_all
    define o' where "o' = ch_offset (cs ! d') - i"
    have o': "?k \<le> o'" "o' \<le> length w" "ch_offset (cs ! d') = i + o'"
      using IH(1,2) inner(2) by (simp_all add: o'_def)
    have "take (length root) (take o' w) = root" using o'(1) inner(3) by (simp add: min_def)
    moreover have "drop ?k (take o' w) = take (ch_offset (cs ! d') - (i + length root + ch_len_len c)) (drop ?k w)"
      using o' by (simp add: drop_take)
    ultimately show ?thesis
      using "2.prems"(1) IH(3) o' by (auto simp: Suc)
  qed
qed simp_all

lemma discard_implements:
  assumes "cbb_represents cbb g"
  shows "implements d cbb (Some (fst g, take d (snd g))) True (CBB_discard_child d cbb)"
proof -
  obtain b where b: "cbb_base cbb = Some b" "wf_buffer b" "\<not> cb_error b"
      "lays_out 0 (written b) (cbb_pending cbb) g"
    using assms by (auto simp: cbb_represents_def)
  show ?thesis
  proof (cases "d < length (cbb_pending cbb)")
    case False
    then show ?thesis
      using assms lays_out_pending [OF b(4)] by (simp add: implements_def CBB_discard_child_def)
  next
    case True
    let ?o = "ch_offset (cbb_pending cbb ! d)"
    note L = lays_out_discard [OF b(4) True]
    have "?o \<le> cb_len b" using L b(2) by simp
    then have "take ?o (written b) = take ?o (cb_buf b)" by (simp add: written_def min_def)
    with L \<open>?o \<le> cb_len b\<close> show ?thesis
      using True b by (auto simp: implements_def CBB_discard_child_def cbb_represents_def wf_buffer_def
          written_def cbb_fits_def fits_def)
  qed
qed

section \<open>Refinement of every sequence of calls\<close>

fun cmd_handle :: "cbb_cmd \<Rightarrow> nat" where
  "cmd_handle (Flush d) = d"
| "cmd_handle (AddU8 d v) = d"
| "cmd_handle (AddU16 d v) = d"
| "cmd_handle (AddU24 d v) = d"
| "cmd_handle (AddU32 d v) = d"
| "cmd_handle (AddBytes d xs) = d"
| "cmd_handle (AddAsn1Uint64 d v) = d"
| "cmd_handle (OpenU8 d) = d"
| "cmd_handle (OpenU16 d) = d"
| "cmd_handle (OpenU24 d) = d"
| "cmd_handle (OpenAsn1 d tag) = d"
| "cmd_handle (Discard d) = d"

lemma u16_u32_bounds [simp]: "unat (v :: u16) < 65536" "unat (w :: u32) < 4294967296"
  using unsigned_less [of v] unsigned_less [of w] by simp_all

lemma unat_ucast_u16 [simp]: "unat (ucast (v :: u16) :: u32) = unat v"
  unfolding unsigned_ucast_eq
  by (intro take_bit_nat_eq_self less_trans [OF u16_u32_bounds(1)]) simp

lemma cbb_exec_implements:
  assumes "cbb_represents cbb g" "cmd_object c" "cbb_exec c cbb = (r, cbb')"
  shows "implements (cmd_handle c) cbb (builder_exec c g) (r \<noteq> None) cbb'"
proof (cases c)
  case (Flush d)
  then show ?thesis using CBB_flush_implements [OF assms(1)] assms(3) by simp
next
  case (AddU8 d v)
  then show ?thesis
    using cbb_add_u_implements [OF assms(1), of d "ucast v" 1] assms(3)
    by (simp add: CBB_add_u8_def unat_ucast_u8)
next
  case (AddU16 d v)
  then show ?thesis
    using cbb_add_u_implements [OF assms(1), of d "ucast v" 2] assms(3) by (simp add: CBB_add_u16_def)
next
  case (AddU24 d v)
  then show ?thesis
    using cbb_add_u_implements [OF assms(1), of d v 3] assms(3) by (simp add: CBB_add_u24_def)
next
  case (AddU32 d v)
  then show ?thesis
    using cbb_add_u_implements [OF assms(1), of d v 4] assms(3) by (simp add: CBB_add_u32_def)
next
  case (AddBytes d xs)
  then show ?thesis using CBB_add_bytes_implements [OF assms(1)] assms(2,3) by simp
next
  case (AddAsn1Uint64 d v)
  then show ?thesis using CBB_add_asn1_uint64_implements [OF assms(1)] assms(3) by simp
next
  case (OpenU8 d)
  then show ?thesis
    using cbb_add_length_prefixed_implements [OF assms(1), of 1] assms(3)
    by (simp add: CBB_add_u8_length_prefixed_def)
next
  case (OpenU16 d)
  then show ?thesis
    using cbb_add_length_prefixed_implements [OF assms(1), of 2] assms(3)
    by (simp add: CBB_add_u16_length_prefixed_def)
next
  case (OpenU24 d)
  then show ?thesis
    using cbb_add_length_prefixed_implements [OF assms(1), of 3] assms(3)
    by (simp add: CBB_add_u24_length_prefixed_def)
next
  case (OpenAsn1 d tag)
  then show ?thesis using CBB_add_asn1_implements [OF assms(1)] assms(3) by simp
next
  case (Discard d)
  then show ?thesis using discard_implements [OF assms(1)] assms(3) by auto
qed

lemma cbb_run_sound:
  assumes "cbb_represents cbb g" "list_all cmd_object cs" "cbb_run cs cbb = (Some (), cbb')"
  shows "\<exists>g'. builder_run None cs g = Some g' \<and> cbb_represents cbb' g'"
  using assms
proof (induction cs arbitrary: cbb g)
  case (Cons c cs)
  then obtain x cbb1 where run: "cbb_exec c cbb = (Some x, cbb1)" "cbb_run cs cbb1 = (Some (), cbb')"
    by (auto elim: op_bind_SomeE)
  then obtain g1 where "builder_exec c g = Some g1" "cbb_represents cbb1 g1"
    using cbb_exec_implements [OF Cons.prems(1) _ run(1)] Cons.prems(2) by (auto simp: implements_def)
  then show ?case using Cons.IH [of cbb1 g1] Cons.prems(2) run(2) by simp
qed auto

lemma cbb_run_complete:
  assumes "cbb_represents cbb g" "list_all cmd_object cs" "cbb_fits cbb m" "builder_run (Some m) cs g = Some g'"
  shows "\<exists>cbb'. cbb_run cs cbb = (Some (), cbb') \<and> cbb_represents cbb' g' \<and> cbb_fits cbb' m"
  using assms
proof (induction cs arbitrary: cbb g)
  case (Cons c cs)
  then obtain g1 where g1: "builder_exec c g = Some g1" "builder_size g1 \<le> m" "builder_run (Some m) cs g1 = Some g'"
    by (auto split: option.splits if_splits)
  obtain r cbb1 where run: "cbb_exec c cbb = (r, cbb1)" by (metis surj_pair)
  have I: "implements (cmd_handle c) cbb (Some g1) (r \<noteq> None) cbb1"
    using cbb_exec_implements [OF Cons.prems(1) _ run] Cons.prems(2) g1(1) by simp
  moreover have "cbb_fits cbb (builder_size g1)"
    using Cons.prems(3) g1(2) fits_mono by (auto simp: cbb_fits_def split: option.splits)
  ultimately have r: "r \<noteq> None" "cbb_represents cbb1 g1" "cbb_fits cbb1 m"
    using Cons.prems(3) by (auto simp: implements_def split: if_splits)
  then show ?case using Cons.IH [OF r(2)] Cons.prems(2) g1(3) run by (auto simp: op_bind_def)
qed auto

section \<open>The error flag is sticky\<close>

lemma cbb_broken_simps:
  assumes "cbb_broken cbb"
  shows "\<exists>cbb'. CBB_flush d cbb = (None, cbb') \<and> cbb_broken cbb'"
proof -
  obtain b where b: "cbb_base cbb = Some b" "wf_buffer b" "cb_error b"
    using assms by (auto simp: cbb_broken_def)
  have "cbb_flush_pending cs (b, e) = (False, cs, b, e)" for cs e
    using b(3) by (cases cs) auto
  then show ?thesis using b by (auto simp: CBB_flush_def cbb_broken_def)
qed

lemma op_bind_broken:
  "\<exists>cbb'. m cbb = (None, cbb') \<and> cbb_broken cbb' \<Longrightarrow> \<exists>cbb'. op_bind m f cbb = (None, cbb') \<and> cbb_broken cbb'"
  by auto

lemma CBB_add_asn1_broken: "cbb_broken cbb \<Longrightarrow> \<exists>cbb'. CBB_add_asn1 d tag cbb = (None, cbb') \<and> cbb_broken cbb'"
proof (cases "tag > 0xff \<or> tag AND 0x1f = 0x1f")
  case True
  then show "\<exists>cbb'. CBB_add_asn1 d tag cbb = (None, cbb') \<and> cbb_broken cbb'" if "cbb_broken cbb"
    using that by (auto simp: CBB_add_asn1_def with_base_def cbb_broken_def wf_buffer_def)
next
  case False
  then show "\<exists>cbb'. CBB_add_asn1 d tag cbb = (None, cbb') \<and> cbb_broken cbb'" if "cbb_broken cbb"
    using that unfolding CBB_add_asn1_def if_not_P [OF False] by (intro op_bind_broken cbb_broken_simps)
qed

definition is_discard :: "cbb_cmd \<Rightarrow> bool" where
  "is_discard c \<longleftrightarrow> (\<exists>d. c = Discard d)"

lemma cbb_exec_broken:
  assumes "cbb_broken cbb" "\<not> is_discard c"
  shows "\<exists>cbb'. cbb_exec c cbb = (None, cbb') \<and> cbb_broken cbb'"
  using assms
  by (cases c)
     (auto simp: is_discard_def CBB_add_u8_def CBB_add_u16_def CBB_add_u24_def CBB_add_u32_def CBB_add_bytes_def
       CBB_add_asn1_uint64_def cbb_add_length_prefixed_def CBB_add_u8_length_prefixed_def
       CBB_add_u16_length_prefixed_def CBB_add_u24_length_prefixed_def
       intro!: op_bind_broken cbb_broken_simps CBB_add_asn1_broken)

section \<open>Whole sessions\<close>

lemma fold_broken:
  "cbb_broken cbb \<Longrightarrow> \<forall>c\<in>set cs. \<not> is_discard c \<Longrightarrow> cbb_broken (fold (\<lambda>c s. snd (cbb_exec c s)) cs cbb)"
proof (induction cs arbitrary: cbb)
  case (Cons c cs)
  then show ?case using cbb_exec_broken [of cbb c] by fastforce
qed simp

lemma CBB_init_represents:
  assumes "cap \<le> SIZE_MAX" "CBB_init cap e = (Some (), cbb)"
  shows "cbb_represents cbb ([], []) \<and> (never_fails e \<longrightarrow> cbb_fits cbb SIZE_MAX)"
  using assms
  by (auto simp: CBB_init_def cbb_init_def libc_malloc_def cbb_represents_def wf_buffer_def written_def
      cbb_fits_def fits_def CBB_zero_def split: if_splits)

lemma CBB_init_ok: "never_fails e \<Longrightarrow> \<exists>cbb. CBB_init cap e = (Some (), cbb)"
  by (simp add: CBB_init_def cbb_init_def libc_malloc_def CBB_zero_def)

lemma CBB_init_fixed_represents:
  assumes "length p = n" "n \<le> SIZE_MAX" "CBB_init_fixed p n e = (Some (), cbb)"
  shows "cbb_represents cbb ([], []) \<and> cbb_fits cbb n"
  using assms
  by (auto simp: CBB_init_fixed_def cbb_init_def cbb_represents_def wf_buffer_def written_def
      cbb_fits_def fits_def CBB_zero_def op_bind_def with_base_def split: if_splits)

lemma CBB_init_fixed_ok: "malloc_ok e \<Longrightarrow> \<exists>cbb. CBB_init_fixed p n e = (Some (), cbb)"
  by (simp add: CBB_init_fixed_def cbb_init_def CBB_zero_def op_bind_def with_base_def)

lemma CBB_finish_cases:
  assumes "cbb_represents cbb g" "CBB_finish 0 True cbb = (r, cbb')"
  shows "case r of
      None \<Rightarrow> (\<forall>bs. close_at 0 g = Some (bs, []) \<longrightarrow> \<not> cbb_fits cbb (length bs))
    | Some (buf, n) \<Rightarrow> close_at 0 g = Some (take n buf, []) \<and> n \<le> length buf \<and> cbb_base cbb' = None"
proof -
  obtain r1 cbb1 where fl: "CBB_flush 0 cbb = (r1, cbb1)" by (metis surj_pair)
  note F = CBB_flush_implements [OF assms(1) fl]
  show ?thesis
  proof (cases r1)
    case None
    then show ?thesis
      using F assms(2) fl by (fastforce simp: CBB_finish_def implements_def)
  next
    case (Some x)
    then obtain g' where g': "close_at 0 g = Some g'" "cbb_represents cbb1 g'"
      using F by (auto simp: implements_def)
    then obtain bs where bs: "g' = (bs, [])" by (cases g) auto
    obtain b where b: "cbb_base cbb1 = Some b" "wf_buffer b" "written b = bs"
      using g'(2) F Some by (auto simp: cbb_represents_def bs)
    have "r = Some (cb_buf b, cb_len b) \<and> cbb' = CBB_cleanup cbb1"
      using assms(2) fl Some b(1) by (auto simp: CBB_finish_def op_bind_def)
    then show ?thesis using g' bs b by (auto simp: written_def wf_buffer_def CBB_cleanup_def)
  qed
qed

definition cbb_session :: "unit option \<times> CBB \<Rightarrow> cbb_cmd list \<Rightarrow> (bytes \<times> nat) option" where
  "cbb_session start cs =
     (case start of
        (None, _) \<Rightarrow> None
      | (Some _, cbb) \<Rightarrow> fst (op_bind (cbb_run cs) (\<lambda>_. CBB_finish 0 True) cbb))"

definition sample_cmds :: "cbb_cmd list" where
  "sample_cmds = [OpenAsn1 0 0x30, AddAsn1Uint64 1 300, OpenU16 1, AddBytes 2 [0xab], Flush 0]"

definition sample_bytes :: bytes where
  "sample_bytes = [0x30, 7, 2, 2, 1, 44, 0, 1, 0xab]"

lemma sample_session:
  "cbb_session (CBB_init 4 plain_env) sample_cmds = Some (sample_bytes @ replicate 7 0, 9)"
  by code_simp

lemma cbb_session_builds:
  assumes "cap \<le> SIZE_MAX" "list_all cmd_object cs" "cbb_session (CBB_init cap e) cs = Some (buf, n)"
  shows "n \<le> length buf \<and>
    (\<exists>g. builder_run None cs ([], []) = Some g \<and> close_at 0 g = Some (take n buf, []))"
proof -
  obtain cbb x cbb' where r: "CBB_init cap e = (Some (), cbb)" "cbb_run cs cbb = (Some (), cbb')"
      "fst (CBB_finish 0 True cbb') = Some (buf, n)"
    using assms(3) by (auto simp: cbb_session_def op_bind_def split: prod.splits option.splits)
  obtain g where g: "builder_run None cs ([], []) = Some g" "cbb_represents cbb' g"
    using cbb_run_sound [OF _ assms(2) r(2)] CBB_init_represents [OF assms(1) r(1)] by blast
  obtain cbb'' where "CBB_finish 0 True cbb' = (Some (buf, n), cbb'')" using r(3) by (metis prod.collapse)
  from CBB_finish_cases [OF g(2) this] show ?thesis using g(1) by auto
qed

text \<open>C3: soundness of the writer. Whatever sequence of calls a client makes, through any handles of
  the chain of open children, with any outcome of the allocations: if every call and the final
  \<open>CBB_finish\<close> succeed, the finished bytes are what the abstract builder computes. Lengths
  are filled in behind the client's back, ASN.1 lengths in their minimal DER form with the
  contents moved up, and no byte is lost or duplicated.\<close>

theorem cbb_session_sound:
  assumes "cap \<le> SIZE_MAX" "list_all cmd_object cs" "cbb_session (CBB_init cap e) cs = Some (buf, n)"
  shows "n \<le> length buf \<and>
    (\<exists>g. builder_run None cs ([], []) = Some g \<and> close_at 0 g = Some (take n buf, []))"
  by (rule cbb_session_builds [OF assms])

lemma cbb_session_sound_witness:
  "\<exists>g. builder_run None sample_cmds ([], []) = Some g \<and>
     close_at 0 g = Some (take 9 (sample_bytes @ replicate 7 0), [])"
  using cbb_session_sound [OF _ _ sample_session] by (simp add: sample_cmds_def)

lemma cbb_session_complete_from:
  assumes "cbb_represents cbb ([], [])" "cbb_fits cbb m" "list_all cmd_object cs"
    "builder_run (Some m) cs ([], []) = Some g" "close_at 0 g = Some (bs, [])" "length bs \<le> m"
  shows "\<exists>buf. cbb_session (Some (), cbb) cs = Some (buf, length bs) \<and> take (length bs) buf = bs"
proof -
  obtain cbb' where r: "cbb_run cs cbb = (Some (), cbb')" "cbb_represents cbb' g" "cbb_fits cbb' m"
    using cbb_run_complete [OF assms(1,3,2,4)] by blast
  obtain r' cbb'' where fin: "CBB_finish 0 True cbb' = (r', cbb'')" by (metis surj_pair)
  have "cbb_fits cbb' (length bs)"
    using r(3) assms(6) fits_mono by (auto simp: cbb_fits_def split: option.splits)
  then obtain buf n where b: "r' = Some (buf, n)" using CBB_finish_cases [OF r(2) fin] assms(5) by (cases r') auto
  have "close_at 0 g = Some (take n buf, [])" "n \<le> length buf"
    using CBB_finish_cases [OF r(2) fin] b by simp_all
  then have "bs = take n buf" "length bs = n" using assms(5) by auto
  then show ?thesis using r(1) fin b by (auto simp: cbb_session_def op_bind_def)
qed

text \<open>C4: completeness of the growing writer. If the abstract builder accepts the calls (every length fits
  its prefix, every tag and 24-bit value is in range, every handle is live) and never needs more
  than a \<open>size_t\<close> can count, then with an allocator that does not fail every call succeeds and the
  builder's bytes come out, whatever the initial capacity: reallocation is transparent.\<close>

theorem cbb_session_complete:
  assumes "never_fails e" "cap \<le> SIZE_MAX" "list_all cmd_object cs"
    "builder_run (Some SIZE_MAX) cs ([], []) = Some g" "close_at 0 g = Some (bs, [])" "length bs \<le> SIZE_MAX"
  shows "\<exists>buf. cbb_session (CBB_init cap e) cs = Some (buf, length bs) \<and> take (length bs) buf = bs"
proof -
  obtain cbb where "CBB_init cap e = (Some (), cbb)" using CBB_init_ok [OF assms(1)] by blast
  then show ?thesis
    using cbb_session_complete_from [OF _ _ assms(3-6)] CBB_init_represents [OF assms(2)] assms(1) by auto
qed

lemma sample_builder:
  "builder_run (Some SIZE_MAX) sample_cmds ([], []) = Some (sample_bytes, [])"
  "builder_run (Some 9) sample_cmds ([], []) = Some (sample_bytes, [])"
  by code_simp+

lemma sample_objects: "list_all cmd_object sample_cmds" "length sample_bytes = 9"
  by (simp_all add: sample_cmds_def sample_bytes_def)

lemma cbb_session_complete_witness:
  "\<exists>buf. cbb_session (CBB_init 0 plain_env) sample_cmds = Some (buf, 9) \<and> take 9 buf = sample_bytes"
  using cbb_session_complete [of plain_env 0 sample_cmds "(sample_bytes, [])" sample_bytes] sample_builder(1)
  by (simp add: sample_objects)

text \<open>C5: completeness of the fixed writer. In a caller's buffer of \<open>n\<close> bytes every sequence of calls
  whose contents with pending prefixes never exceed \<open>n\<close> bytes succeeds; only the first
  allocation (of the \<open>cbb_buffer_st\<close>) has to succeed.\<close>

theorem cbb_session_fixed:
  assumes "malloc_ok e" "length p = n" "n \<le> SIZE_MAX" "list_all cmd_object cs"
    "builder_run (Some n) cs ([], []) = Some g" "close_at 0 g = Some (bs, [])" "length bs \<le> n"
  shows "\<exists>buf. cbb_session (CBB_init_fixed p n e) cs = Some (buf, length bs) \<and> take (length bs) buf = bs"
proof -
  obtain cbb where "CBB_init_fixed p n e = (Some (), cbb)" using CBB_init_fixed_ok [OF assms(1)] by blast
  then show ?thesis
    using cbb_session_complete_from [OF _ _ assms(4-7)] CBB_init_fixed_represents [OF assms(2,3)] by auto
qed

lemma cbb_session_fixed_witness:
  "\<exists>buf. cbb_session (CBB_init_fixed (replicate 9 0) 9 plain_env) sample_cmds = Some (buf, 9) \<and>
     take 9 buf = sample_bytes"
  using cbb_session_fixed [of plain_env "replicate 9 0" 9 sample_cmds "(sample_bytes, [])" sample_bytes] sample_builder(2)
  by (simp add: sample_objects)


text \<open>A fixed buffer of one byte: the second byte does not fit.\<close>

definition full_cbb :: CBB where
  "full_cbb = \<lparr>cbb_base = Some \<lparr>cb_buf = [7], cb_len = 1, cb_cap = 1, cb_can_resize = False, cb_error = False\<rparr>,
     cbb_pending = [], cbb_env = plain_env\<rparr>"


section \<open>What is written can be read\<close>

lemma CBS_init_take: "n \<le> length buf \<Longrightarrow> take n buf = bs \<Longrightarrow> CBS_init buf n = CBS_of bs (drop n buf)"
  by (simp add: CBS_init_of)

lemma encode_prefix_read:
  assumes "encode_prefix (LenPrefix k) body = Some enc" "k \<le> 4"
  shows "cbs_get_length_prefixed k (CBS_of enc t) = (Some (CBS_of body t), CBS_of [] t)"
proof -
  have "enc = nat_be k (length body) @ body" "length body < 256 ^ k"
    using assms(1) by (auto split: if_splits)
  moreover have "unat (be_word (nat_be k (length body)) 0 :: u32) = length body"
    using assms(2) calculation(2) by (simp add: unat_be_word_u32 be_nat_nat_be)
  ultimately show ?thesis by (simp add: view_simps)
qed

lemma valid_tag_u8:
  assumes "valid_tag tag"
  shows "ucast (ucast tag :: u8) = tag" "low_tag (ucast tag)"
proof -
  have "unat tag \<le> 255" using assms by (simp add: valid_tag_def word_le_nat_alt)
  then have "unat (ucast tag :: u8) = unat tag"
    unfolding unsigned_ucast_eq by (intro take_bit_nat_eq_self) simp
  then show eq: "ucast (ucast tag :: u8) = tag"
    by (simp add: word_unat_eq_iff unat_ucast_u8)
  show "low_tag (ucast tag)"
  proof (rule ccontr)
    assume "\<not> low_tag (ucast tag)"
    then have "(ucast ((ucast tag :: u8) AND 0x1f) :: u32) = ucast (0x1f :: u8)"
      by (simp add: low_tag_def)
    then have "tag AND 0x1f = 0x1f" unfolding unsigned_and_eq eq by simp
    with assms show False by (simp add: valid_tag_def)
  qed
qed

text \<open>What \<open>CBB_add_asn1_uint64\<close> writes, \<open>CBS_get_asn1_uint64\<close> reads: every 64-bit value survives, and
  the reader is left at the end of the input.\<close>

theorem uint64_roundtrip:
  assumes "cap \<le> SIZE_MAX" "cbb_session (CBB_init cap e) [AddAsn1Uint64 0 v] = Some (buf, n)"
  shows "\<exists>c'. CBS_get_asn1_uint64 (CBS_init buf n) = (Some v, c') \<and> CBS_len c' = 0"
proof -
  have "n \<le> length buf" "take n buf = der_tlv 2 (der_uint (unat v))"
    using cbb_session_builds [OF assms(1) _ assms(2)] by (auto simp: add_spec_def)
  then show ?thesis
    by (intro exI [of _ "CBS_of [] (drop n buf)"])
       (simp add: CBS_init_take [OF _ refl] CBS_get_asn1_uint64_der [where rest = "[]", simplified])
qed

lemma uint64_roundtrip_witness:
  "\<exists>c'. CBS_get_asn1_uint64 (CBS_init [2, 2, 1, 44] 4) = (Some 300, c') \<and> CBS_len c' = 0"
proof -
  have "cbb_session (CBB_init 4 plain_env) [AddAsn1Uint64 0 300] = Some ([2, 2, 1, 44], 4)"
    by code_simp
  from uint64_roundtrip [OF _ this] show ?thesis by simp
qed

text \<open>C7: an ASN.1 element written with \<open>CBB_add_asn1\<close> and \<open>CBB_add_bytes\<close> is read back by
  \<open>CBS_get_asn1\<close> with the same tag and contents, for every valid tag and every contents the
  writer accepts.\<close>

theorem asn1_roundtrip:
  assumes "cap \<le> SIZE_MAX" "length body \<le> SIZE_MAX"
    "cbb_session (CBB_init cap e) [OpenAsn1 0 tag, AddBytes 1 body] = Some (buf, n)"
  shows "\<exists>out c'. CBS_get_asn1 tag (CBS_init buf n) = (Some out, c') \<and> cbs_view out = body \<and> CBS_len c' = 0"
proof -
  have s: "n \<le> length buf" "valid_tag tag" "length body \<le> 0xfffffffe" "take n buf = der_tlv (ucast tag) body"
    using cbb_session_builds [OF assms(1) _ assms(3)] assms(2)
    by (auto simp: add_spec_def open_spec_def open_child_def der_tlv_def split: if_splits)
  have "CBS_get_asn1 tag (CBS_of (der_tlv (ucast tag) body) (drop n buf)) =
      (Some (CBS_of body (drop n buf)), CBS_of [] (drop n buf))"
    using valid_tag_u8 [OF s(2)] s(3) cbs_get_asn1_der [of "ucast tag" body True "[]" "drop n buf"]
    by (simp add: CBS_get_asn1_def)
  then show ?thesis using CBS_init_take [OF s(1,4)] by auto
qed

lemma asn1_roundtrip_witness:
  "\<exists>out c'. CBS_get_asn1 4 (CBS_init [4, 2, 7, 8] 4) = (Some out, c') \<and> cbs_view out = [7, 8] \<and> CBS_len c' = 0"
proof -
  have "cbb_session (CBB_init 4 plain_env) [OpenAsn1 0 4, AddBytes 1 [7, 8]] = Some ([4, 2, 7, 8], 4)"
    by code_simp
  from asn1_roundtrip [OF _ _ this] show ?thesis by simp
qed

text \<open>Contents written under an 8-, 16- or 24-bit length prefix come back from the matching reader.\<close>

theorem length_prefixed_roundtrip:
  assumes "cap \<le> SIZE_MAX" "length body \<le> SIZE_MAX"
    "(openc, reader) \<in> {(OpenU8 0, CBS_get_u8_length_prefixed), (OpenU16 0, CBS_get_u16_length_prefixed),
                         (OpenU24 0, CBS_get_u24_length_prefixed)}"
    "cbb_session (CBB_init cap e) [openc, AddBytes 1 body] = Some (buf, n)"
  shows "\<exists>out c'. reader (CBS_init buf n) = (Some out, c') \<and> cbs_view out = body \<and> CBS_len c' = 0"
proof -
  obtain k where k: "reader = cbs_get_length_prefixed k" "k \<le> 4" "cmd_object openc"
      "\<And>g. builder_exec openc g = open_spec 0 [] (LenPrefix k) g"
    using assms(3) by (auto simp: CBS_get_u8_length_prefixed_def CBS_get_u16_length_prefixed_def
        CBS_get_u24_length_prefixed_def)
  have "n \<le> length buf" "encode_prefix (LenPrefix k) body = Some (take n buf)"
    using cbb_session_builds [OF assms(1) _ assms(4)] assms(2) k(3,4)
    by (auto simp: add_spec_def open_spec_def open_child_def split: if_splits)
  then show ?thesis
    using encode_prefix_read [OF _ k(2), of body "take n buf" "drop n buf"] CBS_init_take [OF _ refl, of n buf]
    by (simp add: k(1))
qed

lemma length_prefixed_roundtrip_witness:
  "\<exists>out c'. CBS_get_u16_length_prefixed (CBS_init [0, 2, 7, 8] 4) = (Some out, c') \<and>
     cbs_view out = [7, 8] \<and> CBS_len c' = 0"
proof -
  have "cbb_session (CBB_init 4 plain_env) [OpenU16 0, AddBytes 1 [7, 8]] = Some ([0, 2, 7, 8], 4)"
    by code_simp
  from length_prefixed_roundtrip [OF _ _ _ this, of CBS_get_u16_length_prefixed] show ?thesis by simp
qed

end
