(* ===== verification/Ber.thy ===== *)
theory Ber
  imports CbbRefine
begin

text \<open>
  The BER-to-DER converter of \<open>crypto/bytestring/ber.c\<close> and \<open>CBB_finish_i2d\<close> of
  \<open>asn1_compat.c\<close>. The converter reads with \<open>Cbs\<close> and writes with \<open>Cbb\<close>; a CBB parameter is a
  handle (\<open>out\<close>) into the one chain of open children, a stack-allocated child the next handle.
\<close>

section \<open>Finding BER\<close>

definition kMaxDepth :: nat where
  "kMaxDepth = 2048"

definition is_string_type :: "u32 \<Rightarrow> bool" where
  "is_string_type tag \<longleftrightarrow>
     (if tag AND 0xc0 \<noteq> 0 then False
      else tag AND 0x1f \<in> {0x3, 0x4, 0xc, 0x12, 0x13, 0x14, 0x15, 0x16, 0x19, 0x1a, 0x1b, 0x1c, 0x1e})"

definition is_indefinite :: "CBS \<Rightarrow> nat \<Rightarrow> bool" where
  "is_indefinite contents header_len \<longleftrightarrow>
     CBS_len contents = header_len \<and> header_len > 0 \<and> CBS_data contents ! (header_len - 1) = 0x80"

lemma CBS_get_any_ber_asn1_element_shrinks:
  assumes "CBS_get_any_ber_asn1_element cbs = (Some (contents, tag, header_len), cbs')"
  shows "cbs_len cbs' < cbs_len cbs \<and> cbs_len contents \<le> cbs_len cbs \<and> 2 \<le> header_len"
  using assms
  by (auto simp: CBS_get_any_ber_asn1_element_def cbs_get_any_asn1_element_def Let_def op_bind_def
      CBS_get_bytes_def cbs_get_def CBS_init_def split: prod.splits option.splits if_splits)

lemma CBS_skip_shrinks:
  "CBS_skip n cbs = (Some x, cbs') \<Longrightarrow> cbs_len cbs' = cbs_len cbs - n \<and> n \<le> cbs_len cbs"
  by (auto simp: CBS_skip_def cbs_get_def op_bind_def split: if_splits)

text \<open>
  \<open>cbs_find_ber\<close>: \<open>None\<close> is the return value 0, otherwise the result is \<open>*ber_found\<close>. The loop
  carries \<open>*ber_found\<close>, which each nested call sets again.
\<close>

function cbs_find_ber_loop :: "nat \<Rightarrow> CBS \<Rightarrow> bool \<Rightarrow> bool option" where
  "cbs_find_ber_loop depth cbs found =
     (if CBS_len cbs = 0 then Some found
      else case CBS_get_any_ber_asn1_element cbs of
        (None, _) \<Rightarrow> None
      | (Some (contents, tag, header_len), cbs') \<Rightarrow>
          if is_indefinite contents header_len then Some True
          else if tag AND CBS_ASN1_CONSTRUCTED \<noteq> 0 then
            if is_string_type tag then Some True
            else (case CBS_skip header_len contents of
                    (None, _) \<Rightarrow> None
                  | (Some _, contents') \<Rightarrow>
                      (case (if depth + 1 > kMaxDepth then None
                             else cbs_find_ber_loop (depth + 1) contents' False) of
                         None \<Rightarrow> None
                       | Some found' \<Rightarrow> cbs_find_ber_loop depth cbs' found'))
          else cbs_find_ber_loop depth cbs' found)"
  by pat_completeness auto
termination
  by (relation "measure (\<lambda>(depth, cbs, found). cbs_len cbs)")
     (auto dest!: CBS_skip_shrinks [OF sym] CBS_get_any_ber_asn1_element_shrinks [OF sym])

declare cbs_find_ber_loop.simps [simp del]

definition cbs_find_ber :: "CBS \<Rightarrow> nat \<Rightarrow> bool option" where
  "cbs_find_ber orig_in depth =
     (if depth > kMaxDepth then None else cbs_find_ber_loop depth orig_in False)"

section \<open>Converting\<close>

definition is_eoc :: "nat \<Rightarrow> CBS \<Rightarrow> bool" where
  "is_eoc header_len contents \<longleftrightarrow>
     header_len = 2 \<and> CBS_len contents = 2 \<and> take 2 (CBS_data contents) = [0, 0]"

text \<open>Where the contents of an element go: the handle and the string tag for its children.\<close>

definition cbs_convert_open :: "nat \<Rightarrow> u32 \<Rightarrow> u32 \<Rightarrow> (CBB, nat \<times> u32) op" where
  "cbs_convert_open out string_tag tag =
     (if string_tag \<noteq> 0 then
        (if tag AND NOT CBS_ASN1_CONSTRUCTED \<noteq> string_tag then op_fail else op_ret (out, string_tag))
      else
        let stringy = (tag AND CBS_ASN1_CONSTRUCTED \<noteq> 0 \<and> is_string_type tag);
            out_tag = (if stringy then tag AND NOT CBS_ASN1_CONSTRUCTED else tag);
            child_string_tag = (if stringy then out_tag else string_tag)
        in op_bind (CBB_add_asn1 out out_tag) (\<lambda>_. op_ret (out + 1, child_string_tag)))"

text \<open>
  \<open>cbs_convert_ber\<close>: one call does the loop, so the test of \<open>depth\<close> at its head is repeated in
  every iteration, where it cannot change. The result is the return value, and where \<open>in\<close> and
  the writer are left.
\<close>

function cbs_convert_ber ::
  "CBS \<Rightarrow> nat \<Rightarrow> u32 \<Rightarrow> bool \<Rightarrow> nat \<Rightarrow> CBB \<Rightarrow> bool \<times> CBS \<times> CBB" where
  "cbs_convert_ber cbs out string_tag looking_for_eoc depth cbb =
     (if depth > kMaxDepth then (False, cbs, cbb)
      else if CBS_len cbs = 0 then (\<not> looking_for_eoc, cbs, cbb)
      else case CBS_get_any_ber_asn1_element cbs of
        (None, cbs') \<Rightarrow> (False, cbs', cbb)
      | (Some (contents, tag, header_len), cbs') \<Rightarrow>
          if is_eoc header_len contents then (looking_for_eoc, cbs', cbb)
          else case cbs_convert_open out string_tag tag cbb of
            (None, cbb1) \<Rightarrow> (False, cbs', cbb1)
          | (Some (out_contents, child_string_tag), cbb1) \<Rightarrow>
              if is_indefinite contents header_len then
                (case cbs_convert_ber cbs' out_contents child_string_tag True (depth + 1) cbb1 of
                   (ok, cbs2, cbb2) \<Rightarrow>
                     if \<not> ok then (False, cbs2, cbb2)
                     else case CBB_flush out cbb2 of
                       (None, cbb3) \<Rightarrow> (False, cbs2, cbb3)
                     | (Some _, cbb3) \<Rightarrow> cbs_convert_ber cbs2 out string_tag looking_for_eoc depth cbb3)
              else case CBS_skip header_len contents of
                (None, _) \<Rightarrow> (False, cbs', cbb1)
              | (Some _, contents') \<Rightarrow>
                  (case (if tag AND CBS_ASN1_CONSTRUCTED \<noteq> 0
                         then (case cbs_convert_ber contents' out_contents child_string_tag False (depth + 1) cbb1 of
                                 (ok, _, cbb2) \<Rightarrow> (if ok then Some () else None, cbb2))
                         else CBB_add_bytes out_contents (take (CBS_len contents') (CBS_data contents')) cbb1) of
                     (None, cbb2) \<Rightarrow> (False, cbs', cbb2)
                   | (Some _, cbb2) \<Rightarrow>
                       (case CBB_flush out cbb2 of
                          (None, cbb3) \<Rightarrow> (False, cbs', cbb3)
                        | (Some _, cbb3) \<Rightarrow> cbs_convert_ber cbs' out string_tag looking_for_eoc depth cbb3)))"
  by pat_completeness auto

lemma CBS_get_any_ber_asn1_element_None:
  "CBS_get_any_ber_asn1_element cbs = (None, cbs') \<Longrightarrow> cbs' = cbs"
  by (auto simp: CBS_get_any_ber_asn1_element_def cbs_get_any_asn1_element_def Let_def op_bind_def
      CBS_get_bytes_def cbs_get_def split: prod.splits option.splits if_splits)

lemma cbs_convert_ber_shrinks:
  "cbs_convert_ber_dom (cbs, out, st, eoc, depth, cbb) \<Longrightarrow>
     cbs_convert_ber cbs out st eoc depth cbb = (ok, cbs', cbb') \<Longrightarrow> cbs_len cbs' \<le> cbs_len cbs"
proof (induction cbs out st eoc depth cbb arbitrary: ok cbs' cbb' rule: cbs_convert_ber.pinduct)
  case (1 cbs out st eoc depth cbb)
  note run = "1.prems" [unfolded cbs_convert_ber.psimps [OF "1.hyps"]]
  show ?case
  proof (cases "kMaxDepth < depth \<or> CBS_len cbs = 0")
    case True
    then show ?thesis using run by (auto split: if_splits)
  next
    case False
    then have go: "\<not> kMaxDepth < depth" "CBS_len cbs \<noteq> 0" by auto
    obtain r cbs1 where elem: "CBS_get_any_ber_asn1_element cbs = (r, cbs1)" by fastforce
    show ?thesis
    proof (cases r)
      case None
      then show ?thesis using run go elem CBS_get_any_ber_asn1_element_None by auto
    next
      case (Some a)
      obtain contents tag hl where a: "a = (contents, tag, hl)" by (metis prod_cases3)
      note elem' = elem [unfolded Some a]
      have shrink: "cbs_len cbs1 < cbs_len cbs"
        using CBS_get_any_ber_asn1_element_shrinks [OF elem'] by simp
      obtain o' cbb1 where op: "cbs_convert_open out st tag cbb = (o', cbb1)" by fastforce
      show ?thesis
      proof (cases "is_eoc hl contents \<or> o' = None")
        case True
        then show ?thesis using run go elem' op shrink by (auto split: if_splits)
      next
        case False
        then obtain oc cst where o': "o' = Some (oc, cst)" and neoc: "\<not> is_eoc hl contents" by auto
        note op' = op [unfolded o']
        show ?thesis
        proof (cases "is_indefinite contents hl")
          case indef: True
          obtain ok2 cbs2 cbb2 where inner: "cbs_convert_ber cbs1 oc cst True (depth + 1) cbb1 = (ok2, cbs2, cbb2)"
            by (metis prod_cases3)
          obtain f cbb3 where fl: "CBB_flush out cbb2 = (f, cbb3)" by fastforce
          have le: "cbs_len cbs2 \<le> cbs_len cbs1"
            by (rule "1.IH"(1) [OF go elem' [symmetric] refl refl refl neoc op' [symmetric] refl refl indef inner])
          show ?thesis
          proof (cases "ok2 \<and> f \<noteq> None")
            case True
            then obtain x where "f = Some x" "\<not> \<not> ok2" by auto
            note rec = "1.IH"(2) [OF go elem' [symmetric] refl refl refl neoc op' [symmetric] refl refl indef
                inner [symmetric] refl this(2) fl [symmetric] this(1)]
            have "cbs_convert_ber cbs2 out st eoc depth cbb3 = (ok, cbs', cbb')"
              using run go elem' neoc op' indef inner fl \<open>f = Some x\<close> \<open>\<not> \<not> ok2\<close> by simp
            from rec [OF this] le shrink show ?thesis by simp
          next
            case False
            then have "cbs' = cbs2"
              using run go elem' neoc op' indef inner fl by (cases ok2; cases f) auto
            then show ?thesis using le shrink by simp
          qed
        next
          case def: False
          obtain k contents' where sk: "CBS_skip hl contents = (k, contents')" by fastforce
          obtain g cbb2 where body: "(if tag AND CBS_ASN1_CONSTRUCTED \<noteq> 0
              then (case cbs_convert_ber contents' oc cst False (depth + 1) cbb1 of
                      (ok, _, cbb2) \<Rightarrow> (if ok then Some () else None, cbb2))
              else CBB_add_bytes oc (take (CBS_len contents') (CBS_data contents')) cbb1) = (g, cbb2)"
            by (metis surj_pair)
          obtain f cbb3 where fl: "CBB_flush out cbb2 = (f, cbb3)" by fastforce
          show ?thesis
          proof (cases "k \<noteq> None \<and> g \<noteq> None \<and> f \<noteq> None")
            case True
            then obtain x y z where k: "k = Some x" and g: "g = Some y" and f: "f = Some z" by auto
            note rec = "1.IH"(4) [OF go elem' [symmetric] refl refl refl neoc op' [symmetric] refl refl def
                sk [symmetric] k body [symmetric] g fl [symmetric] f]
            have "cbs_convert_ber cbs1 out st eoc depth cbb3 = (ok, cbs', cbb')"
              using run go elem' neoc op' def sk k body g fl f by simp
            from rec [OF this] shrink show ?thesis by simp
          next
            case False
            then have "cbs' = cbs1"
              using run go elem' neoc op' def sk body fl by (cases k; cases g; cases f) auto
            then show ?thesis using shrink by simp
          qed
        qed
      qed
    qed
  qed
qed

termination cbs_convert_ber
  by (relation "measure (\<lambda>(cbs, out, st, eoc, depth, cbb). cbs_len cbs)")
     (auto dest!: CBS_skip_shrinks [OF sym] CBS_get_any_ber_asn1_element_shrinks [OF sym]
        cbs_convert_ber_shrinks [OF _ sym])

declare cbs_convert_ber.simps [simp del]

definition CBS_asn1_ber_to_der :: "CBS \<Rightarrow> env \<Rightarrow> (bytes \<times> nat) option option \<times> CBS \<times> env" where
  "CBS_asn1_ber_to_der cbs e =
     (case cbs_find_ber cbs 0 of
        None \<Rightarrow> (None, cbs, e)
      | Some conversion_needed \<Rightarrow>
          if \<not> conversion_needed then (Some None, cbs, e)
          else case CBB_init (CBS_len cbs) e of
            (None, cbb) \<Rightarrow> (None, cbs, cbb_env cbb)
          | (Some _, cbb) \<Rightarrow>
              (case cbs_convert_ber cbs 0 0 False 0 cbb of
                 (ok, cbs', cbb1) \<Rightarrow>
                   if \<not> ok then (None, cbs', cbb_env cbb1)
                   else case CBB_finish 0 True cbb1 of
                     (None, cbb2) \<Rightarrow> (None, cbs', cbb_env cbb2)
                   | (Some der, cbb2) \<Rightarrow> (Some (Some der), cbs', cbb_env cbb2)))"

section \<open>Implicitly tagged strings\<close>

lemma CBS_get_any_asn1_element_shrinks:
  assumes "CBS_get_any_asn1_element cbs = (Some (contents, tag, header_len), cbs')"
  shows "cbs_len cbs' < cbs_len cbs"
  using assms
  by (auto simp: CBS_get_any_asn1_element_def cbs_get_any_asn1_element_def Let_def op_bind_def
      CBS_get_bytes_def cbs_get_def CBS_init_def split: prod.splits option.splits if_splits)

lemma CBS_get_asn1_shrinks: "CBS_get_asn1 tag cbs = (Some out, cbs') \<Longrightarrow> cbs_len cbs' < cbs_len cbs"
  by (auto simp: CBS_get_asn1_def cbs_get_asn1_def op_bind_def
      dest: CBS_get_any_asn1_element_shrinks split: option.splits prod.splits if_splits)

function implicit_string_loop :: "u32 \<Rightarrow> CBS \<Rightarrow> (CBB, unit) op" where
  "implicit_string_loop inner_tag child cbb =
     (if CBS_len child = 0 then (Some (), cbb)
      else case CBS_get_asn1 inner_tag child of
        (None, _) \<Rightarrow> (None, cbb)
      | (Some chunk, child') \<Rightarrow>
          (case CBB_add_bytes 0 (take (CBS_len chunk) (CBS_data chunk)) cbb of
             (None, cbb') \<Rightarrow> (None, cbb')
           | (Some _, cbb') \<Rightarrow> implicit_string_loop inner_tag child' cbb'))"
  by pat_completeness auto
termination
  by (relation "measure (\<lambda>(tag, child, cbb). cbs_len child)") (auto dest: CBS_get_asn1_shrinks [OF sym])

declare implicit_string_loop.simps [simp del]

text \<open>The result is \<open>*out\<close> and \<open>*out_storage\<close>.\<close>

definition CBS_get_asn1_implicit_string ::
  "u32 \<Rightarrow> u32 \<Rightarrow> CBS \<Rightarrow> env \<Rightarrow> (CBS \<times> bytes option) option \<times> CBS \<times> env" where
  "CBS_get_asn1_implicit_string outer_tag inner_tag cbs e =
     (if CBS_peek_asn1_tag cbs outer_tag
      then (case CBS_get_asn1 outer_tag cbs of (r, cbs') \<Rightarrow> (map_option (\<lambda>out. (out, None)) r, cbs', e))
      else case CBB_init (CBS_len cbs) e of
        (None, result) \<Rightarrow> (None, cbs, cbb_env result)
      | (Some _, result) \<Rightarrow>
          (case CBS_get_asn1 (outer_tag OR CBS_ASN1_CONSTRUCTED) cbs of
             (None, cbs') \<Rightarrow> (None, cbs', cbb_env result)
           | (Some child, cbs') \<Rightarrow>
               (case op_bind (implicit_string_loop inner_tag child) (\<lambda>_. CBB_finish 0 True) result of
                  (None, result') \<Rightarrow> (None, cbs', cbb_env result')
                | (Some (data, len), result') \<Rightarrow>
                    (Some (CBS_init data len, Some data), cbs', cbb_env result'))))"

section \<open>Ending an i2d function\<close>

text \<open>\<open>outp\<close>: \<open>NULL\<close>, a pointer to \<open>NULL\<close>, or a pointer to a position in the caller's block.\<close>

datatype i2d_out = NoOut | OutNull | OutAt bytes nat

definition CBB_finish_i2d :: "i2d_out \<Rightarrow> CBB \<Rightarrow> int \<times> i2d_out \<times> CBB" where
  "CBB_finish_i2d outp cbb =
     (case CBB_finish 0 True cbb of
        (None, cbb') \<Rightarrow> (- 1, outp, CBB_cleanup cbb')
      | (Some (der, n), cbb') \<Rightarrow>
          if n > INT_MAX then (- 1, outp, cbb')
          else (int n,
                (case outp of
                   NoOut \<Rightarrow> NoOut
                 | OutNull \<Rightarrow> OutAt der 0
                 | OutAt block i \<Rightarrow> OutAt (blit block i (take n der)) (i + n)),
                cbb'))"

section \<open>BER as trees\<close>

text \<open>
  The specification: a BER element is primitive or a node of a definite or indefinite length.
  \<open>ber_enc\<close> is its encoding, \<open>der_norm\<close> the DER encoding of the same value, in which a
  constructed string is one primitive string of the contents of all its fragments.
\<close>

datatype ber = Prim u8 bytes | Node u8 bool "ber list"

fun ber_enc :: "ber \<Rightarrow> bytes" where
  "ber_enc (Prim tag body) = der_tlv tag body"
| "ber_enc (Node tag indefinite ts) =
     (if indefinite then tag # 0x80 # concat (map ber_enc ts) @ [0, 0]
      else der_tlv tag (concat (map ber_enc ts)))"

fun str_norm :: "ber \<Rightarrow> bytes" where
  "str_norm (Prim tag body) = body"
| "str_norm (Node tag indefinite ts) = concat (map str_norm ts)"

fun der_norm :: "ber \<Rightarrow> bytes" where
  "der_norm (Prim tag body) = der_tlv tag body"
| "der_norm (Node tag indefinite ts) =
     (if is_string_type (ucast tag) then der_tlv (tag AND NOT 0x20) (concat (map str_norm ts))
      else der_tlv tag (concat (map der_norm ts)))"

definition child_tag :: "u8 option \<Rightarrow> u8 \<Rightarrow> u8 option" where
  "child_tag st tag =
     (if st = None \<and> is_string_type (ucast tag) then Some (tag AND NOT 0x20) else st)"

text \<open>\<open>st\<close> is the tag all fragments must have inside a constructed string.\<close>

fun ber_ok :: "u8 option \<Rightarrow> ber \<Rightarrow> bool" where
  "ber_ok st (Prim tag body) \<longleftrightarrow>
     low_tag tag \<and> tag AND 0x20 = 0 \<and> length body \<le> DER_MAX \<and> \<not> (tag = 0 \<and> body = []) \<and>
     (\<forall>s. st = Some s \<longrightarrow> tag = s)"
| "ber_ok st (Node tag indefinite ts) \<longleftrightarrow>
     low_tag tag \<and> tag AND 0x20 \<noteq> 0 \<and> (\<forall>s. st = Some s \<longrightarrow> tag AND NOT 0x20 = s) \<and>
     (\<not> indefinite \<longrightarrow> length (concat (map ber_enc ts)) \<le> DER_MAX) \<and>
     (\<forall>t\<in>set ts. ber_ok (child_tag st tag) t)"

lemma u8_low_mask:
  assumes "(tag :: u8) AND m = 0"
  shows "tag AND NOT m = tag"
proof (intro bit_word_eqI)
  fix n assume "n < LENGTH(8)"
  moreover have "\<not> (bit tag n \<and> bit m n)"
    using assms by (metis bit_0_eq bit_and_iff bot_apply bot_bool_def)
  ultimately show "bit (tag AND NOT m) n = bit tag n" by (auto simp: bit_simps)
qed

lemma ucast_clear: "ucast (tag AND NOT 0x20 :: u8) = (ucast tag AND NOT 0x20 :: u32)"
  by (intro bit_word_eqI) (auto simp: bit_simps dest: bit_imp_le_length)

lemma ucast_u32_u8 [simp]: "ucast (ucast (t :: u8) :: u32) = t"
  by (intro bit_word_eqI) (auto simp: bit_simps)

lemmas ucast_clears = ucast_clear ucast_clear [simplified]

lemma ucast_constructed: "(ucast (tag :: u8) :: u32) AND CBS_ASN1_CONSTRUCTED = 0 \<longleftrightarrow> tag AND 0x20 = 0"
proof -
  have "(ucast tag :: u32) AND CBS_ASN1_CONSTRUCTED = ucast (tag AND 0x20)"
    by (simp add: unsigned_and_eq)
  also have "\<dots> = 0 \<longleftrightarrow> tag AND 0x20 = 0" using ucast_u8_u32_inject [of "tag AND 0x20" 0] by simp
  finally show ?thesis .
qed

lemma u8_indefinite: "l AND 0x80 \<noteq> 0 \<and> unat (l AND 0x7f) = 0 \<longleftrightarrow> (l :: u8) = 0x80"
proof
  assume a: "l AND 0x80 \<noteq> 0 \<and> unat (l AND 0x7f) = 0"
  then have "unat l mod 128 = 0" "\<not> unat l < 128"
    using u8_and_7f [of l] u8_high_bit [of l] by (metis, blast)
  moreover have "unat l < 256" by simp
  ultimately have "unat l = 128" by presburger
  then show "l = 0x80" by (simp add: word_unat_eq_iff)
qed simp

lemma asn1_header_ber:
  "asn1_header True bs = Some (tag, hl, n) \<longleftrightarrow>
     asn1_header False bs = Some (tag, hl, n) \<or>
     (\<exists>rest. bs = tag # 0x80 # rest \<and> low_tag tag \<and> tag AND 0x20 \<noteq> 0 \<and> hl = 2 \<and> n = 2)"
proof -
  consider "bs = []" | b where "bs = [b]" | tag' l cs where "bs = tag' # l # cs"
    by (cases bs rule: remdups_adj.cases) auto
  then show ?thesis
  proof cases
    case 3
    show ?thesis
    proof (cases "l = 0x80")
      case True
      then show ?thesis by (auto simp: 3 low_tag_def Let_def)
    next
      case False
      then have "l AND 0x80 = 0 \<or> unat (l AND 0x7f) \<noteq> 0"
        unfolding u8_indefinite [symmetric] de_Morgan_conj not_not .
      then have "asn1_header True bs = asn1_header False bs"
      proof
        assume "l AND 0x80 = 0"
        then show ?thesis by (simp only: 3 asn1_header.simps Let_def if_True simp_thms)
      next
        assume "unat (l AND 0x7f) \<noteq> 0"
        then show ?thesis unfolding 3 asn1_header.simps Let_def by (simp only: simp_thms)
      qed
      moreover have "\<not> (\<exists>rest. bs = tag # 0x80 # rest \<and> low_tag tag \<and> tag AND 0x20 \<noteq> 0 \<and> hl = 2 \<and> n = 2)"
        using False 3 by simp
      ultimately show ?thesis by (simp only: simp_thms)
    qed
  qed simp_all
qed

text \<open>What the reader delivers to the converter: an element of definite length, or the two header
  bytes of one of indefinite length.\<close>

lemma ber_element_cases:
  assumes "CBS_get_any_ber_asn1_element (CBS_of bs t) = (Some (contents, v, hl), cbs')"
  obtains (definite) tag body rest where "bs = der_tlv tag body @ rest" "low_tag tag" "length body \<le> DER_MAX"
      "v = ucast tag" "cbs' = CBS_of rest t" "contents = CBS_of (der_tlv tag body) (rest @ t)"
      "hl = 1 + length (der_len (length body))"
    | (indefinite) tag rest where "bs = tag # 0x80 # rest" "low_tag tag" "tag AND 0x20 \<noteq> 0"
      "v = ucast tag" "cbs' = CBS_of rest t" "contents = CBS_of [tag, 0x80] (rest @ t)" "hl = 2"
proof -
  from assms obtain tag n where h: "asn1_header True bs = Some (tag, hl, n)" "n \<le> length bs"
      "v = ucast tag" "cbs' = CBS_of (drop n bs) t" "contents = CBS_of (take n bs) (drop n bs @ t)"
    by (auto simp: CBS_get_any_ber_asn1_element_def view_simps split: option.splits if_splits)
  from h(1) show ?thesis
    unfolding asn1_header_ber
  proof
    assume "asn1_header False bs = Some (tag, hl, n)"
    from asn1_header_sound [OF this h(2)] obtain body rest where
      "bs = der_tlv tag body @ rest" "low_tag tag" "length body \<le> DER_MAX"
      "n = length (der_tlv tag body)" "hl = 1 + length (der_len (length body))" by blast
    then show ?thesis using h(3-5) by (intro definite) simp_all
  next
    assume "\<exists>rest. bs = tag # 0x80 # rest \<and> low_tag tag \<and> tag AND 0x20 \<noteq> 0 \<and> hl = 2 \<and> n = 2"
    then show ?thesis using h(3-5) by (auto intro: indefinite)
  qed
qed

lemma is_indefinite_definite:
  "hl = 1 + length (der_len (length body)) \<Longrightarrow> \<not> is_indefinite (CBS_of (der_tlv tag body) t) hl"
  by (cases "body = []") (auto simp: is_indefinite_def der_tlv_def der_len_def)

lemma is_eoc_definite:
  "hl = 1 + length (der_len (length body)) \<Longrightarrow>
     is_eoc hl (CBS_of (der_tlv tag body) t) \<longleftrightarrow> tag = 0 \<and> body = []"
  by (cases "body = []") (auto simp: is_eoc_def der_tlv_def der_len_def)

lemma is_indefinite_indefinite: "is_indefinite (CBS_of [tag, 0x80] t) 2"
  by (simp add: is_indefinite_def)

lemma is_eoc_indefinite: "\<not> is_eoc 2 (CBS_of [tag, 0x80] t)"
  by (simp add: is_eoc_def)

section \<open>The converter produces the normal form\<close>

definition st_word :: "u8 option \<Rightarrow> u32" where
  "st_word st = (case st of None \<Rightarrow> 0 | Some s \<Rightarrow> ucast s)"

definition norm_in :: "u8 option \<Rightarrow> ber \<Rightarrow> bytes" where
  "norm_in st = (if st = None then der_norm else str_norm)"

lemma st_word_0 [simp]: "st \<noteq> Some 0 \<Longrightarrow> st_word st = 0 \<longleftrightarrow> st = None"
  using ucast_u8_u32_inject [of _ 0] by (auto simp: st_word_def split: option.splits)

lemma string_type_clear:
  assumes "is_string_type (ucast (tag :: u8))"
  shows "tag AND NOT 0x20 \<noteq> 0"
proof
  assume z: "tag AND NOT 0x20 = 0"
  have "(ucast tag AND NOT 0x20) AND 0x1f = (ucast tag :: u32) AND 0x1f"
    by (simp add: and.assoc)
  moreover have "(ucast tag AND NOT 0x20 :: u32) = 0"
    unfolding ucast_clear [symmetric] z by simp
  ultimately have "(ucast tag :: u32) AND 0x1f = 0" by simp
  then show False using assms by (simp add: is_string_type_def split: if_splits)
qed

lemma child_tag_nonzero: "st \<noteq> Some 0 \<Longrightarrow> child_tag st tag \<noteq> Some 0"
  by (auto simp: child_tag_def dest: string_type_clear)

text \<open>The tag an element is written with when it is not a fragment of a string.\<close>

definition out_tag :: "u8 \<Rightarrow> u8" where
  "out_tag tag = (if tag AND 0x20 \<noteq> 0 \<and> is_string_type (ucast tag) then tag AND NOT 0x20 else tag)"

lemma cbs_convert_open_sound:
  assumes "cbs_convert_open out (st_word st) (ucast (tag :: u8)) cbb = (Some (oc, cw), cbb1)"
    "cbb_represents cbb g" "length (snd g) = out" "st \<noteq> Some 0"
  obtains g1 where "cbb_represents cbb1 g1" "length (snd g1) = oc" "\<And>s. st = Some s \<Longrightarrow> tag AND NOT 0x20 = s"
    "tag AND 0x20 \<noteq> 0 \<Longrightarrow> cw = st_word (child_tag st tag)"
    "\<And>xs cbb2 cbb3 x. cbb_represents cbb2 (append_inner g1 xs) \<Longrightarrow> CBB_flush out cbb2 = (Some x, cbb3) \<Longrightarrow>
       cbb_represents cbb3 (append_inner g (if st = None then der_tlv (out_tag tag) xs else xs))"
proof (cases st)
  case (Some s)
  then have s: "s \<noteq> 0" "st_word st \<noteq> 0" using assms(4) st_word_0 [OF assms(4)] by simp_all
  then have r: "oc = out" "cw = st_word st" "cbb1 = cbb" "ucast (tag AND NOT 0x20) = st_word st"
    using assms(1) by (auto simp: cbs_convert_open_def ucast_clears split: if_splits)
  show ?thesis
  proof (rule that [of g])
    show "tag AND NOT 0x20 = s'" if "st = Some s'" for s'
      using r(4) that ucast_u8_u32_inject by (simp add: st_word_def)
    show "cw = st_word (child_tag st tag)" using r(2) Some by (simp add: child_tag_def)
    show "cbb_represents cbb3 (append_inner g (if st = None then der_tlv (out_tag tag) xs else xs))"
      if "cbb_represents cbb2 (append_inner g xs)" "CBB_flush out cbb2 = (Some x, cbb3)" for xs cbb2 cbb3 x
      using CBB_flush_implements [OF that] close_at_self [of "append_inner g xs" out] assms(3) Some
      by (simp add: implements_def)
  qed (use r assms in simp_all)
next
  case None
  let ?t = "out_tag tag"
  have ot: "ucast ?t = (if ucast tag AND CBS_ASN1_CONSTRUCTED \<noteq> 0 \<and> is_string_type (ucast tag)
      then ucast tag AND NOT CBS_ASN1_CONSTRUCTED else (ucast tag :: u32))"
    by (simp add: out_tag_def ucast_clears ucast_constructed)
  obtain r cbb0 where add: "CBB_add_asn1 out (ucast ?t) cbb = (r, cbb0)" by fastforce
  have r: "r \<noteq> None" "oc = out + 1" "cbb1 = cbb0"
    "tag AND 0x20 \<noteq> 0 \<Longrightarrow> cw = st_word (child_tag st tag)"
    using assms(1) None add [unfolded ot]
    by (auto simp: cbs_convert_open_def st_word_def child_tag_def op_bind_def ucast_clears ucast_constructed Let_def
        split: option.splits if_splits)
  have I: "implements out cbb (if valid_tag (ucast ?t) then open_spec out [?t] Asn1Prefix g else None) True cbb1"
    using CBB_add_asn1_implements [OF assms(2) add] r unfolding ucast_u32_u8 by simp
  let ?g1 = "open_child Asn1Prefix (append_inner g [?t])"
  have g1: "cbb_represents cbb1 ?g1"
    using I close_at_self [OF assms(3)] by (auto simp: implements_def open_spec_def split: if_splits)
  show ?thesis
  proof (rule that [OF g1])
    show "length (snd ?g1) = oc" using assms(3) r(2) by (simp add: open_child_def split_beta)
    show "cbb_represents cbb3 (append_inner g (if st = None then der_tlv ?t xs else xs))"
      if "cbb_represents cbb2 (append_inner ?g1 xs)" "CBB_flush out cbb2 = (Some x, cbb3)" for xs cbb2 cbb3 x
    proof -
      have "close_at out (append_inner ?g1 xs) = map_option (append_inner (append_inner g [?t])) (encode_prefix Asn1Prefix xs)"
        by (rule close_at_open_append) (simp add: assms(3))
      then show ?thesis
        using CBB_flush_implements [OF that] None
        by (auto simp: implements_def append_inner_append der_tlv_def split: if_splits)
    qed
  qed (use None r(4) in simp_all)
qed

text \<open>
  The invariant of the recursion: what was consumed is the encoding of a forest of elements
  (followed by an end-of-contents marker if one was looked for), and the normal forms of
  its elements were appended to the writer.
\<close>

definition converted ::
  "bytes \<Rightarrow> bytes \<Rightarrow> u8 option \<Rightarrow> bool \<Rightarrow> builder \<Rightarrow> CBS \<Rightarrow> CBB \<Rightarrow> bool" where
  "converted bs t st eoc g cbs' cbb' \<longleftrightarrow>
     (\<exists>ts rest. bs = concat (map ber_enc ts) @ (if eoc then [0, 0] else []) @ rest \<and>
        (\<not> eoc \<longrightarrow> rest = []) \<and> cbs' = CBS_of rest t \<and> (\<forall>t\<in>set ts. ber_ok st t) \<and>
        cbb_represents cbb' (append_inner g (concat (map (norm_in st) ts))))"

lemma converted_Cons:
  assumes "converted bs' t st eoc (append_inner g (norm_in st b)) cbs' cbb'" "ber_ok st b"
  shows "converted (ber_enc b @ bs') t st eoc g cbs' cbb'"
proof -
  obtain ts rest where c: "bs' = concat (map ber_enc ts) @ (if eoc then [0, 0] else []) @ rest" "\<not> eoc \<longrightarrow> rest = []"
      "cbs' = CBS_of rest t" "\<forall>t\<in>set ts. ber_ok st t"
      "cbb_represents cbb' (append_inner (append_inner g (norm_in st b)) (concat (map (norm_in st) ts)))"
    using assms(1) unfolding converted_def by blast
  then show ?thesis
    unfolding converted_def using assms(2)
    by (intro exI [of _ "b # ts"] exI [of _ rest]) (simp add: append_inner_append)
qed

text \<open>The normal form of a node from those of its children, in both contexts.\<close>

lemma norm_in_Node:
  "tag AND 0x20 \<noteq> 0 \<Longrightarrow> norm_in st (Node tag i ts) =
     (let xs = concat (map (norm_in (child_tag st tag)) ts) in if st = None then der_tlv (out_tag tag) xs else xs)"
  by (auto simp: norm_in_def child_tag_def out_tag_def Let_def)

lemma norm_in_Prim:
  "tag AND 0x20 = 0 \<Longrightarrow> norm_in st (Prim tag body) = (if st = None then der_tlv (out_tag tag) body else body)"
  by (simp add: norm_in_def out_tag_def)

lemma cbs_convert_ber_sound:
  assumes "cbs_convert_ber (CBS_of bs t) out (st_word st) eoc depth cbb = (True, cbs', cbb')"
    "cbb_represents cbb g" "length (snd g) = out" "st \<noteq> Some 0" "length bs \<le> SIZE_MAX"
  shows "converted bs t st eoc g cbs' cbb'"
  using assms
proof (induction "length bs" arbitrary: bs t out st eoc depth cbb g cbs' cbb' rule: less_induct)
  case less
  note IH = less.hyps and run = less.prems(1) [unfolded cbs_convert_ber.simps [of "CBS_of bs t"]] and pre = less.prems(2-5)
  have dep: "\<not> kMaxDepth < depth" using run by (rule_tac ccontr) simp
  show ?case
  proof (cases "bs = []")
    case True
    then have "\<not> eoc" "cbs' = CBS_of [] t" "cbb' = cbb" using run by (auto split: if_splits)
    then show ?thesis unfolding converted_def using True pre by (intro exI [of _ "[]"]) simp
  next
    case False
    obtain contents v hl cbs1 where elem: "CBS_get_any_ber_asn1_element (CBS_of bs t) = (Some (contents, v, hl), cbs1)"
      using run False by (auto split: if_splits prod.splits option.splits)
    note run1 = run [unfolded elem]
    from elem show ?thesis
    proof (cases rule: ber_element_cases)
      case (indefinite tag rest)
      have neoc: "\<not> is_eoc hl contents" "is_indefinite contents hl"
        using indefinite is_eoc_indefinite is_indefinite_indefinite by simp_all
      obtain oc cw cbb1 where op: "cbs_convert_open out (st_word st) (ucast tag) cbb = (Some (oc, cw), cbb1)"
        using run1 False neoc indefinite by (auto split: if_splits prod.splits option.splits)
      from cbs_convert_open_sound [OF op pre(1-3)] obtain g1 where
        g1: "cbb_represents cbb1 g1" "length (snd g1) = oc" "\<And>s. st = Some s \<Longrightarrow> tag AND NOT 0x20 = s"
        "cw = st_word (child_tag st tag)"
        "\<And>xs cbb2 cbb3 x. cbb_represents cbb2 (append_inner g1 xs) \<Longrightarrow> CBB_flush out cbb2 = (Some x, cbb3) \<Longrightarrow>
           cbb_represents cbb3 (append_inner g (if st = None then der_tlv (out_tag tag) xs else xs))"
        using indefinite(3) by metis
      obtain cbs2 cbb2 cbb3 where inner: "cbs_convert_ber cbs1 oc cw True (depth + 1) cbb1 = (True, cbs2, cbb2)"
        "CBB_flush out cbb2 = (Some (), cbb3)"
        "cbs_convert_ber cbs2 out (st_word st) eoc depth cbb3 = (True, cbs', cbb')"
        using run1 False neoc indefinite op by (auto split: if_splits prod.splits option.splits)
      have "converted rest t (child_tag st tag) True g1 cbs2 cbb2"
        by (rule IH [OF _ _ g1(1,2)])
           (use inner(1) g1(4) indefinite pre child_tag_nonzero in auto)
      then obtain ts rest2 where c: "rest = concat (map ber_enc ts) @ [0, 0] @ rest2" "cbs2 = CBS_of rest2 t"
          "\<forall>t\<in>set ts. ber_ok (child_tag st tag) t"
          "cbb_represents cbb2 (append_inner g1 (concat (map (norm_in (child_tag st tag)) ts)))"
        unfolding converted_def by auto
      let ?b = "Node tag True ts"
      have rep: "cbb_represents cbb3 (append_inner g (norm_in st ?b))"
        using g1(5) [OF c(4) inner(2)] norm_in_Node [OF indefinite(3)] by (simp add: Let_def)
      have "converted rest2 t st eoc (append_inner g (norm_in st ?b)) cbs' cbb'"
        by (rule IH [OF _ inner(3) [unfolded c(2)] rep])
           (use pre indefinite(1) c(1) in simp_all)
      moreover have "ber_ok st ?b" using indefinite g1(3) c(3) by simp
      moreover have "bs = ber_enc ?b @ rest2" using indefinite(1) c(1) by simp
      ultimately show ?thesis using converted_Cons by metis
    next
      case (definite tag body rest)
      have nind: "\<not> is_indefinite contents hl"
        and eoc_iff: "is_eoc hl contents \<longleftrightarrow> tag = 0 \<and> body = []"
        using definite is_indefinite_definite is_eoc_definite by simp_all
      have sk: "CBS_skip hl contents = (Some (), CBS_of body (rest @ t))"
        using drop_der_header [of body tag] definite by (simp add: CBS_skip_of length_der_tlv)
      have body_len: "length body < length bs" "length rest < length bs"
        using definite(1) by (simp_all add: length_der_tlv)
      show ?thesis
      proof (cases "is_eoc hl contents")
        case True
        then have "eoc" "cbs' = CBS_of rest t" "cbb' = cbb" "bs = [0, 0] @ rest"
          using run1 False definite(1,5) eoc_iff by (auto simp: der_tlv_def der_len_def split: if_splits)
        then show ?thesis unfolding converted_def using pre by (intro exI [of _ "[]"] exI [of _ rest]) simp
      next
        case neoc: False
        obtain oc cw cbb1 where op: "cbs_convert_open out (st_word st) (ucast tag) cbb = (Some (oc, cw), cbb1)"
          using run1 False neoc definite by (auto split: if_splits prod.splits option.splits)
        from cbs_convert_open_sound [OF op pre(1-3)] obtain g1 where
          g1: "cbb_represents cbb1 g1" "length (snd g1) = oc" "\<And>s. st = Some s \<Longrightarrow> tag AND NOT 0x20 = s"
          "tag AND 0x20 \<noteq> 0 \<Longrightarrow> cw = st_word (child_tag st tag)"
          "\<And>xs cbb2 cbb3 x. cbb_represents cbb2 (append_inner g1 xs) \<Longrightarrow> CBB_flush out cbb2 = (Some x, cbb3) \<Longrightarrow>
             cbb_represents cbb3 (append_inner g (if st = None then der_tlv (out_tag tag) xs else xs))"
          by metis
        obtain cbb2 cbb3 where step:
          "(if tag AND 0x20 \<noteq> 0
            then \<exists>cbs2. cbs_convert_ber (CBS_of body (rest @ t)) oc cw False (depth + 1) cbb1 = (True, cbs2, cbb2)
            else CBB_add_bytes oc body cbb1 = (Some (), cbb2))"
          "CBB_flush out cbb2 = (Some (), cbb3)"
          "cbs_convert_ber (CBS_of rest t) out (st_word st) eoc depth cbb3 = (True, cbs', cbb')"
        proof -
          define body_step where "body_step = (if tag AND 0x20 \<noteq> 0
            then (case cbs_convert_ber (CBS_of body (rest @ t)) oc cw False (depth + 1) cbb1 of
                    (ok, _, cbb2) \<Rightarrow> (if ok then Some () else None, cbb2))
            else CBB_add_bytes oc (take (CBS_len (CBS_of body (rest @ t))) (CBS_data (CBS_of body (rest @ t)))) cbb1)"
          have "(case body_step of
                   (None, cbb2) \<Rightarrow> (False, CBS_of rest t, cbb2)
                 | (Some _, cbb2) \<Rightarrow> (case CBB_flush out cbb2 of
                      (None, cbb3) \<Rightarrow> (False, CBS_of rest t, cbb3)
                    | (Some _, cbb3) \<Rightarrow> cbs_convert_ber (CBS_of rest t) out (st_word st) eoc depth cbb3)) =
              (True, cbs', cbb')"
            using run1 dep False neoc nind definite(4,5) op sk by (simp add: ucast_constructed body_step_def)
          then obtain cbb2 cbb3 where "body_step = (Some (), cbb2)" "CBB_flush out cbb2 = (Some (), cbb3)"
            "cbs_convert_ber (CBS_of rest t) out (st_word st) eoc depth cbb3 = (True, cbs', cbb')"
            by (auto split: prod.splits option.splits)
          then show ?thesis
            by (intro that [of cbb2 cbb3]) (auto simp: body_step_def split: prod.splits if_splits)
        qed
        have "\<exists>b. bs = ber_enc b @ rest \<and> ber_ok st b \<and> cbb_represents cbb3 (append_inner g (norm_in st b))"
        proof (cases "tag AND 0x20 \<noteq> 0")
          case constructed: True
          then obtain cbs2 where inner:
            "cbs_convert_ber (CBS_of body (rest @ t)) oc cw False (depth + 1) cbb1 = (True, cbs2, cbb2)"
            using step(1) by auto
          have "converted body (rest @ t) (child_tag st tag) False g1 cbs2 cbb2"
            by (rule IH [OF body_len(1) _ g1(1,2)])
               (use inner g1(4) constructed pre child_tag_nonzero body_len in auto)
          then obtain ts where c: "body = concat (map ber_enc ts)" "\<forall>t\<in>set ts. ber_ok (child_tag st tag) t"
              "cbb_represents cbb2 (append_inner g1 (concat (map (norm_in (child_tag st tag)) ts)))"
            unfolding converted_def by auto
          show ?thesis
          proof (intro exI [of _ "Node tag False ts"] conjI)
            show "cbb_represents cbb3 (append_inner g (norm_in st (Node tag False ts)))"
              using g1(5) [OF c(3) step(2)] norm_in_Node [OF constructed] by (simp add: Let_def)
          qed (use definite c g1(3) constructed in simp_all)
        next
          case prim: False
          have "cbb_represents cbb2 (append_inner g1 body)"
            using step(1) prim CBB_add_bytes_implements [OF g1(1), of body oc] pre body_len
              close_at_self [OF g1(2)]
            by (auto simp: implements_def add_spec_def)
          from g1(5) [OF this step(2)] show ?thesis
            using prim definite g1(3) neoc eoc_iff norm_in_Prim [of tag st body] u8_low_mask [of tag "0x20"]
            by (intro exI [of _ "Prim tag body"]) auto
        qed
        then obtain b where b: "bs = ber_enc b @ rest" "ber_ok st b"
            "cbb_represents cbb3 (append_inner g (norm_in st b))" by blast
        have "converted rest t st eoc (append_inner g (norm_in st b)) cbs' cbb'"
          by (rule IH [OF body_len(2) step(3) b(3)]) (use pre body_len in simp_all)
        then show ?thesis using converted_Cons b by metis
      qed
    qed
  qed
qed

section \<open>Normal forms\<close>

fun has_ber :: "ber \<Rightarrow> bool" where
  "has_ber (Prim tag body) \<longleftrightarrow> False"
| "has_ber (Node tag indefinite ts) \<longleftrightarrow>
     indefinite \<or> is_string_type (ucast tag) \<or> (\<exists>t\<in>set ts. has_ber t)"

fun norm_tree :: "ber \<Rightarrow> ber" where
  "norm_tree (Prim tag body) = Prim tag body"
| "norm_tree (Node tag indefinite ts) =
     (if is_string_type (ucast tag) then Prim (tag AND NOT 0x20) (concat (map str_norm ts))
      else Node tag False (map norm_tree ts))"

lemma der_norm_tree: "der_norm t = ber_enc (norm_tree t)" "\<not> has_ber (norm_tree t)"
  by (induction t rule: norm_tree.induct) (auto simp: comp_def cong: map_cong)

fun ber_depth :: "ber \<Rightarrow> nat" where
  "ber_depth (Prim tag body) = 0"
| "ber_depth (Node tag indefinite ts) = Suc (foldr max (map ber_depth ts) 0)"

lemma ber_depth_le: "b \<in> set ts \<Longrightarrow> ber_depth b \<le> foldr max (map ber_depth ts) 0"
  by (induction ts) auto

lemma read_definite:
  assumes "low_tag tag" "length body \<le> DER_MAX"
  shows "CBS_get_any_ber_asn1_element (CBS_of (der_tlv tag body @ rest) t) =
    (Some (CBS_of (der_tlv tag body) (rest @ t), ucast tag, 1 + length (der_len (length body))), CBS_of rest t)"
  using assms by (simp add: CBS_get_any_ber_asn1_element_def view_simps asn1_header_der)

lemma cbs_find_ber_loop_der:
  "\<forall>b\<in>set ts. ber_ok None b \<and> \<not> has_ber b \<and> depth + ber_depth b \<le> kMaxDepth \<Longrightarrow>
     cbs_find_ber_loop depth (CBS_of (concat (map ber_enc ts)) t) False = Some False"
proof (induction "length (concat (map ber_enc ts))" arbitrary: ts t depth rule: less_induct)
  case less
  note IH = less.hyps
  show ?case
  proof (cases ts)
    case Nil
    then show ?thesis by (simp add: cbs_find_ber_loop.simps)
  next
    case (Cons b bs)
    let ?rest = "concat (map ber_enc bs)"
    have b: "ber_ok None b" "\<not> has_ber b" "depth + ber_depth b \<le> kMaxDepth"
      using less.prems Cons by simp_all
    obtain tag body where tlv: "ber_enc b = der_tlv tag body" "low_tag tag" "length body \<le> DER_MAX"
        "tag AND 0x20 \<noteq> 0 \<Longrightarrow> \<not> is_string_type (ucast tag) \<and> (\<exists>us. body = concat (map ber_enc us) \<and>
           (\<forall>u\<in>set us. ber_ok None u \<and> \<not> has_ber u \<and> depth + 1 + ber_depth u \<le> kMaxDepth) \<and> depth + 1 \<le> kMaxDepth)"
    proof (cases b)
      case (Prim tag body)
      then show ?thesis using b that [of tag body] by simp
    next
      case (Node tag i us)
      have "\<forall>u\<in>set us. depth + 1 + ber_depth u \<le> kMaxDepth"
        using b(3) ber_depth_le [of _ us] Node by fastforce
      then show ?thesis
        using b Node by (intro that [of tag "concat (map ber_enc us)"]) (auto simp: child_tag_def)
    qed
    let ?hl = "1 + length (der_len (length body))"
    have short: "length ?rest < length (concat (map ber_enc ts))" "length body < length (concat (map ber_enc ts))"
      using tlv(1) by (simp_all add: Cons length_der_tlv)
    have rest: "cbs_find_ber_loop depth (CBS_of ?rest t) False = Some False"
      by (rule IH [OF short(1)]) (use less.prems Cons in simp)
    have inner: "cbs_find_ber_loop (depth + 1) (CBS_of body (?rest @ t)) False = Some False" "depth + 1 \<le> kMaxDepth"
      if con: "tag AND 0x20 \<noteq> 0"
    proof -
      obtain us where us: "body = concat (map ber_enc us)"
        "\<forall>u\<in>set us. ber_ok None u \<and> \<not> has_ber u \<and> depth + 1 + ber_depth u \<le> kMaxDepth" "depth + 1 \<le> kMaxDepth"
        using tlv(4) [OF con] by blast
      show "cbs_find_ber_loop (depth + 1) (CBS_of body (?rest @ t)) False = Some False"
        unfolding us(1) by (rule IH) (use us short(2) in auto)
      show "depth + 1 \<le> kMaxDepth" by (rule us(3))
    qed
    have "CBS_skip ?hl (CBS_of (der_tlv tag body) (?rest @ t)) = (Some (), CBS_of body (?rest @ t))"
      using drop_der_header [of body tag] by (simp add: CBS_skip_of length_der_tlv)
    then show ?thesis
      using rest inner tlv(4) is_indefinite_definite [of ?hl body tag]
      by (cases "tag AND 0x20 = 0") (simp_all add: cbs_find_ber_loop.simps [of depth "CBS_of (der_tlv tag body @ ?rest) t"] Cons tlv(1)
          read_definite [OF tlv(2,3)] ucast_constructed length_der_tlv)
  qed
qed

section \<open>Correctness of the converter\<close>


definition ber_sample :: bytes where
  "ber_sample = [0x24, 0x80, 4, 1, 7, 4, 2, 8, 9, 0, 0]"


text \<open>C9: DER is left alone. On the encoding of a forest without BER constructs, nested at most
  \<open>kMaxDepth\<close> deep, the function succeeds, reports that no conversion is needed, allocates
  nothing and does not move the input.\<close>

theorem CBS_asn1_ber_to_der_der:
  assumes "\<forall>b\<in>set ts. ber_ok None b \<and> \<not> has_ber b \<and> ber_depth b \<le> 2048"
  shows "CBS_asn1_ber_to_der (CBS_of (concat (map ber_enc ts)) t) e =
    (Some None, CBS_of (concat (map ber_enc ts)) t, e)"
  using cbs_find_ber_loop_der [of ts 0 t] assms
  by (simp add: CBS_asn1_ber_to_der_def cbs_find_ber_def kMaxDepth_def)

lemma CBS_asn1_ber_to_der_der_witness:
  "CBS_asn1_ber_to_der (CBS_of [0x30, 3, 4, 1, 7] []) plain_env = (Some None, CBS_of [0x30, 3, 4, 1, 7] [], plain_env)"
  using CBS_asn1_ber_to_der_der [of "[Node 0x30 False [Prim 4 [7]]]" "[]" plain_env]
  by (simp add: is_string_type_def low_tag_def der_tlv_def der_len_def child_tag_def)

definition ber_missed :: ber where
  "ber_missed = Node 0x30 False [Node 0x30 False [Node 0x24 True []], Node 0x30 False []]"


end
