(* ===== verification/Base64.thy ===== *)
theory Base64
  imports Prelude
begin

text \<open>
  The base64 encoder and decoder of \<open>crypto/base64/base64.c\<close>. An output pointer is a block of
  the caller's memory and an index; a write is \<open>blit\<close>, so a write behind the end of the
  block would make the block longer, and the theorems show that this does not happen in a
  block of the documented size. An input pointer is the list of the bytes from it on.
\<close>

section \<open>State and tables\<close>

record EVP_ENCODE_CTX =
  data_used :: nat
  enc_data :: bytes
  eof_seen :: bool
  error_encountered :: bool

definition ascii :: "string \<Rightarrow> bytes" where
  "ascii = map of_char"

definition data_bin2ascii :: bytes where
  "data_bin2ascii = ascii ''ABCDEFGHIJKLMNOPQRSTUVWXYZabcdefghijklmnopqrstuvwxyz0123456789+/''"

definition conv_bin2ascii :: "u32 \<Rightarrow> u8" where
  "conv_bin2ascii a = data_bin2ascii ! unat (a AND 0x3f)"

definition kBase64ASCIIToBinData :: bytes where
  "kBase64ASCIIToBinData = [
    0xff, 0xff, 0xff, 0xff, 0xff, 0xff, 0xff, 0xff, 0xff, 0xe0, 0xff, 0xff,
    0xff, 0xff, 0xff, 0xff, 0xff, 0xff, 0xff, 0xff, 0xff, 0xff, 0xff, 0xff,
    0xff, 0xff, 0xff, 0xff, 0xff, 0xff, 0xff, 0xff, 0xe0, 0xff, 0xff, 0xff,
    0xff, 0xff, 0xff, 0xff, 0xff, 0xff, 0xff, 0x3e, 0xff, 0xff, 0xff, 0x3f,
    0x34, 0x35, 0x36, 0x37, 0x38, 0x39, 0x3a, 0x3b, 0x3c, 0x3d, 0xff, 0xff,
    0xff, 0x00, 0xff, 0xff, 0xff, 0x00, 0x01, 0x02, 0x03, 0x04, 0x05, 0x06,
    0x07, 0x08, 0x09, 0x0a, 0x0b, 0x0c, 0x0d, 0x0e, 0x0f, 0x10, 0x11, 0x12,
    0x13, 0x14, 0x15, 0x16, 0x17, 0x18, 0x19, 0xff, 0xff, 0xff, 0xff, 0xff,
    0xff, 0x1a, 0x1b, 0x1c, 0x1d, 0x1e, 0x1f, 0x20, 0x21, 0x22, 0x23, 0x24,
    0x25, 0x26, 0x27, 0x28, 0x29, 0x2a, 0x2b, 0x2c, 0x2d, 0x2e, 0x2f, 0x30,
    0x31, 0x32, 0x33, 0xff, 0xff, 0xff, 0xff, 0xff]"

definition base64_ascii_to_bin :: "u8 \<Rightarrow> u8" where
  "base64_ascii_to_bin a = (if a \<ge> 128 then 0xff else kBase64ASCIIToBinData ! unat a)"

abbreviation PAD :: u8 where "PAD \<equiv> 0x3d"
abbreviation NEWLINE :: u8 where "NEWLINE \<equiv> 0x0a"

section \<open>Encoding\<close>

text \<open>\<open>size_t\<close> shifts: \<open>(len << 2) >> 2\<close> loses the two high bits.\<close>

definition EVP_EncodedLength :: "nat \<Rightarrow> nat option" where
  "EVP_EncodedLength len =
     (if size_add len 2 < len then None
      else let len = size_add len 2 div 3 in
        if (len * 4) mod 2 ^ 64 div 4 \<noteq> len then None
        else let len = (len * 4) mod 2 ^ 64 in
          if size_add len 1 < len then None else Some (size_add len 1))"

function encode_loop :: "bytes \<Rightarrow> nat \<Rightarrow> bytes \<Rightarrow> nat \<Rightarrow> nat \<Rightarrow> bytes \<times> nat \<times> nat" where
  "encode_loop out dst src remaining ret =
     (if remaining = 0 then (out, dst, ret)
      else if remaining \<ge> 3 then
        let l = push_bit 16 (ucast (src ! 0)) OR push_bit 8 (ucast (src ! 1)) OR ucast (src ! 2) in
        encode_loop
          (blit out dst [conv_bin2ascii (drop_bit 18 l), conv_bin2ascii (drop_bit 12 l),
                         conv_bin2ascii (drop_bit 6 l), conv_bin2ascii l])
          (dst + 4) (drop 3 src) (remaining - 3) (ret + 4)
      else
        let l = push_bit 16 (ucast (src ! 0)) OR
                (if remaining = 2 then push_bit 8 (ucast (src ! 1)) else 0) in
        encode_loop
          (blit out dst [conv_bin2ascii (drop_bit 18 l), conv_bin2ascii (drop_bit 12 l),
                         if remaining = 1 then PAD else conv_bin2ascii (drop_bit 6 l), PAD])
          (dst + 4) (drop 3 src) 0 (ret + 4))"
  by pat_completeness auto
termination by (relation "measure (\<lambda>(out, dst, src, remaining, ret). remaining)") auto

declare encode_loop.simps [simp del]

definition EVP_EncodeBlock :: "bytes \<Rightarrow> nat \<Rightarrow> bytes \<Rightarrow> nat \<Rightarrow> bytes \<times> nat" where
  "EVP_EncodeBlock out dst src src_len =
     (case encode_loop out dst src src_len 0 of
        (out', dst', ret) \<Rightarrow> (blit out' dst' [0], ret))"

definition EVP_EncodeInit :: EVP_ENCODE_CTX where
  "EVP_EncodeInit =
     \<lparr>data_used = 0, enc_data = replicate 48 0, eof_seen = False, error_encountered = False\<rparr>"

text \<open>One line: the block, a newline and a terminator. The result is the block, \<open>out\<close> and \<open>encoded\<close>.\<close>

definition encode_line :: "bytes \<Rightarrow> nat \<Rightarrow> bytes \<Rightarrow> nat \<Rightarrow> bytes \<times> nat \<times> nat" where
  "encode_line out dst src n =
     (case EVP_EncodeBlock out dst src n of
        (out', encoded) \<Rightarrow>
          (blit (blit out' (dst + encoded) [NEWLINE]) (dst + encoded + 1) [0], dst + encoded + 1, encoded))"

function encode_lines ::
  "bytes \<Rightarrow> nat \<Rightarrow> bytes \<Rightarrow> nat \<Rightarrow> nat \<Rightarrow> bytes \<times> nat \<times> bytes \<times> nat \<times> nat option" where
  "encode_lines out dst inp in_len tot =
     (if in_len \<ge> 48 then
        (case encode_line out dst inp 48 of
           (out', dst', encoded) \<Rightarrow>
             if size_add tot (encoded + 1) < tot then (out', dst', drop 48 inp, in_len - 48, None)
             else encode_lines out' dst' (drop 48 inp) (in_len - 48) (size_add tot (encoded + 1)))
      else (out, dst, inp, in_len, Some tot))"
  by pat_completeness auto
termination by (relation "measure (\<lambda>(out, dst, inp, in_len, tot). in_len)") auto

declare encode_lines.simps [simp del]

definition EVP_EncodeUpdate ::
  "EVP_ENCODE_CTX \<Rightarrow> bytes \<Rightarrow> bytes \<Rightarrow> nat \<Rightarrow> EVP_ENCODE_CTX \<times> bytes \<times> nat" where
  "EVP_EncodeUpdate ctx out inp in_len =
     (if in_len = 0 then (ctx, out, 0)
      else if 48 - data_used ctx > in_len then
        (ctx\<lparr>enc_data := blit (enc_data ctx) (data_used ctx) (take in_len inp),
             data_used := data_used ctx + in_len\<rparr>, out, 0)
      else
        case (if data_used ctx \<noteq> 0 then
                let todo = 48 - data_used ctx;
                    buf = blit (enc_data ctx) (data_used ctx) (take todo inp)
                in case encode_line out 0 buf 48 of
                  (out', dst, encoded) \<Rightarrow>
                    (ctx\<lparr>enc_data := buf, data_used := 0\<rparr>, out', dst, drop todo inp, in_len - todo, encoded + 1)
              else (ctx, out, 0, inp, in_len, 0)) of
          (ctx1, out1, dst1, inp1, in_len1, tot1) \<Rightarrow>
            (case encode_lines out1 dst1 inp1 in_len1 tot1 of
               (out2, dst2, inp2, in_len2, None) \<Rightarrow> (ctx1, out2, 0)
             | (out2, dst2, inp2, in_len2, Some tot) \<Rightarrow>
                 (ctx1\<lparr>enc_data := (if in_len2 \<noteq> 0 then blit (enc_data ctx1) 0 (take in_len2 inp2) else enc_data ctx1),
                       data_used := in_len2\<rparr>,
                  out2, if tot > INT_MAX then 0 else tot)))"

definition EVP_EncodeFinal :: "EVP_ENCODE_CTX \<Rightarrow> bytes \<Rightarrow> EVP_ENCODE_CTX \<times> bytes \<times> nat" where
  "EVP_EncodeFinal ctx out =
     (if data_used ctx = 0 then (ctx, out, 0)
      else case EVP_EncodeBlock out 0 (enc_data ctx) (data_used ctx) of
        (out', encoded) \<Rightarrow>
          (ctx\<lparr>data_used := 0\<rparr>, blit (blit out' encoded [NEWLINE]) (encoded + 1) [0], encoded + 1))"

section \<open>Decoding\<close>

definition EVP_DecodedLength :: "nat \<Rightarrow> nat option" where
  "EVP_DecodedLength len = (if len mod 4 \<noteq> 0 then None else Some (len div 4 * 3))"

definition EVP_DecodeInit :: EVP_ENCODE_CTX where
  "EVP_DecodeInit = EVP_EncodeInit"

text \<open>The up to three bytes that \<open>base64_decode_quad\<close> writes; their number is \<open>*out_num_bytes\<close>.\<close>

definition base64_decode_quad :: "bytes \<Rightarrow> bytes option" where
  "base64_decode_quad inp =
     (let a = base64_ascii_to_bin (inp ! 0); b = base64_ascii_to_bin (inp ! 1);
          c = base64_ascii_to_bin (inp ! 2); d = base64_ascii_to_bin (inp ! 3)
      in if a = 0xff \<or> b = 0xff \<or> c = 0xff \<or> d = 0xff then None
      else
        let v = push_bit 18 (ucast a) OR push_bit 12 (ucast b) OR push_bit 6 (ucast c) OR ucast d :: u32;
            pad = (inp ! 0 = PAD, inp ! 1 = PAD, inp ! 2 = PAD, inp ! 3 = PAD)
        in if pad = (False, False, False, False) then
             Some [ucast (drop_bit 16 v), ucast (drop_bit 8 v), ucast v]
           else if pad = (False, False, False, True) then
             Some [ucast (drop_bit 16 v), ucast (drop_bit 8 v)]
           else if pad = (False, False, True, True) then Some [ucast (drop_bit 16 v)]
           else None)"

definition is_base64_space :: "u8 \<Rightarrow> bool" where
  "is_base64_space c \<longleftrightarrow> c \<in> {0x20, 0x09, 0x0d, 0x0a}"

text \<open>The loop of \<open>EVP_DecodeUpdate\<close>: \<open>None\<close> is the return from inside the loop with -1.\<close>

fun decode_update_loop ::
  "EVP_ENCODE_CTX \<Rightarrow> bytes \<Rightarrow> nat \<Rightarrow> bytes \<Rightarrow> EVP_ENCODE_CTX \<times> bytes \<times> nat option" where
  "decode_update_loop ctx out bytes_out [] = (ctx, out, Some bytes_out)"
| "decode_update_loop ctx out bytes_out (c # cs) =
     (if is_base64_space c then decode_update_loop ctx out bytes_out cs
      else if base64_ascii_to_bin c = 0xff \<or> eof_seen ctx
      then (ctx\<lparr>error_encountered := True\<rparr>, out, None)
      else
        let ctx1 = ctx\<lparr>enc_data := (enc_data ctx)[data_used ctx := c], data_used := data_used ctx + 1\<rparr> in
        if data_used ctx1 = 4 then
          (case base64_decode_quad (enc_data ctx1) of
             None \<Rightarrow> (ctx1\<lparr>error_encountered := True\<rparr>, out, None)
           | Some bs \<Rightarrow>
               decode_update_loop
                 (ctx1\<lparr>data_used := 0, eof_seen := (if length bs < 3 then True else eof_seen ctx1)\<rparr>)
                 (blit out bytes_out bs) (bytes_out + length bs) cs)
        else decode_update_loop ctx1 out bytes_out cs)"

definition EVP_DecodeUpdate ::
  "EVP_ENCODE_CTX \<Rightarrow> bytes \<Rightarrow> bytes \<Rightarrow> nat \<Rightarrow> EVP_ENCODE_CTX \<times> bytes \<times> nat \<times> int" where
  "EVP_DecodeUpdate ctx out inp in_len =
     (if error_encountered ctx then (ctx, out, 0, - 1)
      else case decode_update_loop ctx out 0 (take in_len inp) of
        (ctx', out', None) \<Rightarrow> (ctx', out', 0, - 1)
      | (ctx', out', Some bytes_out) \<Rightarrow>
          if bytes_out > INT_MAX then (ctx'\<lparr>error_encountered := True\<rparr>, out', 0, - 1)
          else (ctx', out', bytes_out, if eof_seen ctx' then 0 else 1))"

definition EVP_DecodeFinal :: "EVP_ENCODE_CTX \<Rightarrow> int" where
  "EVP_DecodeFinal ctx = (if error_encountered ctx \<or> data_used ctx \<noteq> 0 then - 1 else 1)"

text \<open>The loop of \<open>EVP_DecodeBase64\<close> over \<open>quads\<close> quads.\<close>

fun decode_base64_loop :: "bytes \<Rightarrow> nat \<Rightarrow> bytes \<Rightarrow> nat \<Rightarrow> bytes \<times> nat option" where
  "decode_base64_loop out bytes_out inp 0 = (out, Some bytes_out)"
| "decode_base64_loop out bytes_out inp (Suc quads) =
     (case base64_decode_quad inp of
        None \<Rightarrow> (out, None)
      | Some bs \<Rightarrow>
          if length bs \<noteq> 3 \<and> quads \<noteq> 0 then (blit out bytes_out bs, None)
          else decode_base64_loop (blit out bytes_out bs) (bytes_out + length bs) (drop 4 inp) quads)"

definition EVP_DecodeBase64 :: "bytes \<Rightarrow> nat \<Rightarrow> bytes \<Rightarrow> nat \<Rightarrow> bytes \<times> nat option" where
  "EVP_DecodeBase64 out max_out inp in_len =
     (if in_len mod 4 \<noteq> 0 then (out, None)
      else case EVP_DecodedLength in_len of
        None \<Rightarrow> (out, None)
      | Some max_len \<Rightarrow>
          if max_out < max_len then (out, None)
          else decode_base64_loop out 0 inp (in_len div 4))"

definition is_base64_lead :: "u8 \<Rightarrow> bool" where
  "is_base64_lead c \<longleftrightarrow> c = 0x20 \<or> c = 0x09"

fun trim_end :: "bytes \<Rightarrow> nat \<Rightarrow> nat" where
  "trim_end src 0 = 0"
| "trim_end src (Suc n) = (if is_base64_space (src ! n) then trim_end src n else Suc n)"

lemma mod_3_step:
  assumes "0 < n mod (3 :: nat)"
  shows "(3 - Suc n mod 3) mod 3 < 3 - n mod 3"
proof -
  have "n mod 3 < 3" by simp
  with assms consider "n mod 3 = 1" | "n mod 3 = 2" by linarith
  then show ?thesis by cases (simp_all add: mod_Suc)
qed

function pad_to_3 :: "bytes \<Rightarrow> nat \<Rightarrow> bytes \<times> nat" where
  "pad_to_3 dst n = (if n mod 3 \<noteq> 0 then pad_to_3 (blit dst n [0]) (n + 1) else (dst, n))"
  by pat_completeness auto
termination by (relation "measure (\<lambda>(dst, n). (3 - n mod 3) mod 3)") (simp_all add: mod_3_step)

declare pad_to_3.simps [simp del]

definition EVP_DecodeBlock :: "bytes \<Rightarrow> bytes \<Rightarrow> nat \<Rightarrow> bytes \<times> int" where
  "EVP_DecodeBlock dst src src_len =
     (let lead = length (takeWhile is_base64_lead (take src_len src));
          src1 = drop lead src;
          len1 = trim_end src1 (src_len - lead)
      in case EVP_DecodedLength len1 of
        None \<Rightarrow> (dst, - 1)
      | Some dst_len \<Rightarrow>
          if dst_len > INT_MAX then (dst, - 1)
          else case EVP_DecodeBase64 dst dst_len src1 len1 of
            (dst', None) \<Rightarrow> (dst', - 1)
          | (dst', Some n) \<Rightarrow> (case pad_to_3 dst' n of (dst'', m) \<Rightarrow> (dst'', int m)))"

section \<open>The specification\<close>

text \<open>RFC 4648: three bytes are four digits to the base 64, one or two last bytes are padded.\<close>

definition digit :: "nat \<Rightarrow> u8" where
  "digit k = data_bin2ascii ! k"

fun b64 :: "bytes \<Rightarrow> bytes" where
  "b64 [] = []"
| "b64 [a] = (let n = unat a * 16 in [digit (n div 64), digit (n mod 64), PAD, PAD])"
| "b64 [a, b] =
     (let n = (256 * unat a + unat b) * 4
      in [digit (n div 64 ^ 2), digit (n div 64 mod 64), digit (n mod 64), PAD])"
| "b64 (a # b # c # xs) =
     (let n = 65536 * unat a + 256 * unat b + unat c
      in [digit (n div 64 ^ 3), digit (n div 64 ^ 2 mod 64), digit (n div 64 mod 64), digit (n mod 64)] @ b64 xs)"

lemma length_b64: "length (b64 xs) = 4 * ((length xs + 2) div 3)"
  by (induction xs rule: b64.induct) (auto simp: Let_def, presburger)

lemma conv_drop_bit: "conv_bin2ascii (drop_bit k l) = digit (unat l div 2 ^ k mod 64)"
proof -
  have "(0x3f :: u32) = mask 6" by (simp add: mask_eq_exp_minus_1)
  then have "unat (drop_bit k l AND 0x3f) = take_bit 6 (unat (drop_bit k l))"
    by (simp only: take_bit_eq_mask [symmetric] unsigned_take_bit_eq)
  also have "unat (drop_bit k l) = unat l div 2 ^ k"
    by (subst unat_drop_bit_eq) (simp only: drop_bit_eq_div)
  finally show ?thesis by (simp add: conv_bin2ascii_def digit_def take_bit_eq_mod)
qed

lemma conv_0: "conv_bin2ascii l = digit (unat l mod 64)"
  using conv_drop_bit [of 0 l] by simp

lemma unat_triple:
  "unat (push_bit 16 (ucast a) OR push_bit 8 (ucast b) OR ucast c :: u32) =
     65536 * unat (a :: u8) + 256 * unat (b :: u8) + unat (c :: u8)"
proof -
  have "push_bit 16 (ucast a) OR push_bit 8 (ucast b) OR ucast c = (be_word [a, b, c] 0 :: u32)"
    by (simp add: be_word_def push_bit_or or.assoc)
  moreover have "unat (be_word [a, b, c] 0 :: u32) = be_nat 0 [a, b, c]"
    using be_nat_zero_bound [of "[a, b, c]" 4] by (subst unat_be_word) simp_all
  ultimately show ?thesis by simp
qed

lemma unat_pair:
  "unat (push_bit 16 (ucast (a :: u8)) OR push_bit 8 (ucast (b :: u8)) :: u32) = 65536 * unat a + 256 * unat b"
  using unat_triple [of a b 0] by simp

lemma unat_single: "unat (push_bit 16 (ucast (a :: u8)) :: u32) = 65536 * unat a"
  using unat_triple [of a 0 0] by simp

text \<open>The three branches of the encoder produce the four digits of the specification.\<close>

lemma b64_word3:
  fixes a b c :: u8
  defines "l \<equiv> push_bit 16 (ucast a) OR push_bit 8 (ucast b) OR ucast c :: u32"
  shows "[conv_bin2ascii (drop_bit 18 l), conv_bin2ascii (drop_bit 12 l),
          conv_bin2ascii (drop_bit 6 l), conv_bin2ascii l] = b64 [a, b, c]"
proof -
  let ?n = "65536 * unat a + 256 * unat b + unat c"
  have n: "unat l = ?n" unfolding l_def by (rule unat_triple)
  have "?n < 16777216" using unat_u8_less [of a] unat_u8_less [of b] unat_u8_less [of c] by linarith
  then have "?n div 64 ^ 3 < 64" by (simp add: div_less_iff_less_mult)
  moreover have "?n div 2 ^ 18 = ?n div 64 ^ 3" "?n div 2 ^ 12 = ?n div 64 ^ 2" "?n div 2 ^ 6 = ?n div 64"
    by simp_all
  ultimately show ?thesis
    by (simp only: conv_drop_bit conv_0 [of l] n b64.simps Let_def mod_less append.simps)
qed

lemma b64_word2:
  fixes a b :: u8
  defines "l \<equiv> push_bit 16 (ucast a) OR push_bit 8 (ucast b) :: u32"
  shows "[conv_bin2ascii (drop_bit 18 l), conv_bin2ascii (drop_bit 12 l),
          conv_bin2ascii (drop_bit 6 l), PAD] = b64 [a, b]"
proof -
  let ?m = "(256 * unat a + unat b) * 4"
  have n: "unat l = 64 * ?m" unfolding l_def by (simp add: unat_pair)
  have "?m = 1024 * unat a + 4 * unat b" by simp
  then have "?m < 262144" using unat_u8_less [of a] unat_u8_less [of b] by linarith
  then have "?m div 64 ^ 2 < 64" by (simp add: div_less_iff_less_mult)
  moreover have "64 * ?m div 2 ^ 18 = ?m div 64 ^ 2" "64 * ?m div 2 ^ 12 = ?m div 64" "64 * ?m div 2 ^ 6 = ?m"
    using div_mult_mult1 [of 64 ?m "64 ^ 2"] div_mult_mult1 [of 64 ?m 64] by simp_all
  ultimately show ?thesis by (simp only: conv_drop_bit n b64.simps Let_def mod_less)
qed

lemma b64_word1:
  fixes a :: u8
  defines "l \<equiv> push_bit 16 (ucast a) :: u32"
  shows "[conv_bin2ascii (drop_bit 18 l), conv_bin2ascii (drop_bit 12 l), PAD, PAD] = b64 [a]"
proof -
  let ?m = "unat a * 16"
  have n: "unat l = 64 ^ 2 * ?m" unfolding l_def by (simp add: unat_single)
  have "?m < 4096" using unat_u8_less [of a] by linarith
  then have "?m div 64 < 64" by (simp add: div_less_iff_less_mult)
  moreover have "64 ^ 2 * ?m div 2 ^ 18 = ?m div 64" "64 ^ 2 * ?m div 2 ^ 12 = ?m"
    using div_mult_mult1 [of "64 ^ 2" ?m 64] by simp_all
  ultimately show ?thesis by (simp only: conv_drop_bit n b64.simps Let_def mod_less)
qed

lemma blit_blit:
  "i + length xs + length ys \<le> length out \<Longrightarrow> blit (blit out i xs) (i + length xs) ys = blit out i (xs @ ys)"
  by (simp add: blit_def add.assoc add.commute [of "length ys"])

lemma encode_loop_eq:
  "n \<le> length src \<Longrightarrow> dst + length (b64 (take n src)) \<le> length out \<Longrightarrow>
     encode_loop out dst src n ret =
       (blit out dst (b64 (take n src)), dst + length (b64 (take n src)), ret + length (b64 (take n src)))"
proof (induction out dst src n ret rule: encode_loop.induct)
  case (1 out dst src n ret)
  consider "n = 0" | "n = 1" | "n = 2" | "n \<ge> 3" by linarith
  then show ?case
  proof cases
    case 1
    then show ?thesis by (simp add: encode_loop.simps)
  next
    case 2
    then obtain a xs where src: "src = a # xs" using "1.prems" by (cases src) auto
    have "encode_loop out dst src n ret = (blit out dst (b64 [a]), dst + 4, ret + 4)"
      unfolding b64_word1 [symmetric] using 2
      by (simp add: encode_loop.simps [of out] encode_loop.simps [of _ _ _ 0] src Let_def)
    then show ?thesis using 2 src length_b64 [of "[a]"] by simp
  next
    case 3
    then obtain a b xs where src: "src = a # b # xs" using "1.prems" by (cases src rule: remdups_adj.cases) auto
    have "encode_loop out dst src n ret = (blit out dst (b64 [a, b]), dst + 4, ret + 4)"
      unfolding b64_word2 [symmetric] using 3
      by (simp add: encode_loop.simps [of out] encode_loop.simps [of _ _ _ 0] src Let_def)
    then show ?thesis using 3 src length_b64 [of "[a, b]"] by simp
  next
    case 4
    then obtain a b c xs m where src: "src = a # b # c # xs" and n: "n = Suc (Suc (Suc m))" "m \<le> length xs"
      using "1.prems" by (cases src rule: b64.cases) (auto simp: numeral_3_eq_3 Suc_le_eq dest!: less_imp_Suc_add)
    have tk: "b64 (take n src) = b64 [a, b, c] @ b64 (take m xs)"
      by (simp add: src n Let_def)
    have step: "encode_loop out dst src n ret = encode_loop (blit out dst (b64 [a, b, c])) (dst + 4) xs m (ret + 4)"
      unfolding b64_word3 [symmetric] using n
      by (simp add: encode_loop.simps [of out] src Let_def numeral_3_eq_3)
    have len: "length (b64 [a, b, c]) = 4" using length_b64 [of "[a, b, c]"] by simp
    have "encode_loop (blit out dst (b64 [a, b, c])) (dst + 4) xs m (ret + 4) =
        (blit (blit out dst (b64 [a, b, c])) (dst + 4) (b64 (take m xs)), dst + 4 + length (b64 (take m xs)),
         ret + 4 + length (b64 (take m xs)))"
      using "1.IH"(1) [OF _ _ refl] 4 n src "1.prems" tk len
      unfolding b64_word3 [symmetric] by (simp add: numeral_3_eq_3 del: b64.simps)
    then show ?thesis
      using blit_blit [of dst "b64 [a, b, c]" "b64 (take m xs)" out] "1.prems"(2)
      by (simp add: step tk len del: b64.simps)
  qed
qed

section \<open>Correctness of the encoder\<close>

text \<open>A later write covers the end of an earlier one (the terminator).\<close>

lemma blit_over:
  "length ys \<le> length zs \<Longrightarrow> i + length xs + length zs \<le> length out \<Longrightarrow> j = i + length xs \<Longrightarrow>
     blit (blit out i (xs @ ys)) j zs = blit out i (xs @ zs)"
  by (simp add: blit_def add.assoc add.commute [of "length zs"])

lemma line_div [simp]:
  "(48 + m) div 48 = Suc (m div (48 :: nat))" "(m + 48) div 48 = Suc (m div (48 :: nat))"
  by simp_all

lemma EVP_EncodeBlock_eq:
  assumes "n \<le> length src" "dst + length (b64 (take n src)) < length out"
  shows "EVP_EncodeBlock out dst src n = (blit out dst (b64 (take n src) @ [0]), length (b64 (take n src)))"
  using assms by (simp add: EVP_EncodeBlock_def encode_loop_eq blit_blit)

function b64_text :: "bytes \<Rightarrow> bytes" where
  "b64_text xs = (if xs = [] then [] else b64 (take 48 xs) @ NEWLINE # b64_text (drop 48 xs))"
  by pat_completeness auto
termination by (relation "measure length") auto

declare b64_text.simps [simp del]

lemma b64_text_Nil [simp]: "b64_text [] = []"
  by (simp add: b64_text.simps)

lemma b64_text_line: "length xs = 48 \<Longrightarrow> b64_text (xs @ ys) = b64 xs @ NEWLINE # b64_text ys"
  by (subst b64_text.simps) auto

lemma length_b64_text: "length (b64_text xs) = 65 * (length xs div 48) + (if length xs mod 48 = 0 then 0 else length (b64 (drop (48 * (length xs div 48)) xs)) + 1)"
proof (induction xs rule: b64_text.induct)
  case (1 xs)
  consider "xs = []" | "xs \<noteq> []" "length xs < 48" | "48 \<le> length xs" by linarith
  then show ?case
  proof cases
    case 2
    then show ?thesis by (simp add: b64_text.simps [of xs])
  next
    case 3
    then obtain m where m: "length xs = 48 + m" by (auto simp: le_iff_add)
    have "xs \<noteq> []" using m by auto
    then have "length (b64_text xs) = 65 + length (b64_text (drop 48 xs))"
      using m by (simp add: b64_text.simps [of xs] length_b64)
    then show ?thesis using "1.IH" [OF \<open>xs \<noteq> []\<close>] m by (simp add: add.commute)
  qed simp
qed

lemma b64_text_append: "length xs mod 48 = 0 \<Longrightarrow> b64_text (xs @ ys) = b64_text xs @ b64_text ys"
proof (induction xs rule: b64_text.induct)
  case (1 xs)
  show ?case
  proof (cases "xs = []")
    case False
    then have "48 \<le> length xs" using "1.prems" by (metis dvd_imp_le length_greater_0_conv mod_0_imp_dvd)
    moreover from this have "length (drop 48 xs) mod 48 = 0" using "1.prems" by (simp add: le_mod_geq)
    ultimately show ?thesis
      using False "1.IH" [OF False] by (simp add: b64_text.simps [of xs] b64_text.simps [of "xs @ ys"])
  qed simp
qed

lemma encode_line_eq:
  assumes "48 \<le> length src" "dst + 65 < length out"
  shows "encode_line out dst src 48 = (blit out dst (b64 (take 48 src) @ [NEWLINE, 0]), dst + 65, 64)"
proof -
  let ?b = "b64 (take 48 src)"
  have len: "length ?b = 64" using assms(1) by (simp add: length_b64)
  have "blit (blit out dst (?b @ [0])) (dst + 64) [NEWLINE] = blit out dst (?b @ [NEWLINE])"
    by (rule blit_over) (use assms(2) len in simp_all)
  moreover have "blit (blit out dst (?b @ [NEWLINE])) (dst + 65) [0] = blit out dst ((?b @ [NEWLINE]) @ [0])"
    using blit_blit [of dst "?b @ [NEWLINE]" "[0]" out] assms(2) len by simp
  moreover have "EVP_EncodeBlock out dst src 48 = (blit out dst (?b @ [0]), 64)"
    using EVP_EncodeBlock_eq [of 48 src dst out] assms len by simp
  ultimately show ?thesis by (simp add: encode_line_def add.commute)
qed

lemma encode_lines_eq:
  "n \<le> length inp \<Longrightarrow> dst + 65 * (n div 48) < length out \<Longrightarrow> tot + 65 * (n div 48) \<le> SIZE_MAX \<Longrightarrow>
   encode_lines out dst inp n tot =
     (if n div 48 = 0 then out else blit out dst (b64_text (take (48 * (n div 48)) inp) @ [0]),
      dst + 65 * (n div 48), drop (48 * (n div 48)) inp, n mod 48, Some (tot + 65 * (n div 48)))"
proof (induction out dst inp n tot rule: encode_lines.induct)
  case (1 out dst inp n tot)
  show ?case
  proof (cases "48 \<le> n")
    case False
    then show ?thesis by (simp add: encode_lines.simps)
  next
    case True
    then obtain m where n: "n = 48 + m" by (auto simp: le_iff_add)
    let ?out = "blit out dst (b64 (take 48 inp) @ [NEWLINE, 0])"
    have len: "length (b64 (take 48 inp)) = 64" using "1.prems"(1) n by (simp add: length_b64)
    have line: "encode_line out dst inp 48 = (?out, dst + 65, 64)"
      using "1.prems" n by (intro encode_line_eq) simp_all
    have lo: "length ?out = length out" using "1.prems"(2) n len by simp
    have step: "encode_lines out dst inp n tot = encode_lines ?out (dst + 65) (drop 48 inp) m (tot + 65)"
      using True line "1.prems"(3) n by (simp add: encode_lines.simps [of out])
    have IH: "encode_lines ?out (dst + 65) (drop 48 inp) m (tot + 65) =
        (if m div 48 = 0 then ?out else blit ?out (dst + 65) (b64_text (take (48 * (m div 48)) (drop 48 inp)) @ [0]),
         dst + 65 + 65 * (m div 48), drop (48 * (m div 48)) (drop 48 inp), m mod 48, Some (tot + 65 + 65 * (m div 48)))"
      using "1.IH" [OF True line [symmetric] refl] "1.prems" n lo by simp
    have lines_eq: "b64_text (take (48 + 48 * (m div 48)) inp) =
        (b64 (take 48 inp) @ [NEWLINE]) @ b64_text (take (48 * (m div 48)) (drop 48 inp))"
      using b64_text_line [of "take 48 inp" "take (48 * (m div 48)) (drop 48 inp)"] "1.prems"(1) n
      by (simp add: take_add)
    have "length (b64_text (take (48 * (m div 48)) (drop 48 inp))) = 65 * (m div 48)"
      using "1.prems"(1) n by (simp add: length_b64_text min_absorb2)
    then have "blit ?out (dst + 65) (b64_text (take (48 * (m div 48)) (drop 48 inp)) @ [0]) =
        blit out dst (b64_text (take (48 * (n div 48)) inp) @ [0])"
      using blit_over [of "[0]" "b64_text (take (48 * (m div 48)) (drop 48 inp)) @ [0]" dst "b64 (take 48 inp) @ [NEWLINE]" out]
        "1.prems"(2) n len by (simp add: lines_eq)
    then show ?thesis
      unfolding step IH using lines_eq n by (auto simp: add.commute)
  qed
qed

section \<open>Streaming\<close>

text \<open>\<open>ctx_holds ctx pend\<close>: the context holds the input bytes \<open>pend\<close>, not yet encoded.\<close>

definition ctx_holds :: "EVP_ENCODE_CTX \<Rightarrow> bytes \<Rightarrow> bool" where
  "ctx_holds ctx pend \<longleftrightarrow>
     data_used ctx = length pend \<and> length pend < 48 \<and> length (enc_data ctx) = 48 \<and>
     take (length pend) (enc_data ctx) = pend"

lemma EVP_EncodeInit_holds: "ctx_holds EVP_EncodeInit []"
  by (simp add: ctx_holds_def EVP_EncodeInit_def)

lemma take_blit_prefix:
  "i = length p \<Longrightarrow> take i d = p \<Longrightarrow> i + length xs \<le> length d \<Longrightarrow>
     take (i + length xs) (blit d i xs) = p @ xs"
  by (simp add: take_blit_all)

lemma holds_refill:
  assumes "length d = 48" "r < 48" "r \<le> length rest"
  shows "ctx_holds (ctx\<lparr>enc_data := (if r \<noteq> 0 then blit d 0 (take r rest) else d), data_used := r\<rparr>) (take r rest)"
  using assms take_blit_prefix [of 0 "[]" d "take r rest"] by (simp add: ctx_holds_def)

text \<open>One update turns the whole lines of what it holds and what it gets into text.\<close>

lemma EVP_EncodeUpdate_eq:
  fixes pend inp n
  defines "all \<equiv> pend @ take n inp"
  defines "k \<equiv> length all div 48"
  assumes "ctx_holds ctx pend" "n \<le> length inp" "65 * k < length out" "65 * k \<le> INT_MAX"
  obtains ctx' out' where "EVP_EncodeUpdate ctx out inp n = (ctx', out', 65 * k)"
    "ctx_holds ctx' (drop (48 * k) all)" "take (65 * k) out' = b64_text (take (48 * k) all)" "length out' = length out"
proof -
  let ?u = "length pend"
  have ctx: "data_used ctx = ?u" "?u < 48" "length (enc_data ctx) = 48" "take ?u (enc_data ctx) = pend"
    using assms(3) by (simp_all add: ctx_holds_def)
  have all_len: "length all = ?u + n" using assms(4) by (simp add: all_def)
  show ?thesis
  proof (cases "?u + n < 48")
    case True
    then have k: "k = 0" and less_diff: "n < 48 - ?u" by (simp_all add: k_def all_len)
    show ?thesis
    proof (cases "n = 0")
      case True
      then show ?thesis using that assms(3) k by (auto simp: EVP_EncodeUpdate_def all_def)
    next
      case False
      let ?ctx = "ctx\<lparr>enc_data := blit (enc_data ctx) ?u (take n inp), data_used := ?u + n\<rparr>"
      have "EVP_EncodeUpdate ctx out inp n = (?ctx, out, 65 * k)"
        using False less_diff ctx k by (simp add: EVP_EncodeUpdate_def)
      moreover have "ctx_holds ?ctx (drop (48 * k) all)"
        using True ctx k assms(4) take_blit_prefix [of ?u pend "enc_data ctx" "take n inp"]
        by (simp add: ctx_holds_def all_def)
      ultimately show ?thesis using that k by simp
    qed
  next
    case False
    then obtain j where k: "k = Suc j" by (cases k) (simp_all add: k_def all_len)
    show ?thesis
    proof (cases "?u = 0")
      case True
      then have a: "all = take n inp" "n div 48 = k" "48 * k \<le> n"
        using ctx(4) all_len by (simp_all add: all_def k_def)
      let ?r = "n mod 48" and ?rest = "drop (48 * k) inp" and ?txt = "b64_text (take (48 * k) inp)"
      let ?ctx = "ctx\<lparr>enc_data := (if ?r \<noteq> 0 then blit (enc_data ctx) 0 (take ?r ?rest) else enc_data ctx), data_used := ?r\<rparr>"
      have lines_eq: "encode_lines out 0 inp n 0 = (blit out 0 (?txt @ [0]), 65 * k, ?rest, ?r, Some (65 * k))"
        using encode_lines_eq [of n inp 0 out 0] assms(4-6) a k by simp
      have "EVP_EncodeUpdate ctx out inp n = (?ctx, blit out 0 (?txt @ [0]), 65 * k)"
        using False True ctx lines_eq assms(6) by (simp add: EVP_EncodeUpdate_def)
      moreover have "drop (48 * k) all = take ?r ?rest"
        using a by (simp add: drop_take minus_div_mult_eq_mod [symmetric] mult.commute)
      moreover have "ctx_holds ?ctx (take ?r ?rest)"
        using holds_refill [of "enc_data ctx" ?r ?rest ctx] ctx(3) assms(4) a
        by (simp add: minus_div_mult_eq_mod [symmetric])
      moreover have "length ?txt = 65 * k" using a assms(4) by (simp add: length_b64_text min_absorb2)
      ultimately show ?thesis
        using that [of ?ctx "blit out 0 (?txt @ [0])"] assms(5) a by (simp add: blit_def)
    next
      case used: False
      have big: "\<not> n < 48 - ?u" "n \<noteq> 0" using False ctx(2) by linarith+
      let ?todo = "48 - ?u"
      define buf where "buf = blit (enc_data ctx) ?u (take ?todo inp)"
      define inp1 where "inp1 = drop ?todo inp"
      define n1 where "n1 = n - ?todo"
      have n1: "n = ?todo + n1" "n1 div 48 = j" "n1 \<le> length inp1" "48 * j \<le> n1"
        using False used ctx(2) k assms(4) by (auto simp: n1_def k_def all_len inp1_def)
      have buf: "buf = pend @ take ?todo inp"
        using ctx False assms(4) take_blit_prefix [of ?u pend "enc_data ctx" "take ?todo inp"]
        by (simp add: buf_def blit_def)
      have buf_len: "length buf = 48" using buf ctx(2) n1(1) assms(4) by simp
      have all_eq: "all = buf @ take n1 inp1"
        by (simp add: all_def buf n1(1) inp1_def take_add)
      let ?line = "b64 buf @ [NEWLINE]"
      let ?out1 = "blit out 0 (b64 buf @ [NEWLINE, 0])"
      let ?r = "n1 mod 48" and ?rest = "drop (48 * j) inp1" and ?txt = "b64_text (take (48 * j) inp1)"
      let ?ctx = "ctx\<lparr>enc_data := (if ?r \<noteq> 0 then blit buf 0 (take ?r ?rest) else buf), data_used := ?r\<rparr>"
      let ?out2 = "if j = 0 then ?out1 else blit ?out1 65 (?txt @ [0])"
      have line_len: "length (b64 buf) = 64" using buf_len by (simp add: length_b64)
      have txt_len: "length ?txt = 65 * j" using n1 by (simp add: length_b64_text min_absorb2)
      have line1: "encode_line out 0 buf 48 = (?out1, 65, 64)"
        using encode_line_eq [of buf 0 out] buf_len assms(5) k by simp
      have lines_eq: "encode_lines ?out1 65 inp1 n1 65 = (?out2, 65 * k, ?rest, ?r, Some (65 * k))"
        using encode_lines_eq [of n1 inp1 65 ?out1 65] assms(5,6) n1 k line_len by simp
      have upd: "EVP_EncodeUpdate ctx out inp n = (?ctx, ?out2, 65 * k)"
        using big used ctx line1 lines_eq assms(6)
        by (simp add: EVP_EncodeUpdate_def Let_def buf_def [symmetric] inp1_def [symmetric] n1_def [symmetric])
      have rest: "drop (48 * k) all = take ?r ?rest"
        using n1 buf_len k by (simp add: all_eq drop_take minus_div_mult_eq_mod [symmetric] mult.commute)
      have holds: "ctx_holds ?ctx (take ?r ?rest)"
        using holds_refill [of buf ?r ?rest ctx] buf_len n1
        by (simp add: minus_div_mult_eq_mod [symmetric])
      have text_eq: "b64_text (take (48 * k) all) = ?line @ ?txt"
        using b64_text_line [OF buf_len, of "take (48 * j) inp1"] buf_len n1 k
        by (simp add: all_eq min_absorb1)
      have out2: "?out2 = blit out 0 (?line @ ?txt @ [0])"
      proof (cases "j = 0")
        case False
        have "blit (blit out 0 (?line @ [0])) 65 (?txt @ [0]) = blit out 0 (?line @ ?txt @ [0])"
          by (rule blit_over) (use assms(5) k line_len txt_len in simp_all)
        with False show ?thesis by simp
      qed simp
      have "take (65 * k) (blit out 0 (?line @ ?txt @ [0])) = ?line @ ?txt"
        using line_len txt_len k by (simp add: blit_def)
      moreover have "length (blit out 0 (?line @ ?txt @ [0])) = length out"
        using line_len txt_len k assms(5) by simp
      ultimately show ?thesis
        using that [OF upd] holds rest text_eq out2 by simp
    qed
  qed
qed

lemma EVP_EncodeFinal_eq:
  assumes "ctx_holds ctx pend" "66 \<le> length out"
  obtains ctx' out' where "EVP_EncodeFinal ctx out = (ctx', out', length (b64_text pend))"
    "take (length (b64_text pend)) out' = b64_text pend" "length out' = length out"
proof (cases "pend = []")
  case True
  then show ?thesis using assms(1) that by (simp add: EVP_EncodeFinal_def ctx_holds_def)
next
  case False
  let ?b = "b64 pend"
  have ctx: "data_used ctx = length pend" "length pend < 48" "length (enc_data ctx) = 48"
    "take (length pend) (enc_data ctx) = pend"
    using assms(1) by (simp_all add: ctx_holds_def)
  have len: "length ?b \<le> 64" using ctx(2) by (simp add: length_b64)
  have final: "b64_text pend = ?b @ [NEWLINE]" using False ctx(2) by (simp add: b64_text.simps [of pend])
  have blk: "EVP_EncodeBlock out 0 (enc_data ctx) (length pend) = (blit out 0 (?b @ [0]), length ?b)"
    using EVP_EncodeBlock_eq [of "length pend" "enc_data ctx" 0 out] ctx assms(2) len by simp
  have w1: "blit (blit out 0 (?b @ [0])) (length ?b) [NEWLINE] = blit out 0 (?b @ [NEWLINE])"
    by (rule blit_over) (use assms(2) len in simp_all)
  have w2: "blit (blit out 0 (?b @ [NEWLINE])) (length ?b + 1) [0] = blit out 0 ((?b @ [NEWLINE]) @ [0])"
    using blit_blit [of 0 "?b @ [NEWLINE]" "[0]" out] assms(2) len by simp
  have "EVP_EncodeFinal ctx out = (ctx\<lparr>data_used := 0\<rparr>, blit out 0 (?b @ [NEWLINE, 0]), length ?b + 1)"
    using False ctx(1) blk w1 w2 by (simp add: EVP_EncodeFinal_def)
  then show ?thesis
    using that assms(2) len by (simp add: final blit_def)
qed

text \<open>A whole session: an update for every chunk of input, then the final call, each with the
  caller's block \<open>out\<close>; the result is all output bytes in order.\<close>

fun encode_session :: "bytes \<Rightarrow> EVP_ENCODE_CTX \<Rightarrow> bytes list \<Rightarrow> bytes" where
  "encode_session out ctx [] = (case EVP_EncodeFinal ctx out of (_, out', n) \<Rightarrow> take n out')"
| "encode_session out ctx (c # cs) =
     (case EVP_EncodeUpdate ctx out c (length c) of
        (ctx', out', n) \<Rightarrow> take n out' @ encode_session out' ctx' cs)"

lemma encode_session_from:
  assumes "ctx_holds ctx pend" "66 \<le> length out"
    "\<forall>c\<in>set cs. 65 * ((47 + length c) div 48) < length out \<and> 65 * ((47 + length c) div 48) \<le> INT_MAX"
  shows "encode_session out ctx cs = b64_text (pend @ concat cs)"
  using assms
proof (induction cs arbitrary: out ctx pend)
  case Nil
  obtain ctx' out' where "EVP_EncodeFinal ctx out = (ctx', out', length (b64_text pend))"
    "take (length (b64_text pend)) out' = b64_text pend"
    using EVP_EncodeFinal_eq [OF Nil.prems(1,2)] by metis
  then show ?case by simp
next
  case (Cons c cs)
  let ?all = "pend @ take (length c) c"
  let ?k = "length ?all div 48"
  have "length pend < 48" using Cons.prems(1) by (simp add: ctx_holds_def)
  then have "?k \<le> (47 + length c) div 48" by (intro div_le_mono) simp
  then have room: "65 * ?k < length out" "65 * ?k \<le> INT_MAX"
    using Cons.prems(3) by (auto intro: le_less_trans)
  obtain ctx' out' where upd: "EVP_EncodeUpdate ctx out c (length c) = (ctx', out', 65 * ?k)"
    "ctx_holds ctx' (drop (48 * ?k) ?all)" "take (65 * ?k) out' = b64_text (take (48 * ?k) ?all)"
    "length out' = length out"
    using EVP_EncodeUpdate_eq [OF Cons.prems(1) _ room] by blast
  have IH: "encode_session out' ctx' cs = b64_text (drop (48 * ?k) ?all @ concat cs)"
    using Cons.IH [OF upd(2)] Cons.prems(2,3) upd(4) by simp
  have "length (take (48 * ?k) ?all) mod 48 = 0"
    by (simp only: length_take min_absorb2 times_div_less_eq_dividend mod_mult_self1_is_0)
  note split = b64_text_append [OF this, of "drop (48 * ?k) ?all @ concat cs"]
  have "take (48 * ?k) ?all @ drop (48 * ?k) ?all @ concat cs = ?all @ concat cs"
    by (simp only: append_assoc [symmetric] append_take_drop_id)
  then have "pend @ concat (c # cs) = take (48 * ?k) ?all @ drop (48 * ?k) ?all @ concat cs" by simp
  then have "b64_text (pend @ concat (c # cs)) =
      b64_text (take (48 * ?k) ?all) @ b64_text (drop (48 * ?k) ?all @ concat cs)"
    by (simp only: split)
  then show ?case
    by (simp only: encode_session.simps upd(1) prod.case upd(3) IH)
qed

section \<open>Decoding a quad\<close>

lemma data_bin2ascii_octets:
  "data_bin2ascii = [65, 66, 67, 68, 69, 70, 71, 72, 73, 74, 75, 76, 77, 78, 79, 80, 81, 82, 83, 84, 85, 86, 87, 88, 89, 90, 97, 98, 99, 100, 101, 102, 103, 104, 105, 106, 107, 108, 109, 110, 111, 112, 113, 114, 115, 116, 117, 118, 119, 120, 121, 122, 48, 49, 50, 51, 52, 53, 54, 55, 56, 57, 43, 47]"
  by code_simp

lemma length_data_bin2ascii: "length data_bin2ascii = 64"
  by (simp add: data_bin2ascii_octets)

lemma data_bin2ascii_decodes: "map base64_ascii_to_bin data_bin2ascii = map of_nat [0..<64]"
  unfolding data_bin2ascii_octets by code_simp

lemma data_bin2ascii_plain: "list_all (\<lambda>c. c \<noteq> PAD \<and> \<not> is_base64_space c) data_bin2ascii"
  unfolding data_bin2ascii_octets by code_simp

lemma digit_decodes:
  assumes "k < 64"
  shows "base64_ascii_to_bin (digit k) = of_nat k" "digit k \<noteq> PAD" "\<not> is_base64_space (digit k)"
proof -
  have "map base64_ascii_to_bin data_bin2ascii ! k = map of_nat [0..<64] ! k"
    by (simp only: data_bin2ascii_decodes)
  then show "base64_ascii_to_bin (digit k) = of_nat k"
    using assms by (simp add: digit_def length_data_bin2ascii)
  have "digit k \<in> set data_bin2ascii"
    using assms by (simp add: digit_def length_data_bin2ascii)
  then show "digit k \<noteq> PAD" "\<not> is_base64_space (digit k)"
    using data_bin2ascii_plain by (auto simp: list_all_iff)
qed

lemma pad_decodes: "base64_ascii_to_bin PAD = 0" "\<not> is_base64_space PAD"
  by code_simp+

lemma small_not_ff: "k < 64 \<Longrightarrow> (of_nat k :: u8) \<noteq> 0xff"
  using unat_of_nat_u8 [of k] by auto

lemma nat_shift_or:
  assumes "y < 2 ^ k"
  shows "push_bit k x OR y = 2 ^ k * x + (y :: nat)"
proof -
  have "y = take_bit k y" using assms by (simp add: take_bit_eq_mod)
  then have "bit y n \<Longrightarrow> \<not> k \<le> n" for n by (metis bit_take_bit_iff not_le)
  then have "push_bit k x AND y = 0"
    by (intro bit_eqI) (auto simp: bit_and_iff bit_push_bit_iff)
  then show ?thesis by (simp add: disjunctive_add_eq_or [symmetric] push_bit_eq_mult)
qed

lemma unat_shift_or:
  fixes a b :: "'a::len word"
  assumes "unat b < 2 ^ k" "2 ^ k * unat a + unat b < 2 ^ LENGTH('a)"
  shows "unat (push_bit k a OR b) = 2 ^ k * unat a + unat b"
proof -
  have "push_bit k (unat a) < 2 ^ LENGTH('a)"
    unfolding push_bit_eq_mult mult.commute [of "unat a"] using assms(2) by linarith
  then have "unat (push_bit k a) = push_bit k (unat a)"
    unfolding unsigned_push_bit_eq by (rule take_bit_nat_eq_self)
  then show ?thesis using assms(1) by (simp only: unsigned_or_eq nat_shift_or)
qed

lemma unat_quad:
  fixes a b c d :: u8
  assumes "unat a < 64" "unat b < 64" "unat c < 64" "unat d < 64"
  shows "unat (push_bit 18 (ucast a) OR push_bit 12 (ucast b) OR push_bit 6 (ucast c) OR ucast d :: u32) =
    ((unat a * 64 + unat b) * 64 + unat c) * 64 + unat d"
proof -
  have u: "unat (ucast x :: u32) = unat x" for x :: u8 by (simp add: unat_ucast_u8)
  let ?ab = "push_bit 6 (ucast a) OR ucast b :: u32"
  let ?abc = "push_bit 6 ?ab OR ucast c :: u32"
  have step: "unat (push_bit 6 w OR ucast x) = 2 ^ 6 * unat w + unat x"
    if "unat x < 64" "unat w < 262144" for w :: u32 and x :: u8
    using that by (subst unat_shift_or) (simp_all add: u)
  have ab: "unat ?ab = 2 ^ 6 * unat a + unat b"
    using step [of b "ucast a"] assms by (simp add: u)
  have "unat ?ab < 262144" unfolding ab using assms by simp
  then have abc: "unat ?abc = 2 ^ 6 * (2 ^ 6 * unat a + unat b) + unat c"
    using step [of c ?ab] assms(3) by (simp only: ab)
  have "unat ?abc < 262144" unfolding abc using assms by simp
  then have "unat (push_bit 6 ?abc OR ucast d) = 2 ^ 6 * (2 ^ 6 * (2 ^ 6 * unat a + unat b) + unat c) + unat d"
    using step [of d ?abc] assms(4) by (simp only: abc)
  moreover have "push_bit 6 ?abc OR ucast d =
      push_bit 18 (ucast a) OR push_bit 12 (ucast b) OR push_bit 6 (ucast c) OR (ucast d :: u32)"
    by (simp add: push_bit_or or.assoc)
  ultimately show ?thesis by (simp add: mult.commute)
qed

lemma quad_octets:
  assumes "unat (v :: u32) = 65536 * unat (x :: u8) + 256 * unat (y :: u8) + unat (z :: u8)"
  shows "ucast (drop_bit 16 v) = x" "ucast (drop_bit 8 v) = y" "ucast v = z"
proof -
  have u: "unat (ucast (drop_bit k v) :: u8) = unat v div 2 ^ k mod 256" for k
  proof -
    have "unat (drop_bit k v) = unat v div 2 ^ k"
      by (subst unat_drop_bit_eq) (simp only: drop_bit_eq_div)
    then show ?thesis unfolding unsigned_ucast_eq by (simp only: take_bit_eq_mod) simp
  qed
  have "unat v div 2 ^ 16 = unat x"
    using assms unat_u8_le [of x] unat_u8_le [of y] unat_u8_le [of z] by (intro div_nat_eqI) simp_all
  moreover have "unat v div 2 ^ 8 = 256 * unat x + unat y"
    using assms unat_u8_le [of z] by (intro div_nat_eqI) simp_all
  moreover have "unat v mod 256 = unat z"
  proof -
    have "unat v = 256 * (256 * unat x + unat y) + unat z" using assms by simp
    then show ?thesis by (simp only: mod_mult_self4) simp
  qed
  ultimately have "unat (ucast (drop_bit 16 v) :: u8) = unat x" "unat (ucast (drop_bit 8 v) :: u8) = unat y"
    "unat (ucast (drop_bit 0 v) :: u8) = unat z"
    using u [of 16] u [of 8] u [of 0] by simp_all
  then show "ucast (drop_bit 16 v) = x" "ucast (drop_bit 8 v) = y" "ucast v = z"
    by (simp_all add: word_unat_eq_iff)
qed

lemma base64_digits:
  "n1 = 64 * n2 + r1 \<Longrightarrow> n2 = 64 * n3 + r2 \<Longrightarrow> n = 64 * n1 + r0 \<Longrightarrow>
     ((n3 * 64 + r2) * 64 + r1) * 64 + r0 = (n :: nat)"
  by simp

lemma base64_shift:
  fixes m :: nat
  shows "m * 64 div 64 ^ 3 = m div 64 ^ 2" "m * 64 div 64 ^ 2 mod 64 = m div 64 mod 64"
    "m * 64 div 64 mod 64 = m mod 64" "m * 64 mod 64 = 0"
  using div_mult_mult2 [of 64 m "64 ^ 2"] div_mult_mult2 [of 64 m 64] by simp_all

lemma quad_word:
  fixes n :: nat
  assumes "n < 16777216"
  shows "unat (push_bit 18 (ucast (of_nat (n div 64 ^ 3) :: u8)) OR push_bit 12 (ucast (of_nat (n div 64 ^ 2 mod 64) :: u8))
      OR push_bit 6 (ucast (of_nat (n div 64 mod 64) :: u8)) OR ucast (of_nat (n mod 64) :: u8) :: u32) = n"
proof -
  have lt: "n div 64 ^ 3 < 64" using assms by (simp add: div_less_iff_less_mult)
  have u: "unat (of_nat k :: u8) = k" if "k < 64" for k
    using that by (simp add: unat_of_nat_u8)
  have "n div 64 = 64 * (n div 64 ^ 2) + n div 64 mod 64" "n div 64 ^ 2 = 64 * (n div 64 ^ 3) + n div 64 ^ 2 mod 64"
    "n = 64 * (n div 64) + n mod 64"
    using mult_div_mod_eq [of 64 n] mult_div_mod_eq [of 64 "n div 64"] mult_div_mod_eq [of 64 "n div 64 ^ 2"]
    by (simp_all add: div_mult2_eq [symmetric])
  then have "((n div 64 ^ 3 * 64 + n div 64 ^ 2 mod 64) * 64 + n div 64 mod 64) * 64 + n mod 64 = n"
    by (rule base64_digits)
  then show ?thesis
    using lt by (subst unat_quad) (simp_all add: u)
qed

lemma base64_decode_quad_digits:
  assumes "d0 < 64" "d1 < 64" "d2 < 64" "d3 < 64"
  shows "base64_decode_quad (digit d0 # digit d1 # digit d2 # digit d3 # rest) =
      (let v = push_bit 18 (ucast (of_nat d0 :: u8)) OR push_bit 12 (ucast (of_nat d1 :: u8)) OR
               push_bit 6 (ucast (of_nat d2 :: u8)) OR ucast (of_nat d3 :: u8) :: u32
       in Some [ucast (drop_bit 16 v), ucast (drop_bit 8 v), ucast v])"
    and "base64_decode_quad (digit d0 # digit d1 # digit d2 # PAD # rest) =
      (let v = push_bit 18 (ucast (of_nat d0 :: u8)) OR push_bit 12 (ucast (of_nat d1 :: u8)) OR
               push_bit 6 (ucast (of_nat d2 :: u8)) OR ucast (of_nat 0 :: u8) :: u32
       in Some [ucast (drop_bit 16 v), ucast (drop_bit 8 v)])"
    and "base64_decode_quad (digit d0 # digit d1 # PAD # PAD # rest) =
      (let v = push_bit 18 (ucast (of_nat d0 :: u8)) OR push_bit 12 (ucast (of_nat d1 :: u8)) OR
               push_bit 6 (ucast (of_nat 0 :: u8)) OR ucast (of_nat 0 :: u8) :: u32
       in Some [ucast (drop_bit 16 v)])"
  using assms small_not_ff digit_decodes(2)
  by (simp_all add: base64_decode_quad_def digit_decodes(1) pad_decodes Let_def)

text \<open>A quad that the encoder wrote decodes to the one, two or three bytes it stands for.\<close>

lemma base64_decode_quad_b64:
  "base64_decode_quad (b64 [a, b, c] @ rest) = Some [a, b, c]"
  "base64_decode_quad (b64 [a, b] @ rest) = Some [a, b]"
  "base64_decode_quad (b64 [a] @ rest) = Some [a]"
proof -
  let ?n = "65536 * unat a + 256 * unat b + unat c"
  let ?q = "\<lambda>n. push_bit 18 (ucast (of_nat (n div 64 ^ 3) :: u8)) OR push_bit 12 (ucast (of_nat (n div 64 ^ 2 mod 64) :: u8))
      OR push_bit 6 (ucast (of_nat (n div 64 mod 64) :: u8)) OR ucast (of_nat (n mod 64) :: u8) :: u32"
  have n: "?n < 16777216" using unat_u8_le [of a] unat_u8_le [of b] unat_u8_le [of c] by linarith
  then have d: "?n div 64 ^ 3 < 64" by (simp add: div_less_iff_less_mult)
  have three: "unat (?q ?n) = ?n" by (rule quad_word [OF n])
  show "base64_decode_quad (b64 [a, b, c] @ rest) = Some [a, b, c]"
    using base64_decode_quad_digits(1) [OF d, of "?n div 64 ^ 2 mod 64" "?n div 64 mod 64" "?n mod 64" rest]
      quad_octets [OF three]
    by (simp only: b64.simps Let_def append.simps mod_less_divisor zero_less_numeral simp_thms)
next
  let ?m = "(256 * unat a + unat b) * 4"
  let ?n = "65536 * unat a + 256 * unat b + unat (0 :: u8)"
  have n: "?n = ?m * 64" by simp
  have lt: "?n < 16777216" using unat_u8_le [of a] unat_u8_le [of b] by simp
  note q = base64_shift [of ?m, folded n]
  have d: "?m div 64 ^ 2 < 64" using lt unfolding q(1) [symmetric] by (simp add: div_less_iff_less_mult)
  show "base64_decode_quad (b64 [a, b] @ rest) = Some [a, b]"
    using base64_decode_quad_digits(2) [OF d, of "?m div 64 mod 64" "?m mod 64" 0 rest]
      quad_octets [OF quad_word [OF lt, unfolded q]]
    by (simp only: b64.simps Let_def append.simps mod_less_divisor zero_less_numeral simp_thms)
next
  let ?m = "unat a * 16"
  let ?n = "65536 * unat a + 256 * unat (0 :: u8) + unat (0 :: u8)"
  have n: "?n = ?m * 64 * 64" by simp
  have lt: "?n < 16777216" using unat_u8_le [of a] by simp
  have "?m * 64 div 64 ^ 2 = ?m div 64" using div_mult_mult2 [of 64 ?m 64] by simp
  then have q: "?n div 64 ^ 3 = ?m div 64" "?n div 64 ^ 2 mod 64 = ?m mod 64" "?n div 64 mod 64 = 0" "?n mod 64 = 0"
    using base64_shift [of "?m * 64"] base64_shift [of ?m] unfolding n by simp_all
  have d: "?m div 64 < 64" using lt unfolding q(1) [symmetric] by (simp add: div_less_iff_less_mult)
  show "base64_decode_quad (b64 [a] @ rest) = Some [a]"
    using base64_decode_quad_digits(3) [OF d, of "?m mod 64" 0 0 rest]
      quad_octets [OF quad_word [OF lt, unfolded q]]
    by (simp only: b64.simps Let_def append.simps mod_less_divisor zero_less_numeral simp_thms)
qed

section \<open>The decoder as a function on the text\<close>

text \<open>
  \<open>b64_stream (q, eof) cs\<close>: the bytes that the text \<open>cs\<close> stands for when the characters \<open>q\<close> of an
  unfinished quad came before it and \<open>eof\<close> says that padding did; \<open>None\<close> if \<open>cs\<close> is malformed.
\<close>

fun b64_stream :: "bytes \<times> bool \<Rightarrow> bytes \<Rightarrow> ((bytes \<times> bool) \<times> bytes) option" where
  "b64_stream (q, eof) [] = Some ((q, eof), [])"
| "b64_stream (q, eof) (c # cs) =
     (if is_base64_space c then b64_stream (q, eof) cs
      else if base64_ascii_to_bin c = 0xff \<or> eof then None
      else if length q = 3 then
        (case base64_decode_quad (q @ [c]) of
           None \<Rightarrow> None
         | Some bs \<Rightarrow> map_option (\<lambda>(s, out). (s, bs @ out)) (b64_stream ([], length bs < 3) cs))
      else b64_stream (q @ [c], eof) cs)"

definition dec_holds :: "EVP_ENCODE_CTX \<Rightarrow> bytes \<times> bool \<Rightarrow> bool" where
  "dec_holds ctx s \<longleftrightarrow> \<not> error_encountered ctx \<and> data_used ctx = length (fst s) \<and> length (fst s) < 4 \<and>
     length (enc_data ctx) = 48 \<and> take (length (fst s)) (enc_data ctx) = fst s \<and> eof_seen ctx = snd s"

lemma base64_decode_quad_take: "4 \<le> length xs \<Longrightarrow> base64_decode_quad (take 4 xs) = base64_decode_quad xs"
proof -
  have "take 4 xs ! 0 = xs ! 0" "take 4 xs ! 1 = xs ! 1" "take 4 xs ! 2 = xs ! 2" "take 4 xs ! 3 = xs ! 3"
    by simp_all
  then show ?thesis unfolding base64_decode_quad_def by (simp only:)
qed

lemma base64_decode_quad_length: "base64_decode_quad q = Some bs \<Longrightarrow> bs \<noteq> [] \<and> length bs \<le> 3"
  by (auto simp: base64_decode_quad_def Let_def split: if_splits)

lemma b64_stream_append:
  "b64_stream s (xs @ ys) =
     (case b64_stream s xs of None \<Rightarrow> None
      | Some (s', out) \<Rightarrow> map_option (\<lambda>(s'', out'). (s'', out @ out')) (b64_stream s' ys))"
proof (induction s xs rule: b64_stream.induct)
  case (2 q eof c cs)
  then show ?case
    by (auto simp: option.map_comp comp_def case_prod_unfold split: option.splits)
qed (auto simp: option.map_ident option.map_id0 split: prod.splits)

lemma b64_stream_len:
  "b64_stream s cs = Some (s', out) \<Longrightarrow> length (fst s) < 4 \<Longrightarrow> length out \<le> 3 * ((length (fst s) + length cs) div 4)"
proof (induction s cs arbitrary: s' out rule: b64_stream.induct)
  case (2 q eof c cs)
  show ?case
  proof (cases "is_base64_space c")
    case True
    then have "length out \<le> 3 * ((length q + length cs) div 4)" using "2.IH"(1) [OF True] "2.prems" by auto
    also have "(length q + length cs) div 4 \<le> (length q + length (c # cs)) div 4" by (rule div_le_mono) simp
    finally show ?thesis by simp
  next
    case ns: False
    then have go: "\<not> (base64_ascii_to_bin c = 0xff \<or> eof)" using "2.prems"(1) by auto
    show ?thesis
    proof (cases "length q = 3")
      case True
      then obtain bs o' where b: "base64_decode_quad (q @ [c]) = Some bs" "b64_stream ([], length bs < 3) cs = Some (s', o')"
        "out = bs @ o'"
        using "2.prems"(1) ns go by (auto split: option.splits)
      then show ?thesis
        using "2.IH"(2) [OF ns go True b(1,2)] base64_decode_quad_length [OF b(1)] True
          div_add_self1 [of 4 "length cs"] by simp
    next
      case False
      then have "b64_stream (q @ [c], eof) cs = Some (s', out)" "length (q @ [c]) < 4"
        using "2.prems" ns go by auto
      then show ?thesis using "2.IH"(3) [OF ns go False] by simp
    qed
  qed
qed auto

lemma decode_update_loop_eq:
  assumes "dec_holds ctx s" "n + 3 * ((length (fst s) + length cs) div 4) \<le> length out"
  shows "case decode_update_loop ctx out n cs of
      (ctx', out', None) \<Rightarrow> b64_stream s cs = None \<and> length out' = length out
    | (ctx', out', Some m) \<Rightarrow>
        (\<exists>s' bs. b64_stream s cs = Some (s', bs) \<and> dec_holds ctx' s' \<and> m = n + length bs \<and> out' = blit out n bs)"
  using assms
proof (induction cs arbitrary: ctx s out n)
  case Nil
  then show ?case by (cases s) simp
next
  case (Cons c cs)
  obtain q eof where s: "s = (q, eof)" by fastforce
  have holds: "\<not> error_encountered ctx" "data_used ctx = length q" "length q < 4" "length (enc_data ctx) = 48"
    "take (length q) (enc_data ctx) = q" "eof_seen ctx = eof"
    using Cons.prems(1) by (simp_all add: dec_holds_def s)
  show ?case
  proof (cases "is_base64_space c")
    case True
    have room: "n + 3 * ((length (fst s) + length cs) div 4) \<le> length out"
    proof -
      have "(length (fst s) + length cs) div 4 \<le> (length (fst s) + length (c # cs)) div 4"
        by (rule div_le_mono) simp
      then show ?thesis using Cons.prems(2) by linarith
    qed
    show ?thesis
      using Cons.IH [OF Cons.prems(1) room] True unfolding s by (auto split: prod.splits option.splits)
  next
    case ns: False
    show ?thesis
    proof (cases "base64_ascii_to_bin c = 0xff \<or> eof")
      case True
      then show ?thesis using ns holds by (auto simp: s)
    next
      case go: False
      let ?ctx = "ctx\<lparr>enc_data := (enc_data ctx)[length q := c], data_used := length q + 1\<rparr>"
      have data: "take (length q + 1) ((enc_data ctx)[length q := c]) = q @ [c]"
        using holds by (simp add: take_Suc_conv_app_nth)
      show ?thesis
      proof (cases "length q = 3")
        case False
        have "dec_holds ?ctx (q @ [c], eof)"
          using False holds data by (simp add: dec_holds_def)
        note IH = Cons.IH [OF this, of n out]
        have e: "b64_stream s (c # cs) = b64_stream (q @ [c], eof) cs" using False go ns by (simp add: s)
        show ?thesis
          unfolding e using IH Cons.prems(2) False go ns holds by (auto simp: s split: prod.splits option.splits)
      next
        case True
        have quad: "base64_decode_quad ((enc_data ctx)[length q := c]) = base64_decode_quad (q @ [c])"
          using base64_decode_quad_take [of "(enc_data ctx)[length q := c]"] data True holds(4) by simp
        show ?thesis
        proof (cases "base64_decode_quad (q @ [c])")
          case None
          then show ?thesis using go ns holds True quad by (simp add: s)
        next
          case (Some bs)
          let ?ctx2 = "?ctx\<lparr>data_used := 0, eof_seen := (if length bs < 3 then True else eof)\<rparr>"
          have bs: "length bs \<le> 3" using base64_decode_quad_length [OF Some] by simp
          have room: "n + 3 + 3 * (length cs div 4) \<le> length out"
            using Cons.prems(2) True div_add_self1 [of 4 "length cs"] by (simp add: s)
          then have len: "length (blit out n bs) = length out" using bs by simp
          have h2: "dec_holds ?ctx2 ([], length bs < 3)"
            using holds go by (simp add: dec_holds_def)
          have room2: "n + length bs + 3 * ((length (fst ([] :: bytes, length bs < 3)) + length cs) div 4) \<le> length (blit out n bs)"
            using room bs by (simp add: len)
          have IH: "case decode_update_loop ?ctx2 (blit out n bs) (n + length bs) cs of
              (ctx', out', None) \<Rightarrow> b64_stream ([], length bs < 3) cs = None \<and> length out' = length out
            | (ctx', out', Some m) \<Rightarrow>
                (\<exists>s' bs'. b64_stream ([], length bs < 3) cs = Some (s', bs') \<and> dec_holds ctx' s' \<and>
                   m = n + length bs + length bs' \<and> out' = blit (blit out n bs) (n + length bs) bs')"
            by (rule Cons.IH [OF h2 room2, unfolded len])
          have step: "decode_update_loop ctx out n (c # cs) = decode_update_loop ?ctx2 (blit out n bs) (n + length bs) cs"
            using go ns holds True quad Some by (simp add: Let_def)
          have fits: "blit (blit out n bs) (n + length bs) bs' = blit out n (bs @ bs')"
            if "b64_stream ([], length bs < 3) cs = Some (s', bs')" for s' bs'
            using b64_stream_len [OF that] room bs by (intro blit_blit) simp
          show ?thesis
            unfolding step using IH go ns True Some fits
            by (auto simp: s split: prod.splits option.splits)
        qed
      qed
    qed
  qed
qed

section \<open>Decoding sessions\<close>

fun decode_session :: "bytes \<Rightarrow> EVP_ENCODE_CTX \<Rightarrow> bytes list \<Rightarrow> bytes option" where
  "decode_session out ctx [] = (if EVP_DecodeFinal ctx = - 1 then None else Some [])"
| "decode_session out ctx (c # cs) =
     (case EVP_DecodeUpdate ctx out c (length c) of
        (ctx', out', n, ret) \<Rightarrow>
          if ret = - 1 then None else map_option ((@) (take n out')) (decode_session out' ctx' cs))"

lemma EVP_DecodeInit_holds: "dec_holds EVP_DecodeInit ([], False)"
  by (simp add: dec_holds_def EVP_DecodeInit_def EVP_EncodeInit_def)

lemma decode_session_from:
  assumes "dec_holds ctx s"
    "\<forall>c\<in>set cs. 3 * ((3 + length c) div 4) \<le> length out \<and> 3 * ((3 + length c) div 4) \<le> INT_MAX"
  shows "decode_session out ctx cs =
    (case b64_stream s (concat cs) of None \<Rightarrow> None | Some (s', bs) \<Rightarrow> if fst s' = [] then Some bs else None)"
  using assms
proof (induction cs arbitrary: out ctx s)
  case Nil
  then show ?case by (cases s) (auto simp: EVP_DecodeFinal_def dec_holds_def)
next
  case (Cons c cs)
  have q: "length (fst s) < 4" "\<not> error_encountered ctx" using Cons.prems(1) by (simp_all add: dec_holds_def)
  have le: "(length (fst s) + length c) div 4 \<le> (3 + length c) div 4" using q by (intro div_le_mono) simp
  then have room: "0 + 3 * ((length (fst s) + length c) div 4) \<le> length out"
    using Cons.prems(2) by (auto intro: order_trans)
  obtain ctx' out' r where run: "decode_update_loop ctx out 0 c = (ctx', out', r)" by (metis prod_cases3)
  note L = decode_update_loop_eq [OF Cons.prems(1) room, unfolded run]
  show ?case
  proof (cases r)
    case None
    then show ?thesis using L q(2) run by (simp add: EVP_DecodeUpdate_def b64_stream_append)
  next
    case (Some m)
    then obtain s' bs where s': "b64_stream s c = Some (s', bs)" "dec_holds ctx' s'" "m = length bs" "out' = blit out 0 bs"
      using L by auto
    have len: "length bs \<le> 3 * ((length (fst s) + length c) div 4)"
      using b64_stream_len [OF s'(1)] q(1) by simp
    then have fits: "length bs \<le> length out" "length bs \<le> INT_MAX"
      using room le Cons.prems(2) by (auto intro: order_trans)
    have upd: "EVP_DecodeUpdate ctx out c (length c) = (ctx', out', m, if eof_seen ctx' then 0 else 1)"
      using run Some q(2) fits(2) s'(3) by (simp add: EVP_DecodeUpdate_def)
    have "length out' = length out" using s'(4) fits(1) by simp
    then have IH: "decode_session out' ctx' cs =
        (case b64_stream s' (concat cs) of None \<Rightarrow> None | Some (s'', bs') \<Rightarrow> if fst s'' = [] then Some bs' else None)"
      using Cons.IH [OF s'(2), of out'] Cons.prems(2) by simp
    have "take m out' = bs" using s'(3,4) fits(1) by (simp add: blit_def)
    then show ?thesis
      using upd IH s'(1) by (auto simp: b64_stream_append split: option.splits)
  qed
qed

lemma b64_chars: "c \<in> set (b64 xs) \<Longrightarrow> \<not> is_base64_space c \<and> base64_ascii_to_bin c \<noteq> 0xff"
proof -
  have d: "\<not> is_base64_space (digit k) \<and> base64_ascii_to_bin (digit k) \<noteq> 0xff" if "k < 64" for k
    using that digit_decodes small_not_ff by simp
  have p: "\<not> is_base64_space PAD \<and> base64_ascii_to_bin PAD \<noteq> 0xff"
    using pad_decodes by simp
  have *: "(65536 * unat a + 256 * unat b + unat c) div 64 ^ 3 < 64" "(256 * unat a + unat b) * 4 div 64 ^ 2 < 64"
    "unat a * 16 div 64 < 64" for a b c :: u8
  proof -
    have "65536 * unat a + 256 * unat b + unat c < 16777216" "256 * unat a + unat b < 65536" "unat a < 256"
      using unat_u8_le [of a] unat_u8_le [of b] unat_u8_le [of c] by linarith+
    then show "(65536 * unat a + 256 * unat b + unat c) div 64 ^ 3 < 64" "(256 * unat a + unat b) * 4 div 64 ^ 2 < 64"
      "unat a * 16 div 64 < 64"
      by (simp_all add: div_less_iff_less_mult)
  qed
  show "c \<in> set (b64 xs) \<Longrightarrow> \<not> is_base64_space c \<and> base64_ascii_to_bin c \<noteq> 0xff"
  proof (induction xs rule: b64.induct)
    case (2 a)
    then show ?case using d p *(3) by (auto simp only: b64.simps Let_def set_simps insert_iff empty_iff mod_less_divisor zero_less_numeral)
  next
    case (3 a b)
    then show ?case using d p *(2) by (auto simp only: b64.simps Let_def set_simps insert_iff empty_iff mod_less_divisor zero_less_numeral)
  next
    case (4 a b c' xs)
    then show ?case using d p *(1)
      by (auto simp only: b64.simps Let_def set_simps insert_iff empty_iff mod_less_divisor zero_less_numeral set_append Un_iff)
  qed simp
qed

lemma b64_stream_quad:
  assumes "length q = 4" "\<forall>c\<in>set q. \<not> is_base64_space c \<and> base64_ascii_to_bin c \<noteq> 0xff"
  shows "b64_stream ([], False) (q @ cs) =
    (case base64_decode_quad q of None \<Rightarrow> None
     | Some bs \<Rightarrow> map_option (\<lambda>(s, out). (s, bs @ out)) (b64_stream ([], length bs < 3) cs))"
proof -
  obtain a b c d where "q = [a, b, c, d]"
    using assms(1) by (auto simp: length_Suc_conv numeral_eq_Suc)
  then show ?thesis using assms(2) by simp
qed

lemma b64_stream_b64: "b64_stream ([], False) (b64 xs) = Some (([], length xs mod 3 \<noteq> 0), xs)"
proof (induction xs rule: b64.induct)
  case (2 a)
  show ?case
    using b64_stream_quad [of "b64 [a]" "[]"] b64_chars [of _ "[a]"] base64_decode_quad_b64(3) [of a "[]"]
      length_b64 [of "[a]"] by (simp del: b64.simps)
next
  case (3 a b)
  show ?case
    using b64_stream_quad [of "b64 [a, b]" "[]"] b64_chars [of _ "[a, b]"] base64_decode_quad_b64(2) [of a b "[]"]
      length_b64 [of "[a, b]"] by (simp del: b64.simps)
next
  case (4 a b c xs)
  have "b64 (a # b # c # xs) = b64 [a, b, c] @ b64 xs" by (simp add: Let_def)
  then show ?case
    using b64_stream_quad [of "b64 [a, b, c]" "b64 xs"] b64_chars [of _ "[a, b, c]"] base64_decode_quad_b64(1) [of a b c "[]"]
      length_b64 [of "[a, b, c]"] 4 by (simp del: b64.simps)
qed simp

lemma b64_stream_text: "b64_stream ([], False) (b64_text xs) = Some (([], length xs mod 3 \<noteq> 0), xs)"
proof (induction xs rule: b64_text.induct)
  case (1 xs)
  have nl: "is_base64_space NEWLINE" by (simp add: is_base64_space_def)
  show ?case
  proof (cases "length xs < 48")
    case True
    then show ?thesis
      using nl by (auto simp: b64_text.simps [of xs] b64_stream_append b64_stream_b64)
  next
    case False
    then have ne: "xs \<noteq> []" by auto
    have "length (take 48 xs) mod 3 = 0" using False by (simp add: min_absorb2)
    moreover have "length (drop 48 xs) mod 3 = length xs mod 3"
    proof -
      have "length xs = 3 * 16 + length (drop 48 xs)" using False by simp
      then show ?thesis by (simp only: mod_mult_self4)
    qed
    ultimately show ?thesis
      using 1 [OF ne] nl by (simp add: b64_text.simps [of xs] ne b64_stream_append b64_stream_b64)
  qed
qed

section \<open>Correctness\<close>

lemma not_fits_mult_4:
  fixes k :: nat
  assumes "\<not> 4 * k + 1 \<le> SIZE_MAX"
  shows "2 ^ 64 \<le> k * 4"
  using assms by simp

text \<open>The length function is exact and never wraps: it returns the size \<open>EVP_EncodeBlock\<close> needs, the
  terminator included, whenever a \<open>size_t\<close> can hold it, and fails otherwise.\<close>

theorem EVP_EncodedLength_correct:
  assumes "length xs \<le> SIZE_MAX"
  shows "EVP_EncodedLength (length xs) =
    (if length (b64 xs) + 1 \<le> SIZE_MAX then Some (length (b64 xs) + 1) else None)"
proof -
  let ?n = "length xs" and ?k = "(length xs + 2) div 3"
  have len: "length (b64 xs) = 4 * ?k" by (rule length_b64)
  show ?thesis
  proof (cases "?n + 2 \<le> SIZE_MAX")
    case False
    then have "size_add ?n 2 < ?n" using assms by (subst size_add_overflow_iff) simp_all
    moreover have "\<not> 4 * ?k + 1 \<le> SIZE_MAX" using False by presburger
    ultimately show ?thesis by (simp add: EVP_EncodedLength_def len)
  next
    case True
    show ?thesis
    proof (cases "4 * ?k + 1 \<le> SIZE_MAX")
      case fits: True
      then have "(?k * 4) mod 2 ^ 64 = ?k * 4" by (intro mod_less) simp
      then show ?thesis using True fits by (simp add: EVP_EncodedLength_def len Let_def)
    next
      case False
      then have "2 ^ 64 \<le> ?k * 4" by (rule not_fits_mult_4)
      moreover have "(?k * 4) mod 2 ^ 64 < 2 ^ 64" by simp
      ultimately have "(?k * 4) mod 2 ^ 64 < ?k * 4" by linarith
      then have "(?k * 4) mod 2 ^ 64 div 4 \<noteq> ?k" by linarith
      then show ?thesis using True False by (simp add: EVP_EncodedLength_def len)
    qed
  qed
qed

lemma EVP_EncodedLength_correct_witness: "EVP_EncodedLength (length [1, 2, 3, 4 :: u8]) = Some 9"
  using EVP_EncodedLength_correct [of "[1, 2, 3, 4]"] by (simp add: length_b64)

text \<open>\<open>EVP_EncodeBlock\<close> writes the RFC 4648 text of the input and a terminator, returns the length of the
  text, and touches nothing else: in a block of the length \<open>EVP_EncodedLength\<close> gives, all writes
  are inside.\<close>

theorem EVP_EncodeBlock_correct:
  assumes "n \<le> length src" "dst + length (b64 (take n src)) < length out"
  shows "EVP_EncodeBlock out dst src n =
    (take dst out @ b64 (take n src) @ 0 # drop (dst + length (b64 (take n src)) + 1) out, length (b64 (take n src)))"
  using EVP_EncodeBlock_eq [OF assms] by (simp add: blit_def)

lemma EVP_EncodeBlock_correct_witness:
  "EVP_EncodeBlock (replicate 10 9) 0 [77, 97] 2 = ([0x54, 0x57, 0x45, PAD, 0] @ replicate 5 9, 4)"
proof -
  have "b64 [77, 97] = [0x54, 0x57, 0x45, PAD]" by code_simp
  then show ?thesis
    using EVP_EncodeBlock_correct [of 2 "[77, 97]" 0 "replicate 10 9"] by simp
qed

text \<open>C17: streaming does not change the text. However the input is cut into chunks, the outputs of the updates
  and of the final call together are the text of the whole input in lines of 64 digits; the
  caller's block needs room for the lines that one call completes.\<close>

theorem encode_session_text:
  assumes "66 \<le> length out"
    "\<forall>c\<in>set cs. 65 * ((47 + length c) div 48) < length out \<and> 65 * ((47 + length c) div 48) \<le> INT_MAX"
  shows "encode_session out EVP_EncodeInit cs = b64_text (concat cs)"
  using encode_session_from [OF EVP_EncodeInit_holds assms] by simp

lemma encode_session_text_witness:
  "encode_session (replicate 70 0) EVP_EncodeInit [[77], [], [97]] = [0x54, 0x57, 0x45, PAD, NEWLINE]"
proof -
  have "b64_text [77, 97] = [0x54, 0x57, 0x45, PAD, NEWLINE]" by code_simp
  then show ?thesis using encode_session_text [of "replicate 70 0" "[[77], [], [97]]"] by simp
qed

text \<open>Streaming does not change what is decoded. However the text is cut into chunks, the calls
  succeed exactly when the whole text is well formed and complete, and together they deliver
  the bytes it stands for; white space is skipped, and nothing but white space may follow padding.\<close>

theorem decode_session_stream:
  assumes "\<forall>c\<in>set cs. 3 * ((3 + length c) div 4) \<le> length out \<and> 3 * ((3 + length c) div 4) \<le> INT_MAX"
  shows "decode_session out EVP_DecodeInit cs =
    (case b64_stream ([], False) (concat cs) of
       None \<Rightarrow> None | Some (s, bs) \<Rightarrow> if fst s = [] then Some bs else None)"
  by (rule decode_session_from [OF EVP_DecodeInit_holds assms])

lemma decode_session_stream_witness:
  "decode_session [0, 0, 0] EVP_DecodeInit [[0x54, 0x57], [0x20, 0x45], [PAD]] = Some [77, 97]"
proof -
  have "b64_stream ([], False) [0x54, 0x57, 0x20, 0x45, PAD] = Some (([], True), [77, 97])" by code_simp
  then show ?thesis using decode_session_stream [of "[[0x54, 0x57], [0x20, 0x45], [PAD]]" "[0, 0, 0]"] by simp
qed

text \<open>C18: decoding inverts encoding. The output of an encoding session, cut into chunks in any way, is
  accepted by a decoding session, which returns the bytes that were encoded.\<close>

theorem base64_stream_roundtrip:
  assumes "66 \<le> length out"
    "\<forall>c\<in>set cs. 65 * ((47 + length c) div 48) < length out \<and> 65 * ((47 + length c) div 48) \<le> INT_MAX"
    "concat ds = encode_session out EVP_EncodeInit cs"
    "\<forall>c\<in>set ds. 3 * ((3 + length c) div 4) \<le> length out2 \<and> 3 * ((3 + length c) div 4) \<le> INT_MAX"
  shows "decode_session out2 EVP_DecodeInit ds = Some (concat cs)"
proof -
  have "encode_session out EVP_EncodeInit cs = b64_text (concat cs)"
    using encode_session_from [OF EVP_EncodeInit_holds assms(1,2)] by simp
  then show ?thesis
    using decode_session_from [OF EVP_DecodeInit_holds assms(4)] assms(3) by (simp add: b64_stream_text)
qed

lemma base64_stream_roundtrip_witness:
  "decode_session [0, 0, 0] EVP_DecodeInit [[0x54, 0x57, 0x45], [PAD, NEWLINE]] = Some [77, 97]"
proof -
  have "encode_session (replicate 70 0) EVP_EncodeInit [[77], [97]] = [0x54, 0x57, 0x45, PAD, NEWLINE]" by code_simp
  then show ?thesis
    using base64_stream_roundtrip [of "replicate 70 0" "[[77], [97]]" "[[0x54, 0x57, 0x45], [PAD, NEWLINE]]" "[0, 0, 0]"]
    by simp
qed

section \<open>Decoding in one call\<close>

lemma add_3_nat: "Suc (Suc (Suc n)) = n + 3"
  by simp

lemma decode_base64_loop_b64:
  assumes "pos + length xs \<le> length out"
  shows "decode_base64_loop out pos (b64 xs @ rest) ((length xs + 2) div 3) = (blit out pos xs, Some (pos + length xs))"
  using assms
proof (induction xs arbitrary: out pos rest rule: b64.induct)
  case 1
  then show ?case by simp
next
  case (2 a)
  then show ?case by (simp add: base64_decode_quad_b64 del: b64.simps)
next
  case (3 a b)
  then show ?case by (simp add: base64_decode_quad_b64 del: b64.simps)
next
  case (4 a b c xs)
  define k where "k = (length xs + 2) div 3"
  have quads: "(length (a # b # c # xs) + 2) div 3 = Suc k" by (simp add: k_def)
  have split: "b64 (a # b # c # xs) @ rest = b64 [a, b, c] @ b64 xs @ rest" by (simp add: Let_def)
  have four: "drop 4 (b64 [a, b, c] @ b64 xs @ rest) = b64 xs @ rest" by (simp add: Let_def)
  have "decode_base64_loop (blit out pos [a, b, c]) (pos + 3) (b64 xs @ rest) k =
      (blit (blit out pos [a, b, c]) (pos + 3) xs, Some (pos + 3 + length xs))"
    unfolding k_def using 4 by simp
  moreover have "blit (blit out pos [a, b, c]) (pos + 3) xs = blit out pos (a # b # c # xs)"
    using blit_blit [of pos "[a, b, c]" xs out] 4(2) by (simp add: numeral_3_eq_3)
  ultimately show ?case
    unfolding quads split
    by (simp add: base64_decode_quad_b64 four add_3_nat del: b64.simps drop_append)
qed

text \<open>C19: \<open>EVP_DecodeBase64\<close> undoes \<open>EVP_EncodeBlock\<close>: given the text and a block of the size
  \<open>EVP_DecodedLength\<close> asks for, it writes the original bytes at the front of the block and returns their
  number.\<close>

theorem base64_block_roundtrip:
  assumes "length xs \<le> length src" "dst + length (b64 xs) < length text_block"
    "xs = take (length xs) src" "3 * ((length xs + 2) div 3) \<le> max_out" "max_out \<le> length out"
    "EVP_EncodeBlock text_block dst src (length xs) = (written, n)"
  shows "EVP_DecodeBase64 out max_out (drop dst written) n = (xs @ drop (length xs) out, Some (length xs))"
proof -
  have take_xs: "take (length xs) src = xs" using assms(3) by simp
  have w: "written = take dst text_block @ b64 xs @ 0 # drop (dst + length (b64 xs) + 1) text_block"
    and n: "n = length (b64 xs)"
    using EVP_EncodeBlock_eq [OF assms(1), of dst text_block] assms(2,6) unfolding take_xs by (simp_all add: blit_def)
  have dr: "drop dst written = b64 xs @ 0 # drop (dst + length (b64 xs) + 1) text_block"
    using assms(2) unfolding w by simp
  define k where "k = (length xs + 2) div 3"
  have "length xs \<le> 3 * k" unfolding k_def by presburger
  then have fit: "0 + length xs \<le> length out" using assms(4,5) unfolding k_def by linarith
  have "n = 4 * k" unfolding n k_def by (rule length_b64)
  moreover have "3 * k \<le> max_out" using assms(4) unfolding k_def .
  ultimately have "EVP_DecodeBase64 out max_out (drop dst written) n = decode_base64_loop out 0 (drop dst written) k"
    by (simp add: EVP_DecodeBase64_def EVP_DecodedLength_def)
  then show ?thesis
    using decode_base64_loop_b64 [OF fit, of "0 # drop (dst + length (b64 xs) + 1) text_block"] fit
    unfolding dr k_def by (simp add: blit_def)
qed

lemma base64_block_roundtrip_witness:
  "EVP_DecodeBase64 [9, 9, 9] 3 (drop 0 [0x54, 0x57, 0x45, PAD, 0]) 4 = ([77, 97] @ drop 2 [9, 9, 9], Some 2)"
proof -
  have b: "b64 [77, 97] = [0x54, 0x57, 0x45, PAD]" by code_simp
  have "EVP_EncodeBlock (replicate 5 0) 0 [77, 97] 2 = ([0x54, 0x57, 0x45, PAD, 0], 4)" by code_simp
  then show ?thesis
    using base64_block_roundtrip [of "[77, 97]" "[77, 97]" 0 "replicate 5 0" 3 "[9, 9, 9]"
        "[0x54, 0x57, 0x45, PAD, 0]" 4]
    unfolding b by (simp add: numeral_2_eq_2)
qed

lemma mod_3_cases: "\<exists>q. n = 3 * q \<or> n = 3 * q + 1 \<or> n = 3 * q + (2 :: nat)"
  by presburger

lemma trim_end_spaces:
  assumes "length xs \<le> n" "n \<le> length src" "\<forall>i. length xs \<le> i \<and> i < n \<longrightarrow> is_base64_space (src ! i)"
    "xs \<noteq> []" "\<not> is_base64_space (src ! (length xs - 1))"
  shows "trim_end src n = length xs"
  using assms
proof (induction n)
  case (Suc n)
  show ?case
  proof (cases "length xs \<le> n")
    case True
    then show ?thesis using Suc by simp
  next
    case False
    then have "length xs = Suc n" using Suc.prems by simp
    then show ?thesis using Suc.prems by simp
  qed
qed simp

lemma pad_to_3_eq:
  assumes "n + (3 - n mod 3) mod 3 \<le> length dst"
  shows "pad_to_3 dst n = (blit dst n (replicate ((3 - n mod 3) mod 3) 0), n + (3 - n mod 3) mod 3)"
proof -
  have one: "pad_to_3 dst n = (blit dst n [0], Suc n)" if "n mod 3 = 2" "Suc n \<le> length dst" for dst n
    using that by (subst pad_to_3.simps, subst pad_to_3.simps) (simp add: mod_Suc)
  consider "n mod 3 = 0" | "n mod 3 = 1" | "n mod 3 = 2" by linarith
  then show ?thesis
  proof cases
    case 1
    then show ?thesis by (subst pad_to_3.simps) simp
  next
    case 2
    then have "pad_to_3 (blit dst n [0]) (Suc n) = (blit (blit dst n [0]) (Suc n) [0], Suc (Suc n))"
      using assms by (intro one) (simp_all add: mod_Suc)
    moreover have "blit (blit dst n [0]) (Suc n) [0] = blit dst n [0, 0]"
      using blit_blit [of n "[0]" "[0]" dst] assms 2 by simp
    ultimately show ?thesis using 2 by (subst pad_to_3.simps) (simp add: numeral_2_eq_2)
  next
    case 3
    then show ?thesis using one [OF 3] assms by simp
  qed
qed

lemma padding_length: "(3 - n mod 3) mod 3 = 3 * ((n + 2) div 3) - (n :: nat) \<and> n \<le> 3 * ((n + 2) div 3)"
proof -
  obtain q where "n = 3 * q \<or> n = 3 * q + 1 \<or> n = 3 * q + 2" by (metis mod_3_cases)
  then show ?thesis by (elim disjE) (simp_all add: mod_Suc)
qed

lemma length_takeWhile_append_stop:
  "list_all P xs \<Longrightarrow> ys \<noteq> [] \<Longrightarrow> \<not> P (hd ys) \<Longrightarrow> takeWhile P (xs @ ys @ zs) = xs"
  by (cases ys) (auto simp: list_all_iff takeWhile_append)

text \<open>What \<open>EVP_DecodeBlock\<close> returns for a text between blanks: the blanks are trimmed, and the bytes are
  filled with zeros to whole quads, so the length it returns counts the padding too.\<close>

theorem EVP_DecodeBlock_padded:
  assumes "list_all is_base64_lead lead" "list_all is_base64_space trail" "xs \<noteq> []"
    "3 * ((length xs + 2) div 3) \<le> length dst" "3 * ((length xs + 2) div 3) \<le> INT_MAX"
    "src = lead @ b64 xs @ trail"
  shows "EVP_DecodeBlock dst src (length src) =
    (xs @ replicate (3 * ((length xs + 2) div 3) - length xs) 0 @ drop (3 * ((length xs + 2) div 3)) dst,
     int (3 * ((length xs + 2) div 3)))"
proof -
  define k where "k = (length xs + 2) div 3"
  note pad = padding_length [of "length xs", folded k_def, THEN conjunct1]
    padding_length [of "length xs", folded k_def, THEN conjunct2]
  have len: "length (b64 xs) = 4 * k" unfolding k_def by (rule length_b64)
  have "0 < k" using assms(3) unfolding k_def by (simp add: Suc_leI div_greater_zero_iff)
  then have ne: "b64 xs \<noteq> []" using len by auto
  have plain: "\<not> is_base64_space c" if "c \<in> set (b64 xs)" for c using b64_chars [OF that] ..
  have "\<not> is_base64_lead (hd (b64 xs))"
    using plain [OF hd_in_set [OF ne]] by (auto simp: is_base64_lead_def is_base64_space_def)
  then have tw: "takeWhile is_base64_lead src = lead"
    unfolding assms(6) by (rule length_takeWhile_append_stop [OF assms(1) ne])
  have trim: "trim_end (b64 xs @ trail) (length (b64 xs @ trail)) = length (b64 xs)"
  proof (rule trim_end_spaces)
    show "\<forall>i. length (b64 xs) \<le> i \<and> i < length (b64 xs @ trail) \<longrightarrow> is_base64_space ((b64 xs @ trail) ! i)"
      using assms(2) by (auto simp: nth_append list_all_length)
    show "\<not> is_base64_space ((b64 xs @ trail) ! (length (b64 xs) - 1))"
      using plain [of "b64 xs ! (length (b64 xs) - 1)"] ne by (simp add: nth_append)
  qed (use ne in simp_all)
  have fit: "0 + length xs \<le> length dst" using pad(2) assms(4) unfolding k_def by linarith
  have dec: "EVP_DecodeBase64 dst (3 * k) (b64 xs @ trail) (4 * k) = (blit dst 0 xs, Some (length xs))"
    using decode_base64_loop_b64 [OF fit, of trail] by (simp add: EVP_DecodeBase64_def EVP_DecodedLength_def k_def)
  have "length xs + (3 * k - length xs) \<le> length (blit dst 0 xs)"
    using pad(2) assms(4) fit unfolding k_def by simp
  then have p3: "pad_to_3 (blit dst 0 xs) (length xs) = (blit (blit dst 0 xs) (length xs) (replicate (3 * k - length xs) 0), 3 * k)"
    using pad_to_3_eq [of "length xs" "blit dst 0 xs"] pad by simp
  have "blit (blit dst 0 xs) (0 + length xs) (replicate (3 * k - length xs) 0) = blit dst 0 (xs @ replicate (3 * k - length xs) 0)"
    using pad(2) assms(4) unfolding k_def by (intro blit_blit) simp
  moreover have "\<not> INT_MAX < 3 * k" using assms(5) unfolding k_def by simp
  moreover have "drop (length lead) src = b64 xs @ trail" "length src - length lead = length (b64 xs @ trail)"
    using assms(6) by simp_all
  ultimately show ?thesis
    using dec p3 pad(2) trim tw len unfolding k_def [symmetric]
    by (simp add: EVP_DecodeBlock_def EVP_DecodedLength_def blit_def Let_def mult.commute [of 3 k])
qed

lemma EVP_DecodeBlock_padded_witness:
  "EVP_DecodeBlock [9, 9, 9, 9] [0x20, 0x54, 0x57, 0x45, PAD, 0x0a] 6 = ([77, 97, 0, 9], 3)"
proof -
  have quad: "b64 [77, 97] = [0x54, 0x57, 0x45, PAD]" by code_simp
  have six: "length [0x20, 0x54, 0x57, 0x45, PAD, 0x0a] = 6" by simp
  show ?thesis
    using EVP_DecodeBlock_padded [of "[0x20]" "[0x0a]" "[77, 97]" "[9, 9, 9, 9]" "[0x20, 0x54, 0x57, 0x45, PAD, 0x0a]"]
    unfolding six quad by (simp add: is_base64_lead_def is_base64_space_def)
qed


end
