(* ===== verification/Stack.thy ===== *)
theory Stack
  imports Prelude "HOL-Library.Multiset"
begin

text \<open>
  The stacks of \<open>crypto/stack/stack.c\<close>: growable arrays of pointers with an optional comparison
  function. A pointer is \<open>None\<close> when it is \<open>NULL\<close>; a comparison function is a name \<open>'f\<close> (function
  pointers are compared, by \<open>sk_set_cmp_func\<close>) whose meaning the argument \<open>ap\<close> gives. The cells of a block
  that \<open>OPENSSL_realloc\<close> adds hold whatever the argument \<open>junk\<close> says. \<open>qsort\<close> and \<open>bsearch\<close> are the
  C library's: the operations take them as arguments \<open>qs\<close> and \<open>bs\<close>, the locale \<open>c_search\<close> states
  what the C standard promises of them, and \<open>c_qsort\<close> and \<open>c_bsearch\<close> are an implementation.
\<close>

section \<open>The operations\<close>

type_synonym 'p cmp = "'p option \<Rightarrow> 'p option \<Rightarrow> int"

record ('p, 'f) stack =
  num :: nat
  data :: "'p option list"
  is_sorted :: bool
  num_alloc :: nat
  comp :: "'f option"

definition kMinSize :: nat where
  "kMinSize = 4"

text \<open>\<open>sizeof(void *)\<close>, and the size in bytes of an array of \<open>n\<close> pointers, as \<open>size_t\<close> arithmetic
  computes it.\<close>

definition ptrs_size :: "nat \<Rightarrow> nat" where
  "ptrs_size n = (n * 8) mod 2 ^ 64"

text \<open>Two allocations: the struct and the array, which is cleared.\<close>

definition sk_new :: "'f option \<Rightarrow> env \<Rightarrow> ('p, 'f) stack option \<times> env" where
  "sk_new cmp e =
     (if \<not> malloc_ok e then (None, tick e)
      else if \<not> malloc_ok (tick e) then (None, tick (tick e))
      else (Some \<lparr>num = 0, data = replicate kMinSize None, is_sorted = False, num_alloc = kMinSize, comp = cmp\<rparr>,
            tick (tick e)))"

definition sk_new_null :: "env \<Rightarrow> ('p, 'f) stack option \<times> env" where
  "sk_new_null = sk_new None"

fun sk_num :: "('p, 'f) stack option \<Rightarrow> nat" where
  "sk_num None = 0"
| "sk_num (Some sk) = num sk"

fun sk_zero :: "('p, 'f) stack option \<Rightarrow> ('p, 'f) stack option" where
  "sk_zero None = None"
| "sk_zero (Some sk) =
     (if num sk = 0 then Some sk
      else Some (sk\<lparr>data := blit (data sk) 0 (replicate (num sk) None), num := 0, is_sorted := False\<rparr>))"

fun sk_value :: "('p, 'f) stack option \<Rightarrow> nat \<Rightarrow> 'p option" where
  "sk_value None i = None"
| "sk_value (Some sk) i = (if i \<ge> num sk then None else data sk ! i)"

fun sk_set :: "('p, 'f) stack option \<Rightarrow> nat \<Rightarrow> 'p option \<Rightarrow> 'p option \<times> ('p, 'f) stack option" where
  "sk_set None i value = (None, None)"
| "sk_set (Some sk) i value =
     (if i \<ge> num sk then (None, Some sk) else (value, Some (sk\<lparr>data := (data sk)[i := value]\<rparr>)))"

text \<open>\<open>sk_pop_free\<close> passes the pointers to \<open>func\<close>, whose effect is a change of a state \<open>'s\<close>, and frees
  the stack.\<close>

fun sk_pop_free :: "('p, 'f) stack option \<Rightarrow> ('p \<Rightarrow> 's \<Rightarrow> 's) \<Rightarrow> 's \<Rightarrow> 's" where
  "sk_pop_free None func s = s"
| "sk_pop_free (Some sk) func s =
     fold (\<lambda>i s. case data sk ! i of None \<Rightarrow> s | Some p \<Rightarrow> func p s) [0..<num sk] s"

text \<open>The size to which \<open>sk_insert\<close> grows the array, or \<open>None\<close> when it gives up.\<close>

definition grown_alloc :: "nat \<Rightarrow> nat option" where
  "grown_alloc n =
     (let fits = (\<lambda>new. \<not> (new < n \<or> ptrs_size new div 8 \<noteq> new));
          doubled = (2 * n) mod 2 ^ 64;
          new = (if fits doubled then doubled else size_add n 1)
      in if fits new then Some new else None)"

text \<open>\<open>sk_insert\<close> without the test for \<open>NULL\<close>: it makes room, and then moves the pointers up.\<close>

definition sk_insert_at :: "('p, 'f) stack \<Rightarrow> 'p option \<Rightarrow> nat \<Rightarrow> nat \<times> ('p, 'f) stack" where
  "sk_insert_at sk p pos =
     (let d = (if pos \<ge> num sk then (data sk)[num sk := p]
               else (blit (data sk) (pos + 1) (take (num sk - pos) (drop pos (data sk))))[pos := p])
      in (num sk + 1, sk\<lparr>data := d, num := num sk + 1, is_sorted := False\<rparr>))"

fun sk_insert ::
  "(nat \<Rightarrow> 'p option) \<Rightarrow> ('p, 'f) stack option \<Rightarrow> 'p option \<Rightarrow> nat \<Rightarrow> env \<Rightarrow> (nat \<times> ('p, 'f) stack option) \<times> env"
where
  "sk_insert junk None p pos e = ((0, None), e)"
| "sk_insert junk (Some sk) p pos e =
     (if num_alloc sk \<le> num sk + 1 then
        (case grown_alloc (num_alloc sk) of
           None \<Rightarrow> ((0, Some sk), e)
         | Some new_alloc \<Rightarrow>
             if \<not> malloc_ok e then ((0, Some sk), tick e)
             else (map_prod id Some
                     (sk_insert_at (sk\<lparr>data := data sk @ map junk [num_alloc sk..<new_alloc], num_alloc := new_alloc\<rparr>) p pos),
                   tick e))
      else (map_prod id Some (sk_insert_at sk p pos), e))"

fun sk_delete :: "('p, 'f) stack option \<Rightarrow> nat \<Rightarrow> 'p option \<times> ('p, 'f) stack option" where
  "sk_delete None i = (None, None)"
| "sk_delete (Some sk) i =
     (if i \<ge> num sk then (None, Some sk)
      else
        let d = (if i \<noteq> num sk - 1 then blit (data sk) i (take (num sk - i - 1) (drop (i + 1) (data sk))) else data sk)
        in (data sk ! i, Some (sk\<lparr>data := d, num := num sk - 1\<rparr>)))"

text \<open>The first index from \<open>i\<close> on, below \<open>n\<close>, at which the array holds the pointer \<open>p\<close>.\<close>

fun ptr_index :: "'p option list \<Rightarrow> nat \<Rightarrow> nat \<Rightarrow> 'p option \<Rightarrow> nat option" where
  "ptr_index (q # qs) i n p = (if i < n then if q = p then Some i else ptr_index qs (i + 1) n p else None)"
| "ptr_index [] i n p = None"

fun sk_delete_ptr :: "('p, 'f) stack option \<Rightarrow> 'p option \<Rightarrow> 'p option \<times> ('p, 'f) stack option" where
  "sk_delete_ptr None p = (None, None)"
| "sk_delete_ptr (Some sk) p =
     (case ptr_index (data sk) 0 (num sk) p of
        None \<Rightarrow> (None, Some sk)
      | Some i \<Rightarrow> sk_delete (Some sk) i)"

definition sk_sort ::
  "('p cmp \<Rightarrow> 'p option list \<Rightarrow> 'p option list) \<Rightarrow> ('f \<Rightarrow> 'p cmp) \<Rightarrow> ('p, 'f) stack option \<Rightarrow> ('p, 'f) stack option"
where
  "sk_sort qs ap osk =
     (case osk of
        None \<Rightarrow> None
      | Some sk \<Rightarrow>
          (case comp sk of
             None \<Rightarrow> Some sk
           | Some c \<Rightarrow>
               if is_sorted sk then Some sk
               else Some (sk\<lparr>data := blit (data sk) 0 (qs (ap c) (take (num sk) (data sk))), is_sorted := True\<rparr>)))"

text \<open>From the index \<open>idx\<close> of a match back to the first of the matches before it.\<close>

fun first_equal :: "'p cmp \<Rightarrow> 'p option \<Rightarrow> 'p option list \<Rightarrow> nat \<Rightarrow> nat" where
  "first_equal cmp p d 0 = 0"
| "first_equal cmp p d (Suc idx) = (if cmp p (d ! idx) = 0 then first_equal cmp p d idx else Suc idx)"

text \<open>\<open>sk_find\<close> returns \<open>*out_index\<close>, or \<open>None\<close> for 0; it sorts the stack on the way.\<close>

definition sk_find ::
  "('p cmp \<Rightarrow> 'p option list \<Rightarrow> 'p option list) \<Rightarrow> ('p cmp \<Rightarrow> 'p option \<Rightarrow> 'p option list \<Rightarrow> nat option) \<Rightarrow>
   ('f \<Rightarrow> 'p cmp) \<Rightarrow> ('p, 'f) stack option \<Rightarrow> 'p option \<Rightarrow> nat option \<times> ('p, 'f) stack option"
where
  "sk_find qs bs ap osk p =
     (case osk of
        None \<Rightarrow> (None, None)
      | Some sk \<Rightarrow>
          (case comp sk of
             None \<Rightarrow> (ptr_index (data sk) 0 (num sk) p, Some sk)
           | Some c \<Rightarrow>
               if p = None then (None, Some sk)
               else
                 (case sk_sort qs ap (Some sk) of
                    None \<Rightarrow> (None, None)
                  | Some sk' \<Rightarrow>
                      (case bs (ap c) p (take (num sk') (data sk')) of
                         None \<Rightarrow> (None, Some sk')
                       | Some r \<Rightarrow> (Some (first_equal (ap c) p (data sk') r), Some sk')))))"

fun sk_shift :: "('p, 'f) stack option \<Rightarrow> 'p option \<times> ('p, 'f) stack option" where
  "sk_shift None = (None, None)"
| "sk_shift (Some sk) = (if num sk = 0 then (None, Some sk) else sk_delete (Some sk) 0)"

definition sk_push ::
  "(nat \<Rightarrow> 'p option) \<Rightarrow> ('p, 'f) stack option \<Rightarrow> 'p option \<Rightarrow> env \<Rightarrow> (nat \<times> ('p, 'f) stack option) \<times> env"
where
  "sk_push junk osk p = sk_insert junk osk p (sk_num osk)"

fun sk_pop :: "('p, 'f) stack option \<Rightarrow> 'p option \<times> ('p, 'f) stack option" where
  "sk_pop None = (None, None)"
| "sk_pop (Some sk) = (if num sk = 0 then (None, Some sk) else sk_delete (Some sk) (num sk - 1))"

fun sk_dup :: "(nat \<Rightarrow> 'p option) \<Rightarrow> ('p, 'f) stack option \<Rightarrow> env \<Rightarrow> ('p, 'f) stack option \<times> env" where
  "sk_dup junk None e = (None, e)"
| "sk_dup junk (Some sk) e =
     (case sk_new (comp sk) e of
        (None, e') \<Rightarrow> (None, e')
      | (Some ret, e') \<Rightarrow>
          if \<not> malloc_ok e' then (None, tick e')
          else
            let s = take (num_alloc sk) (data ret) @ map junk [length (data ret)..<num_alloc sk]
            in (Some (ret\<lparr>data := blit s 0 (take (num sk) (data sk)), num := num sk, is_sorted := is_sorted sk,
                         num_alloc := num_alloc sk, comp := comp sk\<rparr>), tick e'))"

fun sk_is_sorted :: "('p, 'f) stack option \<Rightarrow> bool" where
  "sk_is_sorted None = True"
| "sk_is_sorted (Some sk) = is_sorted sk"

definition sk_set_cmp_func :: "('p, 'f) stack \<Rightarrow> 'f option \<Rightarrow> 'f option \<times> ('p, 'f) stack" where
  "sk_set_cmp_func sk cmp =
     (comp sk, (if comp sk \<noteq> cmp then sk\<lparr>is_sorted := False\<rparr> else sk)\<lparr>comp := cmp\<rparr>)"

text \<open>The loop of \<open>sk_deep_copy\<close> at index \<open>i\<close>. When \<open>copy_func\<close> fails there, the copies before \<open>i\<close> are
  freed again; the state \<open>'s\<close> is the one \<open>copy_func\<close> and \<open>free_func\<close> act on.\<close>

function deep_copy_loop ::
  "('p \<Rightarrow> 's \<Rightarrow> 'p option \<times> 's) \<Rightarrow> ('p \<Rightarrow> 's \<Rightarrow> 's) \<Rightarrow> ('p, 'f) stack \<Rightarrow> nat \<Rightarrow> 's \<Rightarrow> ('p, 'f) stack option \<times> 's"
where
  "deep_copy_loop copy_func free_func ret i s =
     (if i < num ret then
        (case data ret ! i of
           None \<Rightarrow> deep_copy_loop copy_func free_func ret (i + 1) s
         | Some p \<Rightarrow>
             (case copy_func p s of
                (None, s') \<Rightarrow>
                  (None, fold (\<lambda>j s. case data ret ! j of None \<Rightarrow> s | Some q \<Rightarrow> free_func q s) [0..<i] s')
              | (Some q, s') \<Rightarrow>
                  deep_copy_loop copy_func free_func (ret\<lparr>data := (data ret)[i := Some q]\<rparr>) (i + 1) s'))
      else (Some ret, s))"
  by pat_completeness auto
termination by (relation "measure (\<lambda>(copy_func, free_func, ret, i, s). num ret - i)") auto

declare deep_copy_loop.simps [simp del]

definition sk_deep_copy ::
  "(nat \<Rightarrow> 'p option) \<Rightarrow> ('p, 'f) stack option \<Rightarrow> ('p \<Rightarrow> 's \<Rightarrow> 'p option \<times> 's) \<Rightarrow> ('p \<Rightarrow> 's \<Rightarrow> 's) \<Rightarrow> env \<times> 's \<Rightarrow>
   ('p, 'f) stack option \<times> env \<times> 's"
where
  "sk_deep_copy junk osk copy_func free_func = (\<lambda>(e, s).
     (case sk_dup junk osk e of
        (None, e') \<Rightarrow> (None, e', s)
      | (Some ret, e') \<Rightarrow>
          (case deep_copy_loop copy_func free_func ret 0 s of (r, s') \<Rightarrow> (r, e', s'))))"

section \<open>A stack as a list\<close>

text \<open>The pointers of a stack, and the shape that every operation keeps: the array has
  \<open>num_alloc\<close> cells and a free one after the last pointer, and its size fits a \<open>size_t\<close>.\<close>

definition elems :: "('p, 'f) stack \<Rightarrow> 'p option list" where
  "elems sk = take (num sk) (data sk)"

definition stack_ok :: "('p, 'f) stack \<Rightarrow> bool" where
  "stack_ok sk \<longleftrightarrow> num sk < num_alloc sk \<and> length (data sk) = num_alloc sk \<and>
     kMinSize \<le> num_alloc sk \<and> num_alloc sk < 2 ^ 61"

lemma stack_okD:
  assumes "stack_ok sk"
  shows "num sk < num_alloc sk" "length (data sk) = num_alloc sk" "num_alloc sk < 2 ^ 61"
    "length (elems sk) = num sk" "kMinSize \<le> num_alloc sk"
  using assms by (simp_all add: stack_ok_def elems_def)

lemma elems_nth: "i < num sk \<Longrightarrow> elems sk ! i = data sk ! i"
  by (simp add: elems_def)

lemma grown_alloc_eq:
  assumes "0 < n" "n < 2 ^ 61"
  shows "grown_alloc n = (if 2 * n < 2 ^ 61 then Some (2 * n) else if n + 1 < 2 ^ 61 then Some (n + 1) else None)"
proof -
  have fits: "ptrs_size m div 8 = m \<longleftrightarrow> m < 2 ^ 61" for m
  proof (cases "m < 2 ^ 61")
    case True
    then have "(m * 8) mod 2 ^ 64 = m * 8" by (intro mod_less) simp
    then show ?thesis using True by (simp add: ptrs_size_def)
  next
    case False
    have "ptrs_size m < 2 ^ 64" by (simp add: ptrs_size_def)
    then have "ptrs_size m div 8 < 2 ^ 61" by (simp add: div_less_iff_less_mult)
    then show ?thesis using False by linarith
  qed
  have "(2 * n) mod 2 ^ 64 = 2 * n" using assms by (intro mod_less) simp
  moreover have "size_add n 1 = n + 1" using assms by simp
  ultimately show ?thesis using assms fits by (simp add: grown_alloc_def)
qed

lemma sk_new_ok:
  assumes "sk_new cmp e = (Some sk, e')"
  shows "stack_ok sk" "elems sk = []" "comp sk = cmp" "\<not> is_sorted sk"
  using assms by (auto simp: sk_new_def stack_ok_def elems_def kMinSize_def split: if_splits)

text \<open>With room for one more pointer, the insertion is one of the list.\<close>

lemma take_blit_shift:
  assumes "i < n" "n < length d"
  shows "take (Suc n) ((blit d (i + 1) (take (n - i) (drop i d)))[i := p]) = take i d @ p # drop i (take n d)"
proof (rule nth_equalityI)
  show "length (take (Suc n) ((blit d (i + 1) (take (n - i) (drop i d)))[i := p])) = length (take i d @ p # drop i (take n d))"
    using assms by simp
next
  fix k
  assume "k < length (take (Suc n) ((blit d (i + 1) (take (n - i) (drop i d)))[i := p]))"
  then have k: "k < Suc n" using assms by simp
  consider "k < i" | "k = i" | "i < k" by linarith
  then show "take (Suc n) ((blit d (i + 1) (take (n - i) (drop i d)))[i := p]) ! k = (take i d @ p # drop i (take n d)) ! k"
  proof cases
    case 1
    then show ?thesis using assms k by (simp add: nth_append nth_blit)
  next
    case 2
    then show ?thesis using assms k by (simp add: nth_append)
  next
    case 3
    then obtain j where "k = Suc (i + j)" using less_imp_Suc_add by blast
    then show ?thesis using assms k by (simp add: nth_append nth_blit)
  qed
qed

lemma sk_insert_at_elems:
  assumes "num sk < length (data sk)" "sk_insert_at sk p i = (r, sk')"
  shows "elems sk' = take i (elems sk) @ p # drop i (elems sk)" "r = num sk + 1" "num sk' = num sk + 1"
    "length (data sk') = length (data sk)" "num_alloc sk' = num_alloc sk" "comp sk' = comp sk" "\<not> is_sorted sk'"
proof -
  have sk': "data sk' = (if i \<ge> num sk then (data sk)[num sk := p]
      else (blit (data sk) (i + 1) (take (num sk - i) (drop i (data sk))))[i := p])"
    "num sk' = num sk + 1"
    using assms by (auto simp: sk_insert_at_def Let_def)
  show "elems sk' = take i (elems sk) @ p # drop i (elems sk)"
  proof (cases "i \<ge> num sk")
    case True
    then show ?thesis using sk' assms(1) by (simp add: elems_def take_Suc_conv_app_nth)
  next
    case False
    then show ?thesis
      using sk' assms(1) take_blit_shift [of i "num sk" "data sk" p] by (simp add: elems_def min_def)
  qed
  show "r = num sk + 1" "num sk' = num sk + 1" "num_alloc sk' = num_alloc sk" "comp sk' = comp sk" "\<not> is_sorted sk'"
    using assms by (auto simp: sk_insert_at_def Let_def)
  show "length (data sk') = length (data sk)"
    using sk' assms(1) by simp
qed

text \<open>\<open>sk_insert\<close> inserts, or returns 0 and leaves the stack as it is, which it does only when an
  allocation fails or the array would not fit the address space.\<close>

lemma sk_insert_elems:
  assumes "stack_ok sk" "sk_insert junk (Some sk) p i e = ((r, osk'), e')"
  obtains (inserted) sk' where "osk' = Some sk'" "stack_ok sk'" "r = num sk + 1" "comp sk' = comp sk" "\<not> is_sorted sk'"
      "elems sk' = take i (elems sk) @ p # drop i (elems sk)"
  | (failed) "osk' = Some sk" "r = 0" "\<not> malloc_ok e \<or> num sk + 2 \<ge> 2 ^ 61"
proof (cases "num_alloc sk \<le> num sk + 1")
  case False
  then obtain sk' where ins: "sk_insert_at sk p i = (r, sk')" and "osk' = Some sk'"
    using assms(2) by (auto simp: map_prod_def split: prod.splits)
  moreover have "num sk < length (data sk)" using stack_okD [OF assms(1)] by simp
  note i = sk_insert_at_elems [OF this ins]
  moreover have "stack_ok sk'"
    using stack_okD [OF assms(1)] i(3-5) False by (simp add: stack_ok_def)
  ultimately show thesis using inserted by blast
next
  case True
  then have full: "num_alloc sk = num sk + 1" using stack_okD(1) [OF assms(1)] by simp
  have pos: "0 < num_alloc sk" using full by simp
  note g = grown_alloc_eq [OF pos stack_okD(3) [OF assms(1)]]
  show thesis
  proof (cases "grown_alloc (num_alloc sk)")
    case None
    then have "num sk + 2 \<ge> 2 ^ 61" using g full by (auto split: if_splits)
    moreover have "osk' = Some sk" "r = 0" using assms(2) True None by auto
    ultimately show thesis using failed by blast
  next
    case (Some m)
    show thesis
    proof (cases "malloc_ok e")
      case False
      then have "osk' = Some sk" "r = 0" using assms(2) True Some by auto
      then show thesis using failed False by blast
    next
      case ok: True
      have m: "num_alloc sk < m" "m < 2 ^ 61" using g Some full by (auto split: if_splits)
      define big where "big = sk\<lparr>data := data sk @ map junk [num_alloc sk..<m], num_alloc := m\<rparr>"
      obtain sk' where ins: "sk_insert_at big p i = (r, sk')" and sk': "osk' = Some sk'"
        using assms(2) True Some ok by (auto simp: map_prod_def big_def split: prod.splits)
      have big: "elems big = elems sk" "num big = num sk" "length (data big) = m" "num_alloc big = m" "comp big = comp sk"
        using stack_okD(1,2) [OF assms(1)] m by (simp_all add: big_def elems_def)
      have room: "num big < length (data big)" using big full m by simp
      note i = sk_insert_at_elems [OF room ins]
      have "stack_ok sk'" using i(3-5) big m full stack_okD(5) [OF assms(1)] by (simp add: stack_ok_def)
      then show thesis using inserted [OF sk'] i big by metis
    qed
  qed
qed

lemma take_blit_back:
  assumes "i < n" "n \<le> length d"
  shows "take (n - 1) (if i \<noteq> n - 1 then blit d i (take (n - i - 1) (drop (i + 1) d)) else d) = take i d @ drop (Suc i) (take n d)"
proof (cases "i = n - 1")
  case True
  then show ?thesis using assms by simp
next
  case False
  then obtain k where k: "n = Suc (Suc (i + k))" using assms(1) less_imp_Suc_add [of "Suc i" n] by force
  have "take (n - 1) (blit d i (take (n - i - 1) (drop (i + 1) d))) = take i d @ take (n - i - 1) (drop (i + 1) d)"
    using take_blit_all [of i "take (n - i - 1) (drop (i + 1) d)" d] assms k by simp
  also have "take (n - i - 1) (drop (i + 1) d) = drop (Suc i) (take n d)"
    by (simp add: drop_take)
  finally show ?thesis using False by (simp add: drop_take)
qed

lemma sk_delete_elems:
  assumes "stack_ok sk" "i < num sk"
  obtains sk' where "sk_delete (Some sk) i = (elems sk ! i, Some sk')" "stack_ok sk'" "num sk' = num sk - 1"
    "elems sk' = take i (elems sk) @ drop (Suc i) (elems sk)" "comp sk' = comp sk" "is_sorted sk' = is_sorted sk"
proof -
  define d where "d = (if i \<noteq> num sk - 1 then blit (data sk) i (take (num sk - i - 1) (drop (i + 1) (data sk))) else data sk)"
  define sk' where "sk' = sk\<lparr>data := d, num := num sk - 1\<rparr>"
  have len: "num sk \<le> length (data sk)" using stack_okD(1,2) [OF assms(1)] by simp
  have "sk_delete (Some sk) i = (elems sk ! i, Some sk')"
    using assms(2) by (simp add: sk'_def d_def elems_nth Let_def)
  moreover have "elems sk' = take i (elems sk) @ drop (Suc i) (elems sk)"
    using take_blit_back [OF assms(2) len] assms(2) by (simp add: sk'_def d_def elems_def min_def)
  moreover have "length d = length (data sk)"
    using len assms(2) by (simp add: d_def)
  then have "stack_ok sk'" using stack_okD [OF assms(1)] by (simp add: sk'_def stack_ok_def)
  moreover have "num sk' = num sk - 1" "comp sk' = comp sk" "is_sorted sk' = is_sorted sk" by (simp_all add: sk'_def)
  ultimately show ?thesis using that by blast
qed

lemma sk_zero_elems:
  assumes "stack_ok sk"
  obtains sk' where "sk_zero (Some sk) = Some sk'" "stack_ok sk'" "elems sk' = []" "comp sk' = comp sk"
    "is_sorted sk' \<longrightarrow> is_sorted sk"
  using assms by (cases "num sk = 0") (auto simp: stack_ok_def elems_def)

lemma sk_set_elems:
  assumes "stack_ok sk" "i < num sk"
  obtains sk' where "sk_set (Some sk) i p = (p, Some sk')" "stack_ok sk'" "elems sk' = (elems sk)[i := p]"
    "num sk' = num sk" "comp sk' = comp sk" "is_sorted sk' = is_sorted sk"
  using assms by (auto simp: stack_ok_def elems_def take_update_swap)

lemma ptr_index_eq:
  "ptr_index qs i n p =
     (if p \<in> set (take (n - i) qs) then Some (i + length (takeWhile (\<lambda>q. q \<noteq> p) (take (n - i) qs))) else None)"
proof (induction qs i n p rule: ptr_index.induct)
  case (1 q qs i n p)
  show ?case
  proof (cases "i < n")
    case True
    then have "n - i = Suc (n - (i + 1))" by simp
    then show ?thesis using 1 True by auto
  qed simp
qed simp

lemma ptr_index_elems:
  "ptr_index (data sk) 0 (num sk) p =
     (if p \<in> set (elems sk) then Some (length (takeWhile (\<lambda>q. q \<noteq> p) (elems sk))) else None)"
  using ptr_index_eq [of "data sk" 0 "num sk" p] by (simp add: elems_def)

lemma remove1_takeWhile:
  "p \<in> set xs \<Longrightarrow> take (length (takeWhile (\<lambda>q. q \<noteq> p) xs)) xs @ drop (Suc (length (takeWhile (\<lambda>q. q \<noteq> p) xs))) xs = remove1 p xs"
  by (induction xs) auto

lemma takeWhile_neq:
  "p \<in> set xs \<Longrightarrow> length (takeWhile (\<lambda>q. q \<noteq> p) xs) < length xs \<and> xs ! length (takeWhile (\<lambda>q. q \<noteq> p) xs) = p"
  by (induction xs) auto

section \<open>Sequences of calls\<close>

text \<open>The calls of a program on a stack, and what they return: a number or a pointer.\<close>

datatype 'p stack_cmd =
    Push "'p option" | Insert "'p option" nat | Delete nat | Delete_ptr "'p option"
  | Pop | Shift | Zero | Set nat "'p option" | Value nat | Num

datatype 'p stack_result = Count nat | Ptr "'p option"

fun stack_exec ::
  "(nat \<Rightarrow> 'p option) \<Rightarrow> 'p stack_cmd \<Rightarrow> ('p, 'f) stack option \<times> env \<Rightarrow> 'p stack_result \<times> ('p, 'f) stack option \<times> env"
where
  "stack_exec junk (Push p) (sk, e) = (case sk_push junk sk p e of ((r, sk'), e') \<Rightarrow> (Count r, sk', e'))"
| "stack_exec junk (Insert p i) (sk, e) = (case sk_insert junk sk p i e of ((r, sk'), e') \<Rightarrow> (Count r, sk', e'))"
| "stack_exec junk (Delete i) (sk, e) = (case sk_delete sk i of (r, sk') \<Rightarrow> (Ptr r, sk', e))"
| "stack_exec junk (Delete_ptr p) (sk, e) = (case sk_delete_ptr sk p of (r, sk') \<Rightarrow> (Ptr r, sk', e))"
| "stack_exec junk Pop (sk, e) = (case sk_pop sk of (r, sk') \<Rightarrow> (Ptr r, sk', e))"
| "stack_exec junk Shift (sk, e) = (case sk_shift sk of (r, sk') \<Rightarrow> (Ptr r, sk', e))"
| "stack_exec junk Zero (sk, e) = (Ptr None, sk_zero sk, e)"
| "stack_exec junk (Set i p) (sk, e) = (case sk_set sk i p of (r, sk') \<Rightarrow> (Ptr r, sk', e))"
| "stack_exec junk (Value i) (sk, e) = (Ptr (sk_value sk i), sk, e)"
| "stack_exec junk Num (sk, e) = (Count (sk_num sk), sk, e)"

text \<open>The same calls on a list.\<close>

fun list_delete :: "nat \<Rightarrow> 'p option list \<Rightarrow> 'p stack_result \<times> 'p option list" where
  "list_delete i xs = (if i < length xs then (Ptr (xs ! i), take i xs @ drop (Suc i) xs) else (Ptr None, xs))"

fun list_exec :: "'p stack_cmd \<Rightarrow> 'p option list \<Rightarrow> 'p stack_result \<times> 'p option list" where
  "list_exec (Push p) xs = (Count (length xs + 1), xs @ [p])"
| "list_exec (Insert p i) xs = (Count (length xs + 1), take i xs @ p # drop i xs)"
| "list_exec (Delete i) xs = list_delete i xs"
| "list_exec (Delete_ptr p) xs = (if p \<in> set xs then (Ptr p, remove1 p xs) else (Ptr None, xs))"
| "list_exec Pop xs = (if xs = [] then (Ptr None, []) else (Ptr (last xs), butlast xs))"
| "list_exec Shift xs = (if xs = [] then (Ptr None, []) else (Ptr (hd xs), tl xs))"
| "list_exec Zero xs = (Ptr None, [])"
| "list_exec (Set i p) xs = (if i < length xs then (Ptr p, xs[i := p]) else (Ptr None, xs))"
| "list_exec (Value i) xs = (Ptr (if i < length xs then xs ! i else None), xs)"
| "list_exec Num xs = (Count (length xs), xs)"

text \<open>One call: the result and the new pointers are those of the list, unless it is an insertion that
  returns 0 and changes nothing.\<close>

lemma stack_exec_list:
  assumes "stack_ok sk" "stack_exec junk c (Some sk, e) = (r, osk', e')"
  shows "\<exists>sk'. osk' = Some sk' \<and> stack_ok sk' \<and>
    ((r, elems sk') = list_exec c (elems sk) \<or>
     r = Count 0 \<and> sk' = sk \<and> (\<exists>p i. c = Push p \<or> c = Insert p i) \<and> (\<not> malloc_ok e \<or> num sk + 2 \<ge> 2 ^ 61))"
proof -
  note len = stack_okD(4) [OF assms(1)]
  have insert: ?thesis
    if "sk_insert junk (Some sk) p i e = ((n, osk'), e')" "r = Count n" "c = Push p \<and> i = num sk \<or> c = Insert p i" for p i n
    using that(1)
  proof (rule sk_insert_elems [OF assms(1)])
    fix sk'
    assume "osk' = Some sk'" "stack_ok sk'" "n = num sk + 1" "elems sk' = take i (elems sk) @ p # drop i (elems sk)"
    moreover from this that(2,3) have "(r, elems sk') = list_exec c (elems sk)" using len by auto
    ultimately show ?thesis by blast
  qed (use that assms(1) in blast)
  have delete: ?thesis
    if "sk_delete (Some sk) i = (x, osk')" "r = Ptr x" "i < num sk"
      "list_exec c (elems sk) = (Ptr (elems sk ! i), take i (elems sk) @ drop (Suc i) (elems sk))" for i x
    using sk_delete_elems [OF assms(1) that(3)] that by (metis prod.inject)
  have same: ?thesis if "r = x" "osk' = Some sk" "list_exec c (elems sk) = (x, elems sk)" for x
    using that assms(1) by auto
  show ?thesis
  proof (cases c)
    case (Push p)
    then obtain n where "sk_insert junk (Some sk) p (num sk) e = ((n, osk'), e')" "r = Count n"
      using assms(2) by (auto simp: sk_push_def simp del: sk_insert.simps split: prod.splits)
    then show ?thesis by (rule insert) (simp add: Push)
  next
    case (Insert p i)
    then obtain n where "sk_insert junk (Some sk) p i e = ((n, osk'), e')" "r = Count n"
      using assms(2) by (auto simp del: sk_insert.simps split: prod.splits)
    then show ?thesis by (rule insert) (simp add: Insert)
  next
    case (Delete i)
    show ?thesis
    proof (cases "i < num sk")
      case True
      from assms(2) Delete obtain x where "sk_delete (Some sk) i = (x, osk')" "r = Ptr x"
        by (auto simp del: sk_delete.simps split: prod.splits)
      then show ?thesis by (rule delete) (simp_all add: True Delete len)
    next
      case False
      then show ?thesis using assms(2) Delete len by (intro same) simp_all
    qed
  next
    case (Delete_ptr p)
    show ?thesis
    proof (cases "p \<in> set (elems sk)")
      case True
      define i where "i = length (takeWhile (\<lambda>q. q \<noteq> p) (elems sk))"
      have i: "i < num sk" "elems sk ! i = p" "take i (elems sk) @ drop (Suc i) (elems sk) = remove1 p (elems sk)"
        using takeWhile_neq [OF True] remove1_takeWhile [OF True] len by (simp_all add: i_def)
      have "sk_delete_ptr (Some sk) p = sk_delete (Some sk) i"
        using True by (simp add: ptr_index_elems i_def)
      then obtain x where "sk_delete (Some sk) i = (x, osk')" "r = Ptr x"
        using assms(2) Delete_ptr by (auto simp del: sk_delete.simps sk_delete_ptr.simps split: prod.splits)
      then show ?thesis by (rule delete) (simp_all add: Delete_ptr True i)
    next
      case False
      then show ?thesis using assms(2) Delete_ptr by (intro same) (simp_all add: ptr_index_elems)
    qed
  next
    case Pop
    show ?thesis
    proof (cases "num sk = 0")
      case True
      then show ?thesis using assms(2) Pop len by (intro same) auto
    next
      case False
      then have ne: "elems sk \<noteq> []" using len by auto
      then have l: "elems sk ! (num sk - 1) = last (elems sk)"
        "take (num sk - 1) (elems sk) @ drop (Suc (num sk - 1)) (elems sk) = butlast (elems sk)"
        using len False by (simp_all add: last_conv_nth butlast_conv_take)
      obtain x where "sk_delete (Some sk) (num sk - 1) = (x, osk')" "r = Ptr x"
        using assms(2) Pop False by (auto simp del: sk_delete.simps split: prod.splits)
      then show ?thesis
      proof (rule delete)
        show "num sk - 1 < num sk" using False by simp
        show "list_exec c (elems sk) =
            (Ptr (elems sk ! (num sk - 1)), take (num sk - 1) (elems sk) @ drop (Suc (num sk - 1)) (elems sk))"
          unfolding l using Pop ne by simp
      qed
    qed
  next
    case Shift
    show ?thesis
    proof (cases "num sk = 0")
      case True
      then show ?thesis using assms(2) Shift len by (intro same) auto
    next
      case False
      then have ne: "elems sk \<noteq> []" using len by auto
      obtain x where "sk_delete (Some sk) 0 = (x, osk')" "r = Ptr x"
        using assms(2) Shift False by (auto simp del: sk_delete.simps split: prod.splits)
      then show ?thesis by (rule delete) (use Shift False ne in \<open>simp_all add: hd_conv_nth drop_Suc\<close>)
    qed
  next
    case Zero
    obtain sk' where "sk_zero (Some sk) = Some sk'" "stack_ok sk'" "elems sk' = []"
      by (rule sk_zero_elems [OF assms(1)])
    then show ?thesis using assms(2) Zero by auto
  next
    case (Set i p)
    show ?thesis
    proof (cases "i < num sk")
      case True
      obtain sk' where "sk_set (Some sk) i p = (p, Some sk')" "stack_ok sk'" "elems sk' = (elems sk)[i := p]"
        by (rule sk_set_elems [OF assms(1) True])
      then show ?thesis using assms(2) Set len True by auto
    next
      case False
      then show ?thesis using assms(2) Set len by (intro same) simp_all
    qed
  next
    case (Value i)
    then show ?thesis using assms(2) len by (intro same) (auto simp: elems_nth)
  next
    case Num
    then show ?thesis using assms(2) len by (intro same) simp_all
  qed
qed

primrec stack_run ::
  "(nat \<Rightarrow> 'p option) \<Rightarrow> 'p stack_cmd list \<Rightarrow> ('p, 'f) stack option \<times> env \<Rightarrow>
   'p stack_result list \<times> ('p, 'f) stack option \<times> env"
where
  "stack_run junk [] s = ([], s)"
| "stack_run junk (c # cs) s =
     (case stack_exec junk c s of (r, s') \<Rightarrow> (case stack_run junk cs s' of (rs, s'') \<Rightarrow> (r # rs, s'')))"

primrec list_run :: "'p stack_cmd list \<Rightarrow> 'p option list \<Rightarrow> 'p stack_result list \<times> 'p option list" where
  "list_run [] xs = ([], xs)"
| "list_run (c # cs) xs = (case list_exec c xs of (r, xs') \<Rightarrow> (case list_run cs xs' of (rs, xs'') \<Rightarrow> (r # rs, xs'')))"

lemma list_exec_length: "list_exec c xs = (r, ys) \<Longrightarrow> length ys \<le> length xs + 1"
  by (cases c) (auto simp: length_remove1 split: if_splits)

lemma sk_insert_env: "sk_insert junk osk p i e = (r, e') \<Longrightarrow> e' = e \<or> e' = tick e"
  by (cases osk) (auto split: if_splits option.splits)

lemma stack_exec_never_fails:
  assumes "never_fails e" "stack_exec junk c (osk, e) = (r, osk', e')"
  shows "never_fails e'"
proof -
  have "e' = e \<or> e' = tick e"
    using assms(2) sk_insert_env
    by (cases c) (fastforce simp: sk_push_def simp del: sk_insert.simps sk_delete.simps split: prod.splits)+
  then show ?thesis using assms(1) by auto
qed

lemma stack_run_list_from:
  assumes "stack_ok sk" "never_fails e" "num sk + length cs < 2 ^ 61 - 1"
    "stack_run junk cs (Some sk, e) = (rs, osk', e')"
  shows "\<exists>sk'. osk' = Some sk' \<and> stack_ok sk' \<and> list_run cs (elems sk) = (rs, elems sk')"
  using assms
proof (induction cs arbitrary: sk e rs)
  case Nil
  then show ?case by auto
next
  case (Cons c cs)
  obtain r osk1 e1 rs' where one: "stack_exec junk c (Some sk, e) = (r, osk1, e1)"
    and rest: "stack_run junk cs (osk1, e1) = (rs', osk', e')" and rs: "rs = r # rs'"
    using Cons.prems(4) by (auto split: prod.splits)
  have room: "malloc_ok e" "\<not> num sk + 2 \<ge> 2 ^ 61" using Cons.prems(2,3) by simp_all
  then obtain sk1 where sk1: "osk1 = Some sk1" "stack_ok sk1" "list_exec c (elems sk) = (r, elems sk1)"
    using stack_exec_list [OF Cons.prems(1) one] by metis
  have "num sk1 \<le> num sk + 1"
    using list_exec_length [OF sk1(3)] stack_okD(4) [OF sk1(2)] stack_okD(4) [OF Cons.prems(1)] by simp
  then have "num sk1 + length cs < 2 ^ 61 - 1" using Cons.prems(3) by simp
  from Cons.IH [OF sk1(2) stack_exec_never_fails [OF Cons.prems(2) one] this rest [unfolded sk1(1)]]
  show ?case using sk1(3) rs by auto
qed

section \<open>Sorting and searching\<close>

text \<open>What the C standard asks of a comparison function on the values \<open>A\<close>, and what it then promises
  of \<open>qsort\<close> and \<open>bsearch\<close>: the order of equal values and the choice between them are free.\<close>

definition consistent :: "'p cmp \<Rightarrow> 'p option set \<Rightarrow> bool" where
  "consistent cmp A \<longleftrightarrow>
     (\<forall>x\<in>A. \<forall>y\<in>A. (cmp x y < 0 \<longleftrightarrow> cmp y x > 0)) \<and>
     (\<forall>x\<in>A. \<forall>y\<in>A. \<forall>z\<in>A. cmp x y \<le> 0 \<longrightarrow> cmp y z \<le> 0 \<longrightarrow> cmp x z \<le> 0)"

abbreviation sorted_by :: "'p cmp \<Rightarrow> 'p option list \<Rightarrow> bool" where
  "sorted_by cmp \<equiv> sorted_wrt (\<lambda>x y. cmp x y \<le> 0)"

lemma consistent_subset: "consistent cmp A \<Longrightarrow> B \<subseteq> A \<Longrightarrow> consistent cmp B"
  unfolding consistent_def by blast

lemma consistent_flip: "consistent cmp A \<Longrightarrow> x \<in> A \<Longrightarrow> y \<in> A \<Longrightarrow> cmp x y = 0 \<longleftrightarrow> cmp y x = 0"
  unfolding consistent_def by (metis linorder_neqE_linordered_idom order_less_irrefl)

lemma consistent_total: "consistent cmp A \<Longrightarrow> x \<in> A \<Longrightarrow> y \<in> A \<Longrightarrow> \<not> cmp x y \<le> 0 \<Longrightarrow> cmp y x \<le> 0"
  unfolding consistent_def by (metis less_le not_le)

lemma consistent_trans:
  "consistent cmp A \<Longrightarrow> x \<in> A \<Longrightarrow> y \<in> A \<Longrightarrow> z \<in> A \<Longrightarrow> cmp x y \<le> 0 \<Longrightarrow> cmp y z \<le> 0 \<Longrightarrow> cmp x z \<le> 0"
  unfolding consistent_def by blast

locale c_search =
  fixes qs :: "'p cmp \<Rightarrow> 'p option list \<Rightarrow> 'p option list"
    and bs :: "'p cmp \<Rightarrow> 'p option \<Rightarrow> 'p option list \<Rightarrow> nat option"
  assumes qs_mset: "consistent cmp (set xs) \<Longrightarrow> mset (qs cmp xs) = mset xs"
    and qs_sorted: "consistent cmp (set xs) \<Longrightarrow> sorted_by cmp (qs cmp xs)"
    and bs_Some: "consistent cmp (insert k (set xs)) \<Longrightarrow> sorted_by cmp xs \<Longrightarrow> bs cmp k xs = Some i \<Longrightarrow>
      i < length xs \<and> cmp k (xs ! i) = 0"
    and bs_None: "consistent cmp (insert k (set xs)) \<Longrightarrow> sorted_by cmp xs \<Longrightarrow> bs cmp k xs = None \<Longrightarrow>
      x \<in> set xs \<Longrightarrow> cmp k x \<noteq> 0"

text \<open>The flag \<open>sorted\<close> of a stack tells the truth.\<close>

definition flag_ok :: "('f \<Rightarrow> 'p cmp) \<Rightarrow> ('p, 'f) stack \<Rightarrow> bool" where
  "flag_ok ap sk \<longleftrightarrow> (is_sorted sk \<longrightarrow> (\<forall>c. comp sk = Some c \<longrightarrow> sorted_by (ap c) (elems sk)))"

lemma first_equal_le: "first_equal cmp p d i \<le> i"
  by (induction i) auto

lemma first_equal_match: "cmp p (d ! i) = 0 \<Longrightarrow> cmp p (d ! first_equal cmp p d i) = 0"
  by (induction i) auto

lemma first_equal_stops: "0 < first_equal cmp p d i \<Longrightarrow> cmp p (d ! (first_equal cmp p d i - 1)) \<noteq> 0"
  by (induction i) auto

lemma first_equal_cong: "(\<And>j. j < i \<Longrightarrow> d ! j = d' ! j) \<Longrightarrow> first_equal cmp p d i = first_equal cmp p d' i"
  by (induction i) auto

lemma first_equal_least:
  assumes "consistent cmp (insert p (set d))" "sorted_by cmp d" "i < length d" "cmp p (d ! i) = 0"
    "j < first_equal cmp p d i"
  shows "cmp p (d ! j) \<noteq> 0"
proof
  assume eq: "cmp p (d ! j) = 0"
  define k where "k = first_equal cmp p d i - 1"
  have k: "j \<le> k" "k < i" "cmp p (d ! k) \<noteq> 0" "i < length d"
    using assms(3,5) first_equal_le [of cmp p d i] first_equal_stops [of cmp p d i] by (auto simp: k_def)
  have in_set: "d ! j \<in> insert p (set d)" "d ! k \<in> insert p (set d)" "d ! i \<in> insert p (set d)" "p \<in> insert p (set d)"
    using k by auto
  note c = assms(1)
  have jk: "cmp (d ! j) (d ! k) \<le> 0 \<or> j = k"
    using sorted_wrt_nth_less [OF assms(2), of j k] k by fastforce
  have "cmp p (d ! k) \<le> 0"
    using jk eq consistent_trans [OF c in_set(4) in_set(1) in_set(2)] by auto
  moreover have "cmp (d ! k) (d ! i) \<le> 0"
    using sorted_wrt_nth_less [OF assms(2) k(2,4)] .
  moreover have "cmp (d ! i) p \<le> 0"
    using consistent_flip [OF c in_set(4) in_set(3)] assms(4) by simp
  ultimately have "cmp p (d ! k) \<le> 0" "cmp (d ! k) p \<le> 0"
    using consistent_trans [OF c in_set(2) in_set(3) in_set(4)] by auto
  then have "cmp p (d ! k) = 0"
    using c in_set(2,4) unfolding consistent_def by (metis le_less not_less)
  then show False using k(3) by simp
qed

context c_search begin

text \<open>\<open>sk_sort\<close> permutes the pointers into the order of the comparison function.\<close>

lemma sk_sort_elems:
  assumes "stack_ok sk" "comp sk = Some c" "consistent (ap c) (set (elems sk))" "flag_ok ap sk"
  obtains sk' where "sk_sort qs ap (Some sk) = Some sk'" "stack_ok sk'" "mset (elems sk') = mset (elems sk)"
    "sorted_by (ap c) (elems sk')" "is_sorted sk'" "comp sk' = Some c" "num sk' = num sk"
proof (cases "is_sorted sk")
  case True
  then show thesis using assms that [of sk] by (simp add: sk_sort_def flag_ok_def)
next
  case False
  define ys where "ys = qs (ap c) (elems sk)"
  have m: "mset ys = mset (elems sk)" "sorted_by (ap c) ys"
    unfolding ys_def by (rule qs_mset [OF assms(3)], rule qs_sorted [OF assms(3)])
  have len: "length ys = num sk" using m(1) stack_okD(4) [OF assms(1)] by (metis size_mset)
  define sk' where "sk' = sk\<lparr>data := blit (data sk) 0 ys, is_sorted := True\<rparr>"
  have "sk_sort qs ap (Some sk) = Some sk'"
    using assms(2) False by (simp add: sk_sort_def sk'_def ys_def elems_def)
  moreover have "elems sk' = ys"
    using len stack_okD(1,2) [OF assms(1)] by (simp add: sk'_def elems_def blit_def)
  moreover have "stack_ok sk'"
    using len stack_okD [OF assms(1)] by (simp add: sk'_def stack_ok_def)
  ultimately show thesis using that [of sk'] m assms(2) by (simp add: sk'_def)
qed

lemma sk_find_first:
  assumes "stack_ok sk" "comp sk = Some c" "consistent (ap c) (insert (Some p) (set (elems sk)))" "flag_ok ap sk"
    "sk_find qs bs ap (Some sk) (Some p) = (r, osk')"
  shows "\<exists>sk'. osk' = Some sk' \<and> stack_ok sk' \<and> mset (elems sk') = mset (elems sk) \<and>
    sorted_by (ap c) (elems sk') \<and> is_sorted sk' \<and> comp sk' = Some c \<and>
    (case r of
       None \<Rightarrow> \<forall>q\<in>set (elems sk). ap c (Some p) q \<noteq> 0
     | Some i \<Rightarrow> i < num sk' \<and> ap c (Some p) (elems sk' ! i) = 0 \<and> (\<forall>j<i. ap c (Some p) (elems sk' ! j) \<noteq> 0))"
proof -
  have "consistent (ap c) (set (elems sk))"
    using assms(3) by (rule consistent_subset) blast
  from sk_sort_elems [of sk c ap, OF assms(1,2) this assms(4)]
  obtain sk' where sort: "sk_sort qs ap (Some sk) = Some sk'" "stack_ok sk'" "mset (elems sk') = mset (elems sk)"
    "sorted_by (ap c) (elems sk')" "is_sorted sk'" "comp sk' = Some c" "num sk' = num sk" .
  have set: "set (elems sk') = set (elems sk)" using mset_eq_setD [OF sort(3)] .
  note cons = assms(3) [folded set]
  have find: "(r, osk') =
      (case bs (ap c) (Some p) (elems sk') of
         None \<Rightarrow> (None, Some sk')
       | Some i \<Rightarrow> (Some (first_equal (ap c) (Some p) (data sk') i), Some sk'))"
    using assms(2,5) sort(1) by (simp add: sk_find_def elems_def)
  show ?thesis
  proof (cases "bs (ap c) (Some p) (elems sk')")
    case None
    have "\<forall>q\<in>set (elems sk'). ap c (Some p) q \<noteq> 0"
      using bs_None [OF cons sort(4) None] by blast
    then show ?thesis using None find sort set by auto
  next
    case (Some i)
    have i: "i < num sk'" "ap c (Some p) (elems sk' ! i) = 0"
      using bs_Some [OF cons sort(4) Some] stack_okD(4) [OF sort(2)] by simp_all
    define k where "k = first_equal (ap c) (Some p) (elems sk') i"
    have "first_equal (ap c) (Some p) (data sk') i = k"
      unfolding k_def using i(1) by (intro first_equal_cong) (simp add: elems_nth)
    moreover have "k < num sk'" using first_equal_le [of "ap c" "Some p" "elems sk'" i] i(1) by (simp add: k_def)
    moreover have "ap c (Some p) (elems sk' ! k) = 0"
      unfolding k_def by (rule first_equal_match) (rule i(2))
    moreover have "\<forall>j<k. ap c (Some p) (elems sk' ! j) \<noteq> 0"
      using first_equal_least [OF cons sort(4) _ i(2)] i(1) stack_okD(4) [OF sort(2)] by (simp add: k_def)
    ultimately show ?thesis using Some find sort by auto
  qed
qed

end

text \<open>An implementation: insertion sort and the usual binary search.\<close>

fun c_insert :: "'p cmp \<Rightarrow> 'p option \<Rightarrow> 'p option list \<Rightarrow> 'p option list" where
  "c_insert cmp x [] = [x]"
| "c_insert cmp x (y # ys) = (if cmp x y \<le> 0 then x # y # ys else y # c_insert cmp x ys)"

definition c_qsort :: "'p cmp \<Rightarrow> 'p option list \<Rightarrow> 'p option list" where
  "c_qsort cmp xs = foldr (c_insert cmp) xs []"

function c_bsearch_from :: "'p cmp \<Rightarrow> 'p option \<Rightarrow> 'p option list \<Rightarrow> nat \<Rightarrow> nat \<Rightarrow> nat option" where
  "c_bsearch_from cmp k xs l u =
     (if l < u then
        let i = (l + u) div 2; r = cmp k (xs ! i)
        in if r < 0 then c_bsearch_from cmp k xs l i
           else if r > 0 then c_bsearch_from cmp k xs (i + 1) u
           else Some i
      else None)"
  by pat_completeness auto
termination by (relation "measure (\<lambda>(cmp, k, xs, l, u). u - l)") auto

declare c_bsearch_from.simps [simp del]

definition c_bsearch :: "'p cmp \<Rightarrow> 'p option \<Rightarrow> 'p option list \<Rightarrow> nat option" where
  "c_bsearch cmp k xs = c_bsearch_from cmp k xs 0 (length xs)"

lemma c_insert_mset [simp]: "mset (c_insert cmp x ys) = add_mset x (mset ys)"
  by (induction ys) auto

lemma c_insert_set [simp]: "set (c_insert cmp x ys) = insert x (set ys)"
  by (induction ys) auto

lemma c_insert_sorted:
  "consistent cmp (insert x (set ys)) \<Longrightarrow> sorted_by cmp ys \<Longrightarrow> sorted_by cmp (c_insert cmp x ys)"
proof (induction ys)
  case (Cons y ys)
  have c: "consistent cmp (insert x (set ys))"
    using Cons.prems(1) by (rule consistent_subset) auto
  show ?case
  proof (cases "cmp x y \<le> 0")
    case True
    have "cmp x z \<le> 0" if "z \<in> set ys" for z
      using consistent_trans [OF Cons.prems(1), of x y z] that True Cons.prems(2) by auto
    then show ?thesis using True Cons.prems(2) by auto
  next
    case False
    then have "cmp y x \<le> 0" using consistent_total [OF Cons.prems(1), of x y] by auto
    then show ?thesis using False Cons.IH [OF c] Cons.prems(2) by auto
  qed
qed simp

lemma c_qsort_mset: "mset (c_qsort cmp xs) = mset xs"
  by (induction xs) (auto simp: c_qsort_def)

lemma c_qsort_sorted: "consistent cmp (set xs) \<Longrightarrow> sorted_by cmp (c_qsort cmp xs)"
proof (induction xs)
  case (Cons x xs)
  have "consistent cmp (set xs)" using Cons.prems by (rule consistent_subset) auto
  moreover have "set (c_qsort cmp xs) = set xs" using c_qsort_mset mset_eq_setD by blast
  ultimately show ?case
    using Cons.IH c_insert_sorted [of cmp x "c_qsort cmp xs"] Cons.prems by (simp add: c_qsort_def)
qed (simp add: c_qsort_def)

text \<open>One round of the search: it halves the interval or stops.\<close>

lemma c_bsearch_step:
  assumes "l < u"
  obtains i where "l \<le> i" "i < u"
    "c_bsearch_from cmp k xs l u =
      (if cmp k (xs ! i) < 0 then c_bsearch_from cmp k xs l i
       else if cmp k (xs ! i) > 0 then c_bsearch_from cmp k xs (i + 1) u
       else Some i)"
proof (rule that [of "(l + u) div 2"])
  show "c_bsearch_from cmp k xs l u =
      (if cmp k (xs ! ((l + u) div 2)) < 0 then c_bsearch_from cmp k xs l ((l + u) div 2)
       else if cmp k (xs ! ((l + u) div 2)) > 0 then c_bsearch_from cmp k xs ((l + u) div 2 + 1) u
       else Some ((l + u) div 2))"
    using assms by (subst c_bsearch_from.simps) (simp add: Let_def)
qed (use assms in auto)

lemma c_bsearch_done: "\<not> l < u \<Longrightarrow> c_bsearch_from cmp k xs l u = None"
  by (subst c_bsearch_from.simps) simp

lemma c_bsearch_from_Some:
  "c_bsearch_from cmp k xs l u = Some i \<Longrightarrow> u \<le> length xs \<Longrightarrow> i < length xs \<and> cmp k (xs ! i) = 0"
proof (induction "u - l" arbitrary: l u rule: less_induct)
  case less
  show ?case
  proof (cases "l < u")
    case False
    then show ?thesis using less.prems c_bsearch_done [of l u cmp k xs] by simp
  next
    case True
    then obtain m where m: "l \<le> m" "m < u"
      and eq: "c_bsearch_from cmp k xs l u =
        (if cmp k (xs ! m) < 0 then c_bsearch_from cmp k xs l m
         else if cmp k (xs ! m) > 0 then c_bsearch_from cmp k xs (m + 1) u
         else Some m)"
      by (rule c_bsearch_step)
    show ?thesis
      using less.hyps [of m l] less.hyps [of u "m + 1"] less.prems m unfolding eq
      by (auto split: if_splits)
  qed
qed

lemma c_bsearch_from_None:
  assumes c: "consistent cmp (insert k (set xs))" and sorted: "sorted_by cmp xs"
  shows "c_bsearch_from cmp k xs l u = None \<Longrightarrow> u \<le> length xs \<Longrightarrow> l \<le> j \<Longrightarrow> j < u \<Longrightarrow> cmp k (xs ! j) \<noteq> 0"
proof (induction "u - l" arbitrary: l u rule: less_induct)
  case less
  then obtain m where m: "l \<le> m" "m < u"
    and eq: "c_bsearch_from cmp k xs l u =
      (if cmp k (xs ! m) < 0 then c_bsearch_from cmp k xs l m
       else if cmp k (xs ! m) > 0 then c_bsearch_from cmp k xs (m + 1) u
       else Some m)"
    using c_bsearch_step [of l u cmp k xs] by (metis le_less_trans)
  have mem: "k \<in> insert k (set xs)" "xs ! m \<in> insert k (set xs)" "xs ! j \<in> insert k (set xs)"
    using m less.prems by auto
  have below: "cmp (xs ! m) k > 0" if "cmp k (xs ! m) < 0"
    using c that mem unfolding consistent_def by blast
  have above: "cmp (xs ! m) k < 0" if "cmp k (xs ! m) > 0"
    using c that mem unfolding consistent_def by blast
  consider (left) "cmp k (xs ! m) < 0" | (right) "cmp k (xs ! m) > 0"
    using less.prems(1) eq by (metis linorder_neqE_linordered_idom option.distinct(1))
  then show ?case
  proof cases
    case left
    show ?thesis
    proof (cases "j < m")
      case True
      then show ?thesis using less.hyps [of m l] less.prems m left eq by simp
    next
      case False
      then have "cmp (xs ! m) (xs ! j) \<le> 0 \<or> m = j"
        using sorted_wrt_nth_less [OF sorted, of m j] less.prems by fastforce
      then show ?thesis
        using below [OF left] left consistent_flip [OF c mem(1,3)] consistent_trans [OF c mem(2,3,1)] by fastforce
    qed
  next
    case right
    show ?thesis
    proof (cases "m < j")
      case True
      then show ?thesis using less.hyps [of u "m + 1"] less.prems m right eq by simp
    next
      case False
      then have "cmp (xs ! j) (xs ! m) \<le> 0 \<or> m = j"
        using sorted_wrt_nth_less [OF sorted, of j m] less.prems m by fastforce
      then show ?thesis
        using above [OF right] right consistent_trans [OF c mem(1,3,2)] by fastforce
    qed
  qed
qed

interpretation libc: c_search c_qsort c_bsearch
proof
  fix cmp :: "'a cmp" and xs k i x
  show "mset (c_qsort cmp xs) = mset xs" by (rule c_qsort_mset)
  show "sorted_by cmp (c_qsort cmp xs)" if "consistent cmp (set xs)" using that by (rule c_qsort_sorted)
  show "i < length xs \<and> cmp k (xs ! i) = 0" if "c_bsearch cmp k xs = Some i"
    using that c_bsearch_from_Some [of cmp k xs 0 "length xs" i] by (simp add: c_bsearch_def)
  show "cmp k x \<noteq> 0"
    if "consistent cmp (insert k (set xs))" "sorted_by cmp xs" "c_bsearch cmp k xs = None" "x \<in> set xs"
  proof -
    from that(4) obtain j where "j < length xs" "x = xs ! j" by (metis in_set_conv_nth)
    then show ?thesis
      using c_bsearch_from_None [OF that(1,2), of 0 "length xs" j] that(3) by (simp add: c_bsearch_def)
  qed
qed

section \<open>Deep copies\<close>

text \<open>The effects of copying the pointers of a list from the left, and the copies made before one failed.\<close>

fun copies :: "('p \<Rightarrow> 's \<Rightarrow> 'p option \<times> 's) \<Rightarrow> 'p option list \<Rightarrow> 's \<Rightarrow> 'p option list \<times> bool \<times> 's" where
  "copies f [] s = ([], True, s)"
| "copies f (None # ps) s = (case copies f ps s of (qs, ok, s') \<Rightarrow> (None # qs, ok, s'))"
| "copies f (Some p # ps) s =
     (case f p s of
        (None, s') \<Rightarrow> ([], False, s')
      | (Some q, s') \<Rightarrow> (case copies f ps s' of (qs, ok, s'') \<Rightarrow> (Some q # qs, ok, s'')))"

definition free_all :: "('p \<Rightarrow> 's \<Rightarrow> 's) \<Rightarrow> 'p option list \<Rightarrow> 's \<Rightarrow> 's" where
  "free_all f ps s = fold (\<lambda>p s. case p of None \<Rightarrow> s | Some q \<Rightarrow> f q s) ps s"

lemma fold_nth_upto: "i \<le> length xs \<Longrightarrow> fold (\<lambda>j s. g (xs ! j) s) [0..<i] s = fold g (take i xs) s"
  by (induction i) (auto simp: take_Suc_conv_app_nth)

lemma deep_copy_loop_eq:
  assumes "num ret \<le> length (data ret)" "i \<le> num ret"
  shows "deep_copy_loop f fr ret i s =
    (case copies f (drop i (elems ret)) s of
       (qs, True, s') \<Rightarrow> (Some (ret\<lparr>data := blit (data ret) i qs\<rparr>), s')
     | (qs, False, s') \<Rightarrow> (None, free_all fr (take i (elems ret) @ qs) s'))"
  using assms
proof (induction "num ret - i" arbitrary: ret i s)
  case 0
  then have "i = num ret" by simp
  then show ?case using 0 by (subst deep_copy_loop.simps) (simp add: elems_def)
next
  case (Suc n)
  then have i: "i < num ret" "i < length (data ret)" by simp_all
  then have drop: "drop i (elems ret) = data ret ! i # drop (Suc i) (elems ret)"
    using Suc.prems by (simp add: elems_def flip: Cons_nth_drop_Suc)
  have take: "take (Suc i) (elems ret) = take i (elems ret) @ [data ret ! i]"
    using i by (simp add: elems_def take_Suc_conv_app_nth min_def)
  have n: "n = num ret - Suc i" using Suc.hyps(2) by simp
  show ?case
  proof (cases "data ret ! i")
    case None
    have "blit (data ret) (Suc i) qs = blit (data ret) i (None # qs)" for qs
      using i None by (simp add: blit_def take_Suc_conv_app_nth)
    then show ?thesis
      using Suc.hyps(1) [OF n, of s] Suc.prems i None
      by (subst deep_copy_loop.simps) (simp add: drop take split: prod.splits bool.splits)
  next
    case (Some p)
    show ?thesis
    proof (cases "f p s")
      case (Pair oq s1)
      show ?thesis
      proof (cases oq)
        case None
        have "take i (data ret) = take i (elems ret)" using i by (simp add: elems_def)
        then show ?thesis
          using Some Pair None i fold_nth_upto [of i "data ret" "\<lambda>p s. case p of None \<Rightarrow> s | Some q \<Rightarrow> fr q s"]
          by (subst deep_copy_loop.simps) (simp add: drop free_all_def)
      next
        case q: (Some q)
        define ret' where "ret' = ret\<lparr>data := (data ret)[i := Some q]\<rparr>"
        have ret': "num ret' = num ret" "length (data ret') = length (data ret)"
          "drop (Suc i) (elems ret') = drop (Suc i) (elems ret)"
          "take (Suc i) (elems ret') = take i (elems ret) @ [Some q]"
          using i by (simp_all add: ret'_def elems_def take_Suc_conv_app_nth min_def take_update_swap list_update_append)
        have "blit (data ret') (Suc i) qs = blit (data ret) i (Some q # qs)" for qs
          using i by (simp add: ret'_def blit_def take_Suc_conv_app_nth)
        then have "ret'\<lparr>data := blit (data ret') (Suc i) qs\<rparr> = ret\<lparr>data := blit (data ret) i (Some q # qs)\<rparr>" for qs
          by (simp add: ret'_def)
        then show ?thesis
          using Suc.hyps(1) [of ret' "Suc i" s1] Suc.prems n ret' i Some Pair q
          by (subst deep_copy_loop.simps) (simp add: drop split: prod.splits bool.splits flip: ret'_def)
      qed
    qed
  qed
qed

lemma copies_length: "copies f ps s = (qs, ok, s') \<Longrightarrow> length qs \<le> length ps \<and> (ok \<longrightarrow> length qs = length ps)"
  by (induction f ps s arbitrary: qs ok s' rule: copies.induct) (fastforce split: prod.splits option.splits)+

lemma sk_dup_elems:
  assumes "stack_ok sk" "sk_dup junk (Some sk) e = (Some ret, e')"
  shows "stack_ok ret" "elems ret = elems sk" "num ret = num sk" "comp ret = comp sk" "is_sorted ret = is_sorted sk"
    "num_alloc ret = num_alloc sk"
proof -
  define s where "s = take (num_alloc sk) (replicate kMinSize None) @ map junk [kMinSize..<num_alloc sk]"
  have "length s = num_alloc sk" using stack_okD(5) [OF assms(1)] by (simp add: s_def)
  moreover have ret: "data ret = blit s 0 (take (num sk) (data sk))" "num ret = num sk" "comp ret = comp sk"
      "is_sorted ret = is_sorted sk" "num_alloc ret = num_alloc sk"
    using assms(2) by (auto simp: Let_def sk_new_def s_def split: prod.splits option.splits if_splits)
  ultimately show "stack_ok ret" "elems ret = elems sk" "num ret = num sk" "comp ret = comp sk" "is_sorted ret = is_sorted sk"
    "num_alloc ret = num_alloc sk"
    using stack_okD [OF assms(1)] by (simp_all add: stack_ok_def elems_def blit_def)
qed

section \<open>Correctness\<close>

text \<open>C13: a stack is a list. Every sequence of calls on a fresh stack returns what the same calls on an empty
  list return, and leaves the same pointers, as long as memory does not run out.\<close>

theorem stack_refines_list:
  assumes "never_fails e" "length cs < 2 ^ 61 - 1" "sk_new cmp e = (osk, e1)" "stack_run junk cs (osk, e1) = (rs, osk', e2)"
  shows "\<exists>sk'. osk' = Some sk' \<and> stack_ok sk' \<and> list_run cs [] = (rs, elems sk')"
proof -
  obtain sk where sk: "osk = Some sk" "never_fails e1"
    using assms(1,3) by (auto simp: sk_new_def)
  note new = sk_new_ok [OF assms(3) [unfolded sk(1)]]
  have "num sk = 0" using new(2) stack_okD(4) [OF new(1)] by simp
  then have "num sk + length cs < 2 ^ 61 - 1" using assms(2) by simp
  from stack_run_list_from [OF new(1) sk(2) this assms(4) [unfolded sk(1)]] show ?thesis
    using new(2) by simp
qed

lemma stack_refines_list_witness:
  "fst (stack_run (\<lambda>_. None) [Push (Some 3), Push (Some (4 :: nat)), Insert (Some 5) 1, Shift, Pop, Num]
      (sk_new None plain_env :: (nat, nat) stack option \<times> env)) =
    [Count 1, Count 2, Count 3, Ptr (Some 3), Ptr (Some 4), Count 1]"
proof -
  let ?cs = "[Push (Some 3), Push (Some (4 :: nat)), Insert (Some 5) 1, Shift, Pop, Num]"
  obtain osk e1 where new: "(sk_new None plain_env :: (nat, nat) stack option \<times> env) = (osk, e1)" by fastforce
  obtain rs osk' e2 where run: "stack_run (\<lambda>_. None) ?cs (osk, e1) = (rs, osk', e2)" by (metis prod_cases3)
  have "length ?cs < 2 ^ 61 - 1" by simp
  from stack_refines_list [OF never_fails_plain(1) this new run]
  show ?thesis using run new by auto
qed

text \<open>A call on a stack whose allocation fails returns 0 and leaves the stack as it was; every other
  call, with any allocator, does to the stack what it does to the list. The allocation is refused only
  by the platform or when the array would not fit the address space.\<close>

theorem stack_call_correct:
  assumes "stack_ok sk" "stack_exec junk c (Some sk, e) = (r, osk', e')"
  shows "\<exists>sk'. osk' = Some sk' \<and> stack_ok sk' \<and>
    ((r, elems sk') = list_exec c (elems sk) \<or>
     r = Count 0 \<and> sk' = sk \<and> (\<exists>p i. c = Push p \<or> c = Insert p i) \<and> (\<not> malloc_ok e \<or> num sk + 2 \<ge> 2 ^ 61))"
  by (rule stack_exec_list [OF assms])

lemma stack_call_correct_witness:
  "let sk = \<lparr>num = 3, data = [Some 1, Some 2, Some (3 :: nat), None], is_sorted = False, num_alloc = 4, comp = None :: nat option\<rparr>;
       no = \<lparr>alloc_ok = (\<lambda>n. False), alloc_n = 0, fresh = (\<lambda>n. 0)\<rparr>
   in stack_exec (\<lambda>_. None) (Push (Some 9)) (Some sk, no) = (Count 0, Some sk, tick no) \<and>
      fst (stack_exec (\<lambda>_. None) (Delete 0) (Some sk, no)) = Ptr (Some 1)"
proof -
  let ?sk = "\<lparr>num = 3, data = [Some 1, Some 2, Some (3 :: nat), None], is_sorted = False, num_alloc = 4, comp = None :: nat option\<rparr>"
  let ?no = "\<lparr>alloc_ok = (\<lambda>n. False), alloc_n = 0, fresh = (\<lambda>n. 0)\<rparr>"
  have ok: "stack_ok ?sk" by (simp add: stack_ok_def kMinSize_def)
  obtain r osk' e' where d: "stack_exec (\<lambda>_. None) (Delete 0) (Some ?sk, ?no) = (r, osk', e')" by (metis prod_cases3)
  have "fst (stack_exec (\<lambda>_. None) (Delete 0) (Some ?sk, ?no)) = Ptr (Some 1)"
    using stack_call_correct [OF ok d] d by (auto simp: elems_def)
  moreover have "stack_exec (\<lambda>_. None) (Push (Some 9)) (Some ?sk, ?no) = (Count 0, Some ?sk, tick ?no)"
    by (simp add: sk_push_def malloc_ok_def grown_alloc_eq)
  ultimately show ?thesis by (simp add: Let_def)
qed

text \<open>C14: searching. With \<open>qsort\<close> and \<open>bsearch\<close> as the C standard has them, a consistent comparison
  function and a truthful flag, \<open>sk_find\<close> sorts the stack, finds a match exactly when there is one, and returns
  the first of them.\<close>

theorem sk_find_correct:
  assumes "c_search qs bs" "stack_ok sk" "comp sk = Some c" "consistent (ap c) (insert (Some p) (set (elems sk)))"
    "flag_ok ap sk" "sk_find qs bs ap (Some sk) (Some p) = (r, osk')"
  shows "\<exists>sk'. osk' = Some sk' \<and> stack_ok sk' \<and> mset (elems sk') = mset (elems sk) \<and>
    sorted_by (ap c) (elems sk') \<and> is_sorted sk' \<and> comp sk' = Some c \<and>
    (case r of
       None \<Rightarrow> \<forall>q\<in>set (elems sk). ap c (Some p) q \<noteq> 0
     | Some i \<Rightarrow> i < num sk' \<and> ap c (Some p) (elems sk' ! i) = 0 \<and> (\<forall>j<i. ap c (Some p) (elems sk' ! j) \<noteq> 0))"
  by (rule c_search.sk_find_first [OF assms(1-3), where ap = ap, OF assms(4-6)])

definition by_value :: "unit \<Rightarrow> nat cmp" where
  "by_value u x y = int (the x) - int (the y)"

lemma sk_find_correct_witness:
  "\<exists>sk'. sk_find c_qsort c_bsearch by_value
     (Some \<lparr>num = 3, data = [Some 5, Some 2, Some 5, None], is_sorted = False, num_alloc = 4, comp = Some ()\<rparr>) (Some 5) =
       (Some 1, Some sk') \<and> sorted_by (by_value ()) (elems sk')"
proof -
  let ?sk = "\<lparr>num = 3, data = [Some 5, Some 2, Some 5, None], is_sorted = False, num_alloc = 4, comp = Some ()\<rparr>"
  have ok: "stack_ok ?sk" "flag_ok by_value ?sk" by (simp_all add: stack_ok_def kMinSize_def flag_ok_def)
  have c: "consistent (by_value ()) (insert (Some 5) (set (elems ?sk)))"
    by (auto simp: consistent_def by_value_def)
  have f: "sk_find c_qsort c_bsearch by_value (Some ?sk) (Some 5) =
      (Some 1, Some (?sk\<lparr>data := [Some 2, Some 5, Some 5, None], is_sorted := True\<rparr>))"
    by code_simp
  show ?thesis
    using sk_find_correct [where ap = by_value, OF libc.c_search_axioms ok(1) _ c ok(2) f] f by auto
qed

lemma sorted_wrt_delete: "sorted_wrt P xs \<Longrightarrow> sorted_wrt P (take i xs @ drop (Suc i) xs)"
proof (induction xs arbitrary: i)
  case (Cons x xs)
  then show ?case
    by (cases i) (auto dest: in_set_takeD in_set_dropD)
qed simp

lemma sk_delete_keeps_flag:
  assumes "stack_ok sk" "flag_ok ap sk" "sk_delete (Some sk) i = (r, Some sk')"
  shows "flag_ok ap sk'"
proof (cases "i < num sk")
  case True
  obtain sk1 where "sk_delete (Some sk) i = (elems sk ! i, Some sk1)" "comp sk1 = comp sk" "is_sorted sk1 = is_sorted sk"
    "elems sk1 = take i (elems sk) @ drop (Suc i) (elems sk)"
    by (rule sk_delete_elems [OF assms(1) True])
  then show ?thesis
    using assms(2,3) sorted_wrt_delete by (auto simp: flag_ok_def)
next
  case False
  then show ?thesis using assms by simp
qed

lemma sk_insert_keeps_flag:
  assumes "stack_ok sk" "flag_ok ap sk" "sk_insert junk (Some sk) p i e = ((r, Some sk'), e')"
  shows "flag_ok ap sk'"
  using sk_insert_elems [OF assms(1,3)] assms(2) by (cases) (auto simp: flag_ok_def)

lemma stack_exec_keeps_flag:
  assumes "stack_ok sk" "flag_ok ap sk" "stack_exec junk c (Some sk, e) = (r, Some sk', e')" "\<forall>i p. c \<noteq> Set i p"
  shows "flag_ok ap sk'"
proof (cases c)
  case (Push p)
  then show ?thesis
    using assms sk_insert_keeps_flag [OF assms(1,2)]
    by (auto simp: sk_push_def simp del: sk_insert.simps split: prod.splits)
next
  case (Insert p i)
  then show ?thesis
    using assms sk_insert_keeps_flag [OF assms(1,2)] by (auto simp del: sk_insert.simps split: prod.splits)
next
  case (Delete i)
  then show ?thesis
    using assms sk_delete_keeps_flag [OF assms(1,2)] by (auto simp del: sk_delete.simps split: prod.splits)
next
  case (Delete_ptr p)
  then show ?thesis
    using assms sk_delete_keeps_flag [OF assms(1,2)] by (auto simp del: sk_delete.simps split: prod.splits option.splits)
next
  case Pop
  then show ?thesis
    using assms sk_delete_keeps_flag [OF assms(1,2)] by (auto simp del: sk_delete.simps split: prod.splits if_splits)
next
  case Shift
  then show ?thesis
    using assms sk_delete_keeps_flag [OF assms(1,2)] by (auto simp del: sk_delete.simps split: prod.splits if_splits)
next
  case Zero
  obtain sk1 where "sk_zero (Some sk) = Some sk1" "elems sk1 = []"
    by (rule sk_zero_elems [OF assms(1)])
  then show ?thesis using Zero assms(3) by (auto simp: flag_ok_def)
qed (use assms in auto)


definition sample_stack :: "(nat, unit) stack" where
  "sample_stack = \<lparr>num = 3, data = [Some 1, Some 2, Some 3, None], is_sorted = True, num_alloc = 4, comp = Some ()\<rparr>"



text \<open>A deep copy holds the copies of the pointers in their order, and when a copy cannot be made
  every copy made before is freed and none other.\<close>

theorem sk_deep_copy_correct:
  assumes "stack_ok sk" "sk_deep_copy junk (Some sk) f fr (e, s) = (r, e', s')"
  shows "case r of
      Some ret \<Rightarrow> stack_ok ret \<and> copies f (elems sk) s = (elems ret, True, s') \<and>
        comp ret = comp sk \<and> is_sorted ret = is_sorted sk
    | None \<Rightarrow> fst (sk_dup junk (Some sk) e) = None \<and> s' = s \<or>
        (\<exists>qs s1. copies f (elems sk) s = (qs, False, s1) \<and> s' = free_all fr qs s1)"
proof (cases "sk_dup junk (Some sk) e")
  case (Pair o1 e1)
  show ?thesis
  proof (cases o1)
    case None
    then show ?thesis using assms(2) Pair by (auto simp: sk_deep_copy_def)
  next
    case (Some ret)
    note dup = sk_dup_elems [OF assms(1) Pair [unfolded Some]]
    have len: "num ret \<le> length (data ret)" using stack_okD [OF dup(1)] by simp
    obtain qs ok s1 where c: "copies f (elems sk) s = (qs, ok, s1)" by (metis prod_cases3)
    have loop: "deep_copy_loop f fr ret 0 s = (if ok then (Some (ret\<lparr>data := blit (data ret) 0 qs\<rparr>), s1) else (None, free_all fr qs s1))"
      using deep_copy_loop_eq [OF len, of 0 f fr s] c dup(2) by (simp split: bool.splits)
    have copy: "(r, s') = deep_copy_loop f fr ret 0 s"
      using assms(2) Pair Some by (auto simp: sk_deep_copy_def split: prod.splits)
    show ?thesis
    proof (cases ok)
      case True
      then have "length qs = num ret"
        using copies_length [OF c] stack_okD(4) [OF assms(1)] dup(3) by simp
      then have "elems (ret\<lparr>data := blit (data ret) 0 qs\<rparr>) = qs" "stack_ok (ret\<lparr>data := blit (data ret) 0 qs\<rparr>)"
        using stack_okD [OF dup(1)] by (simp_all add: elems_def blit_def stack_ok_def)
      then show ?thesis using copy loop True c dup by auto
    next
      case False
      then show ?thesis using copy loop c by auto
    qed
  qed
qed

definition copy_small :: "nat \<Rightarrow> nat list \<Rightarrow> nat option \<times> nat list" where
  "copy_small p log = (if p < 3 then (Some (p + 10), log) else (None, log))"

lemma sk_deep_copy_correct_witness:
  "case sk_deep_copy (\<lambda>_. None) (Some sample_stack) copy_small (#) (plain_env, []) of (r, e', log) \<Rightarrow> r = None \<and> log = [12, 11]"
proof -
  have ok: "stack_ok sample_stack" by code_simp
  obtain r e' log where run: "sk_deep_copy (\<lambda>_. None) (Some sample_stack) copy_small (#) (plain_env, []) = (r, e', log)"
    by (metis prod_cases3)
  have c: "copies copy_small (elems sample_stack) [] = ([Some 11, Some 12], False, [])" by code_simp
  have "fst (sk_dup (\<lambda>_. None) (Some sample_stack) plain_env) \<noteq> None" by code_simp
  then show ?thesis
    using sk_deep_copy_correct [OF ok run] c run by (auto simp: free_all_def split: option.splits)
qed

end
