(* ===== verification/Buf.thy ===== *)
theory Buf
  imports Mem Cbs
begin

text \<open>
  The growing buffers and string copies of \<open>crypto/buf/buf.c\<close>, and \<open>CBS_stow\<close> and \<open>CBS_strdup\<close> of
  \<open>crypto/bytestring/cbs.c\<close>, which copy a view into fresh memory with them. A pointer into a block is the
  list of the bytes from it to the end of the block; what \<open>OPENSSL_free\<close> receives is dropped. \<open>size_t\<close>
  has 64 bits.
\<close>

section \<open>Growing buffers\<close>

record BUF_MEM =
  used :: nat
  data :: "bytes option"
  cap :: nat

definition BUF_MEM_new :: "env \<Rightarrow> BUF_MEM option \<times> env" where
  "BUF_MEM_new e = (if malloc_ok e then Some \<lparr>used = 0, data = None, cap = 0\<rparr> else None, tick e)"

definition buf_mem_reserve :: "BUF_MEM \<Rightarrow> nat \<Rightarrow> bool \<Rightarrow> env \<Rightarrow> bool \<times> BUF_MEM \<times> env" where
  "buf_mem_reserve buf want clean e =
     (if cap buf \<ge> want then (True, buf, e)
      else
        let n = (want + 3) mod 2 ^ 64 in
        if n < want then (False, buf, e)
        else
          let n' = n div 3; alloc_size = (n' * 4) mod 2 ^ 64 in
          if alloc_size div 4 \<noteq> n' then (False, buf, e)
          else
            (case (case data buf of
                     None \<Rightarrow> libc_malloc alloc_size e
                   | Some d \<Rightarrow> if clean then OPENSSL_realloc_clean (Some d) (cap buf) alloc_size e
                              else libc_realloc d alloc_size e) of
               (None, e') \<Rightarrow> (False, buf, e')
             | (Some new_buf, e') \<Rightarrow> (True, buf\<lparr>data := Some new_buf, cap := alloc_size\<rparr>, e')))"

definition BUF_MEM_reserve :: "BUF_MEM \<Rightarrow> nat \<Rightarrow> env \<Rightarrow> bool \<times> BUF_MEM \<times> env" where
  "BUF_MEM_reserve buf want = buf_mem_reserve buf want False"

text \<open>\<open>memset\<close> of the bytes from \<open>length\<close> to \<open>len\<close>.\<close>

definition buf_mem_grow :: "BUF_MEM \<Rightarrow> nat \<Rightarrow> bool \<Rightarrow> env \<Rightarrow> nat \<times> BUF_MEM \<times> env" where
  "buf_mem_grow buf len clean e =
     (case buf_mem_reserve buf len clean e of
        (False, buf1, e') \<Rightarrow> (0, buf1, e')
      | (True, buf1, e') \<Rightarrow>
          let d = (if used buf1 < len
                   then map_option (\<lambda>d. blit d (used buf1) (replicate (len - used buf1) 0)) (data buf1)
                   else data buf1)
          in (len, buf1\<lparr>used := len, data := d\<rparr>, e'))"

definition BUF_MEM_grow :: "BUF_MEM \<Rightarrow> nat \<Rightarrow> env \<Rightarrow> nat \<times> BUF_MEM \<times> env" where
  "BUF_MEM_grow buf len = buf_mem_grow buf len False"

definition BUF_MEM_grow_clean :: "BUF_MEM \<Rightarrow> nat \<Rightarrow> env \<Rightarrow> nat \<times> BUF_MEM \<times> env" where
  "BUF_MEM_grow_clean buf len = buf_mem_grow buf len True"

section \<open>Copies\<close>

text \<open>\<open>strlen\<close> of the C library.\<close>

definition c_strlen :: "bytes \<Rightarrow> nat" where
  "c_strlen s = length (takeWhile (\<lambda>c. c \<noteq> 0) s)"

definition BUF_strnlen :: "bytes \<Rightarrow> nat \<Rightarrow> nat" where
  "BUF_strnlen str max_len = strnlen_from 0 str max_len"

definition BUF_strndup :: "bytes option \<Rightarrow> nat \<Rightarrow> env \<Rightarrow> bytes option \<times> env" where
  "BUF_strndup buf sz e =
     (case buf of
        None \<Rightarrow> (None, e)
      | Some b \<Rightarrow>
          let n = BUF_strnlen b sz; alloc_size = (n + 1) mod 2 ^ 64 in
          if alloc_size < n then (None, e)
          else op_bind (libc_malloc alloc_size) (\<lambda>ret. op_ret (blit ret 0 (take n b @ [0]))) e)"

definition BUF_strdup :: "bytes option \<Rightarrow> env \<Rightarrow> bytes option \<times> env" where
  "BUF_strdup buf e = (case buf of None \<Rightarrow> (None, e) | Some b \<Rightarrow> BUF_strndup (Some b) (c_strlen b) e)"

text \<open>The loop of \<open>BUF_strlcpy\<close>: the bytes copied, the rest of the source and of the size.\<close>

fun strlcpy_loop :: "bytes \<Rightarrow> nat \<Rightarrow> bytes \<times> bytes \<times> nat" where
  "strlcpy_loop [] n = ([], [], n)"
| "strlcpy_loop (c # src) n =
     (if n > 1 \<and> c \<noteq> 0 then (case strlcpy_loop src (n - 1) of (w, r, m) \<Rightarrow> (c # w, r, m)) else ([], c # src, n))"

definition BUF_strlcpy :: "bytes \<Rightarrow> bytes \<Rightarrow> nat \<Rightarrow> nat \<times> bytes" where
  "BUF_strlcpy dst src dst_size =
     (case strlcpy_loop src dst_size of
        (w, r, m) \<Rightarrow> (length w + c_strlen r, if m \<noteq> 0 then blit dst 0 (w @ [0]) else blit dst 0 w))"

definition BUF_strlcat :: "bytes \<Rightarrow> bytes \<Rightarrow> nat \<Rightarrow> nat \<times> bytes" where
  "BUF_strlcat dst src dst_size =
     (let l = strnlen_from 0 dst dst_size in
      case BUF_strlcpy (drop l dst) src (dst_size - l) of (r, dst') \<Rightarrow> (l + r, take l dst @ dst'))"

definition BUF_memdup :: "bytes \<Rightarrow> nat \<Rightarrow> env \<Rightarrow> bytes option \<times> env" where
  "BUF_memdup p dst_size e =
     (if dst_size = 0 then (None, e)
      else op_bind (libc_malloc dst_size) (\<lambda>ret. op_ret (blit ret 0 (take dst_size p))) e)"

text \<open>\<open>*out_ptr\<close> and \<open>*out_len\<close> after the call.\<close>

definition CBS_stow :: "CBS \<Rightarrow> env \<Rightarrow> (bool \<times> bytes option \<times> nat) \<times> env" where
  "CBS_stow cbs e =
     (if CBS_len cbs = 0 then ((True, None, 0), e)
      else (case BUF_memdup (CBS_data cbs) (CBS_len cbs) e of
              (None, e') \<Rightarrow> ((False, None, 0), e')
            | (Some p, e') \<Rightarrow> ((True, Some p, CBS_len cbs), e')))"

definition CBS_strdup :: "CBS \<Rightarrow> env \<Rightarrow> (bool \<times> bytes option) \<times> env" where
  "CBS_strdup cbs e =
     (case BUF_strndup (Some (CBS_data cbs)) (CBS_len cbs) e of (p, e') \<Rightarrow> ((p \<noteq> None, p), e'))"

section \<open>Correctness\<close>

text \<open>A buffer is well formed when its block has the size it records and holds its bytes; \<open>contents\<close> are
  the bytes in use.\<close>

definition buf_ok :: "BUF_MEM \<Rightarrow> bool" where
  "buf_ok b \<longleftrightarrow> (case data b of None \<Rightarrow> used b = 0 \<and> cap b = 0 | Some d \<Rightarrow> length d = cap b \<and> used b \<le> cap b)"

definition contents :: "BUF_MEM \<Rightarrow> bytes" where
  "contents b = (case data b of None \<Rightarrow> [] | Some d \<Rightarrow> take (used b) d)"

lemma grown_size:
  fixes want :: nat
  assumes "\<not> (want + 3) mod 2 ^ 64 < want" "((want + 3) mod 2 ^ 64 div 3 * 4) mod 2 ^ 64 div 4 = (want + 3) mod 2 ^ 64 div 3"
    "want < 2 ^ 64"
  shows "want < ((want + 3) mod 2 ^ 64 div 3 * 4) mod 2 ^ 64"
proof -
  define k where "k = (want + 3) mod 2 ^ 64"
  have k: "k = want + 3"
  proof (rule ccontr)
    assume "k \<noteq> want + 3"
    then have "\<not> want + 3 < 2 ^ 64" unfolding k_def by (metis mod_less)
    then have "k = want + 3 - 2 ^ 64" unfolding k_def using assms(3) by (simp add: mod_if)
    then show False using assms(1,3) by (simp add: k_def)
  qed
  define m where "m = (k div 3 * 4) mod 2 ^ 64"
  have m: "m div 4 = k div 3" using assms(2) by (simp add: k_def m_def)
  have "want < m" using m k by linarith
  then show ?thesis by (simp add: m_def k_def)
qed

lemma buf_mem_reserve_ok:
  assumes "buf_ok b" "want < 2 ^ 64" "buf_mem_reserve b want clean e = (r, b', e')"
  shows "buf_ok b'" "contents b' = contents b" "used b' = used b"
    "if r then want \<le> cap b' else b' = b"
proof -
  have "buf_ok b' \<and> contents b' = contents b \<and> used b' = used b \<and> (if r then want \<le> cap b' else b' = b)"
  proof (cases "r \<and> cap b < want")
    case False
    then have "b' = b" "r \<longrightarrow> want \<le> cap b"
      using assms(3) by (auto simp: buf_mem_reserve_def Let_def split: if_splits option.splits prod.splits)
    then show ?thesis using assms(1) by simp
  next
    case True
    define n where "n = ((want + 3) mod 2 ^ 64 div 3 * 4) mod 2 ^ 64"
    define alloc where "alloc = (case data b of None \<Rightarrow> libc_malloc n e
        | Some d \<Rightarrow> if clean then OPENSSL_realloc_clean (Some d) (cap b) n e else libc_realloc d n e)"
    have "buf_mem_reserve b want clean e =
      (if cap b \<ge> want then (True, b, e) else if (want + 3) mod 2 ^ 64 < want then (False, b, e)
       else if n div 4 \<noteq> (want + 3) mod 2 ^ 64 div 3 then (False, b, e)
       else case alloc of (None, e') \<Rightarrow> (False, b, e') | (Some new_buf, e') \<Rightarrow> (True, b\<lparr>data := Some new_buf, cap := n\<rparr>, e'))"
      unfolding buf_mem_reserve_def Let_def n_def alloc_def by (rule refl)
    then obtain d' where b': "r" "b' = b\<lparr>data := Some d', cap := n\<rparr>" and more: "cap b < want"
      and ok: "\<not> (want + 3) mod 2 ^ 64 < want" "n div 4 = (want + 3) mod 2 ^ 64 div 3" and alloc: "alloc = (Some d', e')"
      using assms(3) True by (cases alloc) (auto split: if_splits option.splits)
    have "want < n" using grown_size [OF ok(1) ok(2) [unfolded n_def] assms(2)] unfolding n_def .
    note alloc = alloc [unfolded alloc_def] and more = more this
    have "length d' = n \<and> take (used b) d' = contents b"
    proof (cases "data b")
      case None
      then show ?thesis using alloc assms(1) by (auto simp: buf_ok_def contents_def dest: libc_malloc_length)
    next
      case (Some d)
      then have len: "length d = cap b" "used b \<le> cap b" using assms(1) by (auto simp: buf_ok_def)
      have "length d' = n \<and> take (cap b) d' = d"
      proof (cases clean)
        case True
        then show ?thesis using alloc Some realloc_clean_keeps_prefix [of d "cap b" n e d' e'] len by simp
      next
        case False
        then show ?thesis using alloc Some libc_realloc_length [of d n e d' e'] len more by simp
      qed
      then show ?thesis using Some len by (auto simp: contents_def min_def dest: arg_cong [of _ d "take (used b)"])
    qed
    then show ?thesis using b' more assms(1) by (auto simp: buf_ok_def contents_def split: option.splits)
  qed
  then show "buf_ok b'" "contents b' = contents b" "used b' = used b" "if r then want \<le> cap b' else b' = b"
    by auto
qed

text \<open>Growing. A buffer that grows keeps its bytes and is extended by zeros, one that shrinks is cut; a
  call that fails returns 0 and leaves the bytes as they were, with either way of reallocating, and fails
  only without memory or for sizes near \<open>SIZE_MAX\<close>.\<close>

theorem BUF_MEM_grow_correct:
  assumes "buf_ok b" "len < 2 ^ 64" "buf_mem_grow b len clean e = (r, b', e')"
  shows "buf_ok b' \<and>
    (if r = len \<and> used b' = len then contents b' = take len (contents b) @ replicate (len - used b) 0
     else r = 0 \<and> b' = b)"
proof -
  obtain ok b1 e1 where res: "buf_mem_reserve b len clean e = (ok, b1, e1)" by (metis prod_cases3)
  note inv = buf_mem_reserve_ok [OF assms(1,2) res]
  show ?thesis
  proof (cases ok)
    case False
    then have "r = 0" "b' = b" using assms(3) res inv(4) by (auto simp: buf_mem_grow_def)
    then show ?thesis using assms(1) by (auto simp: buf_ok_def contents_def split: option.splits)
  next
    case True
    define d where "d = (if used b1 < len then map_option (\<lambda>d. blit d (used b1) (replicate (len - used b1) 0)) (data b1) else data b1)"
    have b': "r = len" "b' = b1\<lparr>used := len, data := d\<rparr>"
      using assms(3) res True by (auto simp: buf_mem_grow_def d_def Let_def)
    have fits: "len \<le> cap b1" using inv(4) True by simp
    show ?thesis
    proof (cases "data b1")
      case None
      then show ?thesis using inv(1,2,3) fits b' by (auto simp: buf_ok_def contents_def d_def split: option.splits)
    next
      case (Some q)
      then have q: "length q = cap b1" "used b1 \<le> cap b1" "take (used b) q = contents b" using inv(1-3) by (auto simp: buf_ok_def contents_def)
      show ?thesis
      proof (cases "used b < len")
        case True
        then have "d = Some (take (used b) q @ replicate (len - used b) 0 @ drop len q)"
          using Some inv(3) q fits by (simp add: d_def blit_def)
        then have "contents b' = take len (take (used b) q @ replicate (len - used b) 0 @ drop len q)" "buf_ok b'"
          using b' q(1,2) fits True inv(3) by (simp_all add: contents_def buf_ok_def)
        moreover have "length (take (used b) q) = used b" using q(1) True fits by simp
        ultimately show ?thesis using b' True q(3) [symmetric] by (simp del: length_take)
      next
        case False
        then have "d = Some q" using Some inv(3) by (simp add: d_def)
        then have "contents b' = take len q" "buf_ok b'" using b' q(1) fits by (simp_all add: contents_def buf_ok_def)
        moreover have "take len (contents b) = take len q" unfolding q(3) [symmetric] using False by (simp add: min_def)
        ultimately show ?thesis using b' False by simp
      qed
    qed
  qed
qed

section \<open>C strings\<close>

text \<open>The string in a block, up to its terminator.\<close>

definition c_str :: "bytes \<Rightarrow> bytes" where
  "c_str s = takeWhile (\<lambda>c. c \<noteq> 0) s"

lemma strlcpy_loop_eq:
  "0 < n \<Longrightarrow> 0 \<in> set src \<Longrightarrow>
     fst (strlcpy_loop src n) = take (n - 1) (c_str src) \<and>
     length (fst (strlcpy_loop src n)) + c_strlen (fst (snd (strlcpy_loop src n))) = length (c_str src) \<and>
     0 < snd (snd (strlcpy_loop src n))"
proof (induction src n rule: strlcpy_loop.induct)
  case (2 c src n)
  show ?case
  proof (cases "n > 1 \<and> c \<noteq> 0")
    case True
    then have "0 < n - 1" "0 \<in> set src" using 2(3) by auto
    from 2(1) [OF True this] True show ?thesis
      by (cases "strlcpy_loop src (n - 1)") (auto simp: c_str_def take_Cons' split: if_splits)
  next
    case False
    then show ?thesis using 2(2) by (cases n) (auto simp: c_str_def c_strlen_def)
  qed
qed simp

lemma BUF_strlcpy_eq:
  assumes "0 < n" "0 \<in> set src" "n \<le> length dst"
  shows "BUF_strlcpy dst src n =
    (length (c_str src), take (n - 1) (c_str src) @ 0 # drop (min n (length (c_str src) + 1)) dst)"
proof -
  obtain w r m where l: "strlcpy_loop src n = (w, r, m)" by (metis prod_cases3)
  have "w = take (n - 1) (c_str src)" "length w + c_strlen r = length (c_str src)" "m \<noteq> 0"
    using strlcpy_loop_eq [OF assms(1,2)] l by auto
  moreover from this(1) have "length w + 1 = min n (length (c_str src) + 1)" using assms(1) by auto
  ultimately show ?thesis by (simp add: BUF_strlcpy_def l blit_def)
qed

lemma c_str_append: "0 \<notin> set xs \<Longrightarrow> c_str (xs @ ys) = xs @ c_str ys"
  by (induction xs) (auto simp: c_str_def)

lemma c_str_no_zero: "0 \<notin> set (c_str s)"
  by (auto simp: c_str_def dest: set_takeWhileD)

lemma c_str_take_no_zero: "0 \<notin> set (take n (c_str s))"
  using c_str_no_zero in_set_takeD by metis

text \<open>C40: bounded concatenation. \<open>BUF_strlcat\<close> on a block of at least \<open>dst_size\<close> bytes with a string in it
  appends as much of the source as fits with a terminator, writes nothing past \<open>dst_size\<close>, and returns the
  length that the whole would have; \<open>BUF_strlcpy\<close> is the same for an empty string.\<close>

theorem BUF_strlcat_correct:
  assumes "n \<le> length dst" "0 \<in> set (take n dst)" "0 \<in> set src"
  shows "case BUF_strlcat dst src n of (r, dst') \<Rightarrow>
    r = length (c_str dst) + length (c_str src) \<and> length dst' = length dst \<and> drop n dst' = drop n dst \<and>
    c_str dst' = take (n - 1) (c_str dst @ c_str src) \<and>
    BUF_strlcpy dst src n = (length (c_str src), take (n - 1) (c_str src) @ 0 # drop (min n (length (c_str src) + 1)) dst)"
proof -
  define l where "l = length (c_str dst)"
  have tk: "c_str (take n dst) = c_str dst" and ln: "l < n"
  proof -
    obtain ys zs where yz: "take n dst = ys @ 0 # zs" "0 \<notin> set ys" using assms(2) by (meson split_list_first)
    then have "dst = ys @ 0 # zs @ drop n dst" by (metis append_Cons append_assoc append_take_drop_id)
    then have "c_str dst = ys" using c_str_append [OF yz(2), of "0 # zs @ drop n dst"] by (simp add: c_str_def)
    moreover have "c_str (take n dst) = ys" using c_str_append [OF yz(2), of "0 # zs"] yz(1) by (simp add: c_str_def)
    moreover have "length ys < length (take n dst)" using yz(1) by simp
    ultimately show "c_str (take n dst) = c_str dst" "l < n" by (auto simp: l_def)
  qed
  have skip: "strnlen_from 0 dst n = l"
    using strnlen_from_eq [of 0 n dst] assms(1) tk by (simp add: l_def c_str_def)
  have td: "take l dst = c_str dst" unfolding l_def c_str_def by (metis takeWhile_eq_take)
  have cat: "BUF_strlcat dst src n = (l + length (c_str src), c_str dst @ take (n - l - 1) (c_str src) @
      0 # drop (min (n - l) (length (c_str src) + 1)) (drop l dst))"
    using BUF_strlcpy_eq [of "n - l" src "drop l dst"] ln assms(1,3)
    by (simp add: BUF_strlcat_def skip Let_def td)
  have whole: "take (n - 1) (c_str dst @ c_str src) = c_str dst @ take (n - l - 1) (c_str src)"
    using ln by (simp add: l_def)
  have "c_str (c_str dst @ take (n - l - 1) (c_str src) @ 0 # rest) = c_str dst @ take (n - l - 1) (c_str src)" for rest
    using c_str_append [of "c_str dst @ take (n - l - 1) (c_str src)" "0 # rest"] c_str_no_zero c_str_take_no_zero [of _ src]
    by (auto simp: c_str_def)
  moreover have "0 < n" using ln by simp
  moreover
  define P where "P = c_str dst @ take (n - l - 1) (c_str src) @ [0]"
  define k where "k = l + min (n - l) (length (c_str src) + 1)"
  have k: "length P = k" "k \<le> n" using ln by (auto simp: P_def k_def l_def)
  have cat': "BUF_strlcat dst src n = (l + length (c_str src), P @ drop k dst)"
    unfolding cat by (simp add: P_def k_def add.commute)
  moreover have "length (P @ drop k dst) = length dst" "drop n (P @ drop k dst) = drop n dst"
    using k assms(1) by simp_all
  moreover have "P @ drop k dst = c_str dst @ take (n - l - 1) (c_str src) @ 0 # drop k dst" by (simp add: P_def)
  ultimately show ?thesis
    using BUF_strlcpy_eq [of n src dst] assms unfolding whole by (simp add: l_def)
qed

section \<open>Concrete runs\<close>

definition sample_buf :: BUF_MEM where
  "sample_buf = \<lparr>used = 2, data = Some [5, 6, 7, 8], cap = 4\<rparr>"

lemma BUF_MEM_grow_correct_witness:
  "case buf_mem_grow sample_buf 9 True plain_env of (r, b', e') \<Rightarrow>
     r = 9 \<and> cap b' = 16 \<and> contents b' = [5, 6, 0, 0, 0, 0, 0, 0, 0] \<and> buf_ok b'"
proof -
  obtain r b' e' where run: "buf_mem_grow sample_buf 9 True plain_env = (r, b', e')" by (metis prod_cases3)
  have "case buf_mem_grow sample_buf 9 True plain_env of (r, b', e') \<Rightarrow> r = 9 \<and> cap b' = 16 \<and> used b' = 9"
    by code_simp
  then have r: "r = 9" "cap b' = 16" "used b' = 9" using run by simp_all
  have "buf_ok sample_buf" "contents sample_buf = [5, 6]" "used sample_buf = 2" "replicate (9 - 2) (0 :: u8) = [0, 0, 0, 0, 0, 0, 0]"
    by code_simp+
  then show ?thesis using BUF_MEM_grow_correct [OF _ _ run] r run by simp
qed

lemma BUF_strlcat_correct_witness:
  "BUF_strlcat [1, 2, 0, 9, 9, 9] [3, 4, 5, 0] 5 = (5, [1, 2, 3, 4, 0, 9]) \<and> c_str [1, 2, 3, 4, 0, 9] = [1, 2, 3, 4]"
proof -
  have run: "BUF_strlcat [1, 2, 0, 9, 9, 9] [3, 4, 5, 0] 5 = (5, [1, 2, 3, 4, 0, 9])" by code_simp
  have str: "take (5 - 1) (c_str [1, 2, 0, 9, 9, 9] @ c_str [3, 4, 5, 0 :: u8]) = [1, 2, 3, 4]" by code_simp
  show ?thesis using BUF_strlcat_correct [of 5 "[1, 2, 0, 9, 9, 9]" "[3, 4, 5, 0]"] run unfolding str by simp
qed

end
