(* ===== verification/LHash.thy ===== *)
theory LHash
  imports Prelude "HOL-Library.Multiset"
begin

text \<open>
  The chained hash tables of \<open>crypto/lhash/lhash.c\<close>. A table holds opaque pointers \<open>'d\<close>; the hash and the
  comparison function are the caller's, and the locale \<open>hash_contract\<close> states what the code needs of them.
  A chain is the list of its items, an item the cached hash and the data; the pointer to a pointer that
  \<open>get_next_ptr_and_hash\<close> returns is a bucket and a position in its chain. The functions that
  \<open>lh_doall\<close> calls act on a state outside the table.
\<close>

section \<open>The operations\<close>

type_synonym 'd item = "u32 \<times> 'd"

record 'd lhash =
  num_items :: nat
  buckets :: "'d item list list"
  num_buckets :: nat
  callback_depth :: nat
  comp :: "'d \<Rightarrow> 'd \<Rightarrow> int"
  hash :: "'d \<Rightarrow> u32"

definition kMinNumBuckets :: nat where
  "kMinNumBuckets = 16"

definition kMaxAverageChainLength :: nat where
  "kMaxAverageChainLength = 2"

definition kMinAverageChainLength :: nat where
  "kMinAverageChainLength = 1"

abbreviation UINT_MAX :: nat where
  "UINT_MAX \<equiv> 4294967295"

definition lh_new :: "('d \<Rightarrow> u32) \<Rightarrow> ('d \<Rightarrow> 'd \<Rightarrow> int) \<Rightarrow> env \<Rightarrow> 'd lhash option \<times> env" where
  "lh_new h c e =
     (if \<not> malloc_ok e then (None, tick e)
      else if \<not> malloc_ok (tick e) then (None, tick (tick e))
      else (Some \<lparr>num_items = 0, buckets = replicate kMinNumBuckets [], num_buckets = kMinNumBuckets,
                  callback_depth = 0, comp = c, hash = h\<rparr>, tick (tick e)))"

definition lh_num_items :: "'d lhash \<Rightarrow> nat" where
  "lh_num_items lh = num_items lh"

text \<open>The position in a chain of the first item equal to \<open>data\<close>, or the end of the chain.\<close>

fun chain_pos :: "('d \<Rightarrow> 'd \<Rightarrow> int) \<Rightarrow> 'd \<Rightarrow> 'd item list \<Rightarrow> nat" where
  "chain_pos c data [] = 0"
| "chain_pos c data (cur # rest) = (if c (snd cur) data = 0 then 0 else Suc (chain_pos c data rest))"

definition get_next_ptr_and_hash :: "'d lhash \<Rightarrow> 'd \<Rightarrow> u32 \<times> nat \<times> nat" where
  "get_next_ptr_and_hash lh data =
     (let h = hash lh data; b = unat h mod num_buckets lh
      in (h, b, chain_pos (comp lh) data (buckets lh ! b)))"

text \<open>What the returned pointer points to: an item, or \<open>NULL\<close> at the end of the chain.\<close>

definition item_at :: "'d lhash \<Rightarrow> nat \<times> nat \<Rightarrow> 'd item option" where
  "item_at lh = (\<lambda>(b, k). if k < length (buckets lh ! b) then Some (buckets lh ! b ! k) else None)"

definition lh_retrieve :: "'d lhash \<Rightarrow> 'd \<Rightarrow> 'd option" where
  "lh_retrieve lh data =
     (case get_next_ptr_and_hash lh data of (h, next_ptr) \<Rightarrow>
        (case item_at lh next_ptr of None \<Rightarrow> None | Some it \<Rightarrow> Some (snd it)))"

text \<open>The two loops of \<open>lh_rebucket\<close>: every item, chain by chain, goes to the head of its new chain.\<close>

definition move_item :: "nat \<Rightarrow> 'd item \<Rightarrow> 'd item list list \<Rightarrow> 'd item list list" where
  "move_item n cur new_buckets =
     (let b = unat (fst cur) mod n in new_buckets[b := cur # new_buckets ! b])"

definition lh_rebucket :: "'d lhash \<Rightarrow> nat \<Rightarrow> env \<Rightarrow> 'd lhash \<times> env" where
  "lh_rebucket lh n e =
     (if (8 * n) mod 2 ^ 64 div 8 \<noteq> n then (lh, e)
      else if \<not> malloc_ok e then (lh, tick e)
      else (lh\<lparr>num_buckets := n, buckets := fold (move_item n) (concat (buckets lh)) (replicate n [])\<rparr>, tick e))"

definition lh_maybe_resize :: "'d lhash \<Rightarrow> env \<Rightarrow> 'd lhash \<times> env" where
  "lh_maybe_resize lh e =
     (if callback_depth lh > 0 then (lh, e)
      else
        let avg = num_items lh div num_buckets lh in
        if avg > kMaxAverageChainLength then
          (let n = (num_buckets lh * 2) mod 2 ^ 64
           in if n > num_buckets lh then lh_rebucket lh n e else (lh, e))
        else if avg < kMinAverageChainLength \<and> num_buckets lh > kMinNumBuckets then
          (let n = num_buckets lh div 2
           in lh_rebucket lh (if n < kMinNumBuckets then kMinNumBuckets else n) e)
        else (lh, e))"

text \<open>\<open>lh_insert\<close> returns 1 or 0 and \<open>*old_data\<close>.\<close>

definition lh_insert :: "'d lhash \<Rightarrow> 'd \<Rightarrow> env \<Rightarrow> (bool \<times> 'd option) \<times> 'd lhash \<times> env" where
  "lh_insert lh data e =
     (case get_next_ptr_and_hash lh data of (h, b, k) \<Rightarrow>
        (case item_at lh (b, k) of
           Some it \<Rightarrow>
             ((True, Some (snd it)), lh\<lparr>buckets := (buckets lh)[b := (buckets lh ! b)[k := (fst it, data)]]\<rparr>, e)
         | None \<Rightarrow>
             if \<not> malloc_ok e then ((False, None), lh, tick e)
             else ((True, None),
                   lh_maybe_resize
                     (lh\<lparr>buckets := (buckets lh)[b := buckets lh ! b @ [(h, data)]], num_items := num_items lh + 1\<rparr>)
                     (tick e))))"

definition lh_delete :: "'d lhash \<Rightarrow> 'd \<Rightarrow> env \<Rightarrow> 'd option \<times> 'd lhash \<times> env" where
  "lh_delete lh data e =
     (case get_next_ptr_and_hash lh data of (h, b, k) \<Rightarrow>
        (case item_at lh (b, k) of
           None \<Rightarrow> (None, lh, e)
         | Some it \<Rightarrow>
             (Some (snd it),
              lh_maybe_resize
                (lh\<lparr>buckets := (buckets lh)[b := take k (buckets lh ! b) @ drop (k + 1) (buckets lh ! b)],
                   num_items := num_items lh - 1\<rparr>) e)))"

text \<open>Walks over the items; \<open>func\<close> is the callback with its argument.\<close>

definition lh_doall_internal :: "'d lhash \<Rightarrow> ('d \<Rightarrow> 's \<Rightarrow> 's) \<Rightarrow> 's \<Rightarrow> env \<Rightarrow> 's \<times> 'd lhash \<times> env" where
  "lh_doall_internal lh func s e =
     (let lh1 = (if callback_depth lh < UINT_MAX then lh\<lparr>callback_depth := callback_depth lh + 1\<rparr> else lh);
          s' = fold (\<lambda>chain s. fold (\<lambda>cur s. func (snd cur) s) chain s) (take (num_buckets lh1) (buckets lh1)) s;
          lh2 = (if callback_depth lh1 < UINT_MAX then lh1\<lparr>callback_depth := callback_depth lh1 - 1\<rparr> else lh1)
      in (s', lh_maybe_resize lh2 e))"

definition lh_doall :: "'d lhash \<Rightarrow> ('d \<Rightarrow> 's \<Rightarrow> 's) \<Rightarrow> 's \<Rightarrow> env \<Rightarrow> 's \<times> 'd lhash \<times> env" where
  "lh_doall lh func = lh_doall_internal lh func"

definition lh_doall_arg :: "'d lhash \<Rightarrow> ('d \<Rightarrow> 'a \<Rightarrow> 's \<Rightarrow> 's) \<Rightarrow> 'a \<Rightarrow> 's \<Rightarrow> env \<Rightarrow> 's \<times> 'd lhash \<times> env" where
  "lh_doall_arg lh func arg = lh_doall_internal lh (\<lambda>d. func d arg)"

text \<open>The string hash; \<open>char\<close> is signed, and \<open>long\<close> has 64 bits.\<close>

fun strhash_loop :: "bytes \<Rightarrow> u64 \<Rightarrow> u64 \<Rightarrow> u64" where
  "strhash_loop [] n ret = ret"
| "strhash_loop (c # cs) n ret =
     (if c = 0 then ret
      else
        let v = n OR scast c;
            r = unat ((drop_bit 2 v XOR v) AND 0x0f);
            ret1 = (push_bit r ret OR drop_bit (32 - r) ret) AND 0xFFFFFFFF
        in strhash_loop cs (n + 0x100) (ret1 XOR v * v))"

definition lh_strhash :: "bytes option \<Rightarrow> u32" where
  "lh_strhash c =
     (case c of
        None \<Rightarrow> 0
      | Some s \<Rightarrow> (let ret = strhash_loop s 0x100 0 in ucast (drop_bit 16 ret XOR ret)))"

section \<open>What the code needs of the functions\<close>

text \<open>Equality by \<open>comp\<close> is an equivalence, and equal data hash to the same value.\<close>

locale hash_contract =
  fixes hf :: "'d \<Rightarrow> u32" and cf :: "'d \<Rightarrow> 'd \<Rightarrow> int"
  assumes cf_refl: "cf x x = 0"
    and cf_sym: "cf x y = 0 \<Longrightarrow> cf y x = 0"
    and cf_trans: "cf x y = 0 \<Longrightarrow> cf y z = 0 \<Longrightarrow> cf x z = 0"
    and hf_eq: "cf x y = 0 \<Longrightarrow> hf x = hf y"

text \<open>The data in the table, and the well-formed tables: the counts are right, every item is in the
  chain of its hash, and no two items are equal.\<close>

definition lh_data :: "'d lhash \<Rightarrow> 'd multiset" where
  "lh_data lh = image_mset snd (mset (concat (buckets lh)))"

definition placed :: "('d \<Rightarrow> u32) \<Rightarrow> nat \<Rightarrow> 'd item list list \<Rightarrow> bool" where
  "placed hf n bs \<longleftrightarrow>
     length bs = n \<and> (\<forall>i<n. \<forall>it\<in>set (bs ! i). fst it = hf (snd it) \<and> unat (fst it) mod n = i)"

definition lh_ok :: "('d \<Rightarrow> u32) \<Rightarrow> ('d \<Rightarrow> 'd \<Rightarrow> int) \<Rightarrow> 'd lhash \<Rightarrow> bool" where
  "lh_ok hf cf lh \<longleftrightarrow>
     hash lh = hf \<and> comp lh = cf \<and> kMinNumBuckets \<le> num_buckets lh \<and> num_buckets lh < 2 ^ 61 \<and>
     placed hf (num_buckets lh) (buckets lh) \<and> num_items lh = size (lh_data lh) \<and>
     (\<forall>d. size (filter_mset (\<lambda>x. cf x d = 0) (lh_data lh)) \<le> 1)"

text \<open>The table as a map: the item equal to \<open>d\<close>.\<close>

definition lookup :: "'d lhash \<Rightarrow> 'd \<Rightarrow> 'd option" where
  "lookup lh d = find (\<lambda>x. comp lh x d = 0) (map snd (concat (buckets lh)))"

section \<open>Lemmas on chains and buckets\<close>

lemma mset_concat_update:
  assumes "i < length bs"
  shows "mset (concat (bs[i := c])) + mset (bs ! i) = mset (concat bs) + mset c"
proof -
  have "mset (concat bs) = mset (concat (take i bs @ bs ! i # drop (Suc i) bs))"
    using id_take_nth_drop [OF assms] by simp
  then show ?thesis using assms by (simp add: upd_conv_take_nth_drop)
qed

lemma chain_pos_le: "chain_pos c d ch \<le> length ch"
  by (induction ch) auto

lemma chain_pos_found:
  "chain_pos c d ch < length ch \<Longrightarrow> c (snd (ch ! chain_pos c d ch)) d = 0"
  by (induction ch) auto

lemma chain_pos_end:
  "\<not> chain_pos c d ch < length ch \<Longrightarrow> it \<in> set ch \<Longrightarrow> c (snd it) d \<noteq> 0"
  by (induction ch) (auto split: if_splits)

lemma mset_delete_nth: "k < length xs \<Longrightarrow> mset (take k xs @ drop (Suc k) xs) + {# xs ! k #} = mset xs"
proof -
  assume k: "k < length xs"
  then have "mset xs = mset (take k xs @ xs ! k # drop (Suc k) xs)" using id_take_nth_drop [OF k] by simp
  then show ?thesis by simp
qed

lemma find_filter: "find P xs = (case filter P xs of [] \<Rightarrow> None | x # _ \<Rightarrow> Some x)"
  by (induction xs) auto

lemma find_mset:
  assumes "size (filter_mset P (mset xs)) \<le> 1"
  shows "find P xs = Some x \<longleftrightarrow> x \<in> set xs \<and> P x"
proof -
  have "length (filter P xs) \<le> 1" using assms by (metis mset_filter size_mset)
  then consider "filter P xs = []" | y where "filter P xs = [y]"
    by (cases "filter P xs") auto
  then show ?thesis
  proof cases
    case 1
    then show ?thesis by (auto simp: find_filter filter_empty_conv)
  next
    case 2
    then have "set (filter P xs) = {y}" by simp
    then have "x \<in> set xs \<and> P x \<longleftrightarrow> x = y" by auto
    then show ?thesis using 2 by (auto simp: find_filter)
  qed
qed

text \<open>Redistributing the items.\<close>

lemma move_item_placed:
  assumes "placed hf n bs" "0 < n" "fst it = hf (snd it)"
  shows "placed hf n (move_item n it bs)" "mset (concat (move_item n it bs)) = add_mset it (mset (concat bs))"
proof -
  let ?b = "unat (fst it) mod n"
  have b: "?b < length bs" using assms(1,2) by (simp add: placed_def)
  show "placed hf n (move_item n it bs)"
    unfolding placed_def
  proof (intro conjI allI impI ballI)
    show "length (move_item n it bs) = n" using assms(1) by (simp add: placed_def move_item_def Let_def)
    fix i x
    assume i: "i < n" and x: "x \<in> set (move_item n it bs ! i)"
    then have "x = it \<and> i = ?b \<or> x \<in> set (bs ! i)"
      using b assms(1) by (auto simp: move_item_def Let_def placed_def nth_list_update split: if_splits)
    then show "fst x = hf (snd x)" "unat (fst x) mod n = i"
      using assms(1,3) i unfolding placed_def by blast+
  qed
  show "mset (concat (move_item n it bs)) = add_mset it (mset (concat bs))"
    using mset_concat_update [OF b, of "it # bs ! ?b"] by (simp add: move_item_def Let_def)
qed

lemma move_all_placed:
  assumes "0 < n"
  shows "placed hf n bs \<Longrightarrow> \<forall>it\<in>set xs. fst it = hf (snd it) \<Longrightarrow>
    placed hf n (fold (move_item n) xs bs) \<and> mset (concat (fold (move_item n) xs bs)) = mset xs + mset (concat bs)"
proof (induction xs arbitrary: bs)
  case (Cons x xs)
  have "fst x = hf (snd x)" using Cons.prems(2) by simp
  note m = move_item_placed [OF Cons.prems(1) assms this]
  show ?case using Cons.IH [OF m(1)] Cons.prems(2) m(2) by simp
qed simp

lemma placed_empty: "placed hf n (replicate n [])"
  by (simp add: placed_def)

lemma placed_hash: "placed hf n bs \<Longrightarrow> it \<in> set (concat bs) \<Longrightarrow> fst it = hf (snd it)"
  unfolding placed_def by (metis UN_E in_set_conv_nth set_concat)

lemma lh_rebucket_data:
  assumes "placed (hash lh) (num_buckets lh) (buckets lh)" "0 < n" "lh_rebucket lh n e = (lh', e')"
  shows "placed (hash lh) (num_buckets lh') (buckets lh') \<and> lh_data lh' = lh_data lh \<and>
    num_items lh' = num_items lh \<and> hash lh' = hash lh \<and> comp lh' = comp lh \<and> callback_depth lh' = callback_depth lh \<and>
    (num_buckets lh' = num_buckets lh \<or> num_buckets lh' = n \<and> n < 2 ^ 61)"
proof (cases "(8 * n) mod 2 ^ 64 div 8 \<noteq> n \<or> \<not> malloc_ok e")
  case True
  then have "lh' = lh" using assms(3) by (auto simp: lh_rebucket_def split: if_splits)
  then show ?thesis using assms(1) by simp
next
  case False
  have "(8 * n) mod 2 ^ 64 < 2 ^ 61 * 8" by simp
  then have "(8 * n) mod 2 ^ 64 div 8 < 2 ^ 61" by (rule less_mult_imp_div_less)
  then have "n < 2 ^ 61" using False by simp
  moreover have "\<forall>it\<in>set (concat (buckets lh)). fst it = hash lh (snd it)"
    using placed_hash [OF assms(1)] by blast
  note m = move_all_placed [OF assms(2) placed_empty this]
  moreover have "lh' = lh\<lparr>num_buckets := n, buckets := fold (move_item n) (concat (buckets lh)) (replicate n [])\<rparr>"
    using assms(3) False by (auto simp: lh_rebucket_def)
  moreover have "concat (replicate n []) = []" by simp
  ultimately show ?thesis by (simp add: lh_data_def)
qed

lemma lh_maybe_resize_data:
  assumes "placed (hash lh) (num_buckets lh) (buckets lh)" "kMinNumBuckets \<le> num_buckets lh" "num_buckets lh < 2 ^ 61"
    "lh_maybe_resize lh e = (lh', e')"
  shows "placed (hash lh) (num_buckets lh') (buckets lh')" "lh_data lh' = lh_data lh" "num_items lh' = num_items lh"
    "hash lh' = hash lh" "comp lh' = comp lh" "kMinNumBuckets \<le> num_buckets lh'" "num_buckets lh' < 2 ^ 61"
    "callback_depth lh' = callback_depth lh"
proof -
  have "lh' = lh \<or> (\<exists>n. kMinNumBuckets \<le> n \<and> lh_rebucket lh n e = (lh', e'))"
    using assms(2,3,4) by (auto simp: lh_maybe_resize_def Let_def split: if_splits)
  then have *: "placed (hash lh) (num_buckets lh') (buckets lh') \<and> lh_data lh' = lh_data lh \<and>
    num_items lh' = num_items lh \<and> hash lh' = hash lh \<and> comp lh' = comp lh \<and> callback_depth lh' = callback_depth lh \<and>
    kMinNumBuckets \<le> num_buckets lh' \<and> num_buckets lh' < 2 ^ 61"
  proof (elim disjE exE conjE)
    fix n
    assume n: "kMinNumBuckets \<le> n" "lh_rebucket lh n e = (lh', e')"
    then have "0 < n" by (simp add: kMinNumBuckets_def)
    from lh_rebucket_data [OF assms(1) this n(2)] show ?thesis
      using n(1) assms(2,3) by metis
  qed (use assms in simp)
  then show "placed (hash lh) (num_buckets lh') (buckets lh')" "lh_data lh' = lh_data lh" "num_items lh' = num_items lh"
    "hash lh' = hash lh" "comp lh' = comp lh" "kMinNumBuckets \<le> num_buckets lh'" "num_buckets lh' < 2 ^ 61"
    "callback_depth lh' = callback_depth lh"
    by blast+
qed

section \<open>The table as a map\<close>

lemma lh_data_iff: "x \<in># lh_data lh \<longleftrightarrow> (\<exists>it\<in>set (concat (buckets lh)). x = snd it)"
  by (auto simp: lh_data_def)

context hash_contract begin

lemma lh_okD:
  assumes "lh_ok hf cf lh"
  shows "hash lh = hf" "comp lh = cf" "placed hf (num_buckets lh) (buckets lh)" "length (buckets lh) = num_buckets lh"
    "kMinNumBuckets \<le> num_buckets lh" "num_buckets lh < 2 ^ 61" "num_items lh = size (lh_data lh)"
  using assms unfolding lh_ok_def by (blast, blast, blast, unfold placed_def, blast+)

lemma lookup_iff:
  assumes "lh_ok hf cf lh"
  shows "lookup lh d = Some x \<longleftrightarrow> x \<in># lh_data lh \<and> cf x d = 0"
proof -
  have "comp lh = cf" "size (filter_mset (\<lambda>x. cf x d = 0) (mset (map snd (concat (buckets lh))))) \<le> 1"
    using assms by (simp_all add: lh_ok_def lh_data_def)
  then show ?thesis
    unfolding lookup_def by (simp only: find_mset) (simp add: lh_data_def)
qed

lemma lookup_None:
  assumes "lh_ok hf cf lh"
  shows "lookup lh d = None \<longleftrightarrow> (\<forall>x. x \<in># lh_data lh \<longrightarrow> cf x d \<noteq> 0)"
  using lookup_iff [OF assms, of d] by (metis not_None_eq)

lemma lookup_filter:
  assumes "lh_ok hf cf lh" "lookup lh d = Some x"
  shows "filter_mset (\<lambda>y. cf y d = 0) (lh_data lh) = {#x#}"
proof -
  have x: "x \<in># filter_mset (\<lambda>y. cf y d = 0) (lh_data lh)"
    using lookup_iff [OF assms(1)] assms(2) by simp
  then obtain M where M: "filter_mset (\<lambda>y. cf y d = 0) (lh_data lh) = add_mset x M"
    by (meson multi_member_split)
  moreover have "size (filter_mset (\<lambda>y. cf y d = 0) (lh_data lh)) \<le> 1"
    using assms(1) by (simp add: lh_ok_def)
  ultimately show ?thesis by simp
qed

text \<open>The pointer that the search returns: it is in the bucket of the hash, and points to the item of
  the map or to the end of its chain.\<close>

lemma get_next_ptr:
  assumes "lh_ok hf cf lh" "get_next_ptr_and_hash lh d = (h, b, k)"
  shows "h = hf d" "b = unat (hf d) mod num_buckets lh" "b < length (buckets lh)" "k \<le> length (buckets lh ! b)"
    "case item_at lh (b, k) of
       None \<Rightarrow> lookup lh d = None \<and> k = length (buckets lh ! b)
     | Some it \<Rightarrow> lookup lh d = Some (snd it) \<and> it = buckets lh ! b ! k \<and> k < length (buckets lh ! b) \<and>
         fst it = hf (snd it) \<and> cf (snd it) d = 0"
proof -
  have lh: "hash lh = hf" "comp lh = cf" "0 < num_buckets lh" "placed hf (num_buckets lh) (buckets lh)"
    using assms(1) by (auto simp: lh_ok_def kMinNumBuckets_def)
  show h: "h = hf d" and b: "b = unat (hf d) mod num_buckets lh"
    using assms(2) lh by (auto simp: get_next_ptr_and_hash_def Let_def)
  have k: "k = chain_pos cf d (buckets lh ! b)"
    using assms(2) lh by (auto simp: get_next_ptr_and_hash_def Let_def)
  show bl: "b < length (buckets lh)"
    using b lh(3,4) by (simp add: placed_def)
  show "k \<le> length (buckets lh ! b)" unfolding k by (rule chain_pos_le)
  have in_b: "it \<in> set (buckets lh ! b)" if "it \<in> set (concat (buckets lh))" "cf (snd it) d = 0" for it
  proof -
    obtain i where i: "i < length (buckets lh)" "it \<in> set (buckets lh ! i)"
      using \<open>it \<in> set (concat (buckets lh))\<close> by (metis UN_E in_set_conv_nth set_concat)
    then have "unat (hf (snd it)) mod num_buckets lh = i"
      using lh(4) by (fastforce simp: placed_def)
    then show ?thesis using i hf_eq [OF that(2)] b by simp
  qed
  show "case item_at lh (b, k) of
       None \<Rightarrow> lookup lh d = None \<and> k = length (buckets lh ! b)
     | Some it \<Rightarrow> lookup lh d = Some (snd it) \<and> it = buckets lh ! b ! k \<and> k < length (buckets lh ! b) \<and>
         fst it = hf (snd it) \<and> cf (snd it) d = 0"
  proof (cases "k < length (buckets lh ! b)")
    case True
    let ?it = "buckets lh ! b ! k"
    have c: "cf (snd ?it) d = 0" using chain_pos_found [of cf d "buckets lh ! b"] True k by simp
    have m: "?it \<in> set (concat (buckets lh))"
      using True bl by (auto intro!: bexI [of _ "buckets lh ! b"])
    have "lookup lh d = Some (snd ?it)"
      using lookup_iff [OF assms(1)] c m by (auto simp: lh_data_def)
    then show ?thesis using True c placed_hash [OF lh(4) m] by (simp add: item_at_def)
  next
    case False
    have "cf x d \<noteq> 0" if "x \<in># lh_data lh" for x
    proof
      assume c: "cf x d = 0"
      obtain it where it: "it \<in> set (concat (buckets lh))" "x = snd it"
        using \<open>x \<in># lh_data lh\<close> unfolding lh_data_iff by blast
      then show False
        using in_b [OF it(1)] chain_pos_end [of cf d "buckets lh ! b" it] False k c by simp
    qed
    then show ?thesis
      using False lookup_None [OF assms(1)] chain_pos_le [of cf d "buckets lh ! b"] k by (simp add: item_at_def)
  qed
qed

lemma lh_retrieve_lookup:
  assumes "lh_ok hf cf lh"
  shows "lh_retrieve lh d = lookup lh d"
proof -
  obtain h b k where p: "get_next_ptr_and_hash lh d = (h, b, k)" by (metis prod_cases3)
  show ?thesis
    using get_next_ptr(5) [OF assms p] p by (auto simp: lh_retrieve_def split: option.splits)
qed

text \<open>Changes of one chain keep the others.\<close>

lemma placed_update:
  assumes "placed hf n bs" "b < n" "\<forall>it\<in>set c. fst it = hf (snd it) \<and> unat (fst it) mod n = b"
  shows "placed hf n (bs[b := c])"
  using assms unfolding placed_def by (metis length_list_update nth_list_update)

lemma placed_chain: "placed hf n bs \<Longrightarrow> b < n \<Longrightarrow> \<forall>it\<in>set (bs ! b). fst it = hf (snd it) \<and> unat (fst it) mod n = b"
  unfolding placed_def by blast

lemma lh_maybe_resize_ok:
  assumes "lh_ok hf cf lh" "lh_maybe_resize lh e = (lh', e')"
  shows "lh_ok hf cf lh'" "lh_data lh' = lh_data lh"
  using lh_maybe_resize_data [OF _ _ _ assms(2)] assms(1) by (auto simp: lh_ok_def)

text \<open>Two well-formed tables with the same data are the same map.\<close>

lemma lookup_cong:
  "lh_ok hf cf lh \<Longrightarrow> lh_ok hf cf lh' \<Longrightarrow> lh_data lh' = lh_data lh \<Longrightarrow> lookup lh' = lookup lh"
  by (rule ext) (metis lookup_iff not_None_eq)

end

section \<open>Insertion and deletion\<close>

lemma lh_data_update:
  assumes "b < length (buckets lh)" "mset c + D = mset (buckets lh ! b) + A"
  shows "lh_data (lh\<lparr>buckets := (buckets lh)[b := c]\<rparr>) + image_mset snd D = lh_data lh + image_mset snd A"
proof -
  have "mset (concat ((buckets lh)[b := c])) + mset (buckets lh ! b) + D = mset (concat (buckets lh)) + mset c + D"
    using mset_concat_update [OF assms(1), of c] by simp
  also have "\<dots> = mset (concat (buckets lh)) + A + mset (buckets lh ! b)"
    using assms(2) by (simp add: ac_simps)
  finally have "mset (concat ((buckets lh)[b := c])) + D = mset (concat (buckets lh)) + A"
    by (simp add: ac_simps)
  then have "image_mset snd (mset (concat ((buckets lh)[b := c])) + D) = image_mset snd (mset (concat (buckets lh)) + A)"
    by simp
  then show ?thesis by (simp add: lh_data_def)
qed

context hash_contract begin

lemma cf_eq_cong: "cf x y = 0 \<Longrightarrow> cf x d = 0 \<longleftrightarrow> cf y d = 0"
  using cf_sym cf_trans by blast

text \<open>An insertion replaces the equal item, or adds one; it fails only when the allocation does.\<close>

lemma lh_insert_ok:
  assumes "lh_ok hf cf lh" "lh_insert lh d e = ((ok, old), lh', e')"
  shows "lh_ok hf cf lh'"
    "if ok then old = lookup lh d \<and>
       lh_data lh' = add_mset d (lh_data lh - filter_mset (\<lambda>x. cf x d = 0) (lh_data lh))
     else old = None \<and> lh' = lh \<and> lookup lh d = None \<and> \<not> malloc_ok e"
proof -
  obtain h b k where p: "get_next_ptr_and_hash lh d = (h, b, k)" by (metis prod_cases3)
  note ptr = get_next_ptr [OF assms(1) p]
  have lh: "placed hf (num_buckets lh) (buckets lh)" "b < num_buckets lh"
    using lh_okD [OF assms(1)] ptr(3) by simp_all
  have "lh_ok hf cf lh' \<and> (if ok then old = lookup lh d \<and>
       lh_data lh' = add_mset d (lh_data lh - filter_mset (\<lambda>x. cf x d = 0) (lh_data lh))
     else old = None \<and> lh' = lh \<and> lookup lh d = None \<and> \<not> malloc_ok e)"
  proof (cases "item_at lh (b, k)")
    case (Some it)
    note it = ptr(5) [unfolded Some, simplified]
    define c where "c = (buckets lh ! b)[k := (fst it, d)]"
    have lh': "lh' = lh\<lparr>buckets := (buckets lh)[b := c]\<rparr>" and r: "ok" "old = Some (snd it)"
      using assms(2) p Some by (auto simp: lh_insert_def c_def)
    have "mset c + {#it#} = mset (buckets lh ! b) + {#(fst it, d)#}"
      using it by (simp add: c_def mset_update)
    from lh_data_update [OF ptr(3) this]
    have data: "lh_data lh' + {#snd it#} = lh_data lh + {#d#}" by (simp add: lh')
    have eq: "cf (snd it) x = 0 \<longleftrightarrow> cf d x = 0" for x by (rule cf_eq_cong) (use it in blast)
    note f = lookup_filter [OF assms(1)]
    have "size (filter_mset (\<lambda>x. cf x y = 0) (lh_data lh')) = size (filter_mset (\<lambda>x. cf x y = 0) (lh_data lh))" for y
    proof -
      have "filter_mset (\<lambda>x. cf x y = 0) (lh_data lh' + {#snd it#}) = filter_mset (\<lambda>x. cf x y = 0) (lh_data lh + {#d#})"
        using data by (rule arg_cong)
      from arg_cong [OF this, of size] show ?thesis
        by (cases "cf d y = 0") (simp_all add: eq)
    qed
    moreover have "size (lh_data lh') = size (lh_data lh)"
      using arg_cong [OF data, of size] by simp
    moreover have "fst it = hf d" using it hf_eq [of "snd it" d] by metis
    then have "placed hf (num_buckets lh) ((buckets lh)[b := c])"
      using placed_chain [OF lh] ptr(1,2) it by (intro placed_update [OF lh]) (auto simp: c_def dest!: set_update_subset_insert [THEN subsetD])
    ultimately have "lh_ok hf cf lh'" using assms(1) by (simp add: lh_ok_def lh')
    moreover have "lh_data lh' = add_mset d (lh_data lh - {#snd it#})"
      using data by (metis add_mset_add_single add_mset_remove_trivial diff_union_swap2 diff_single_trivial
          insert_DiffM2 lookup_iff [OF assms(1)] it multi_self_add_other_not_self union_single_eq_member add.right_cancel)
    ultimately show ?thesis using r it f [of d "snd it"] by simp
  next
    case None
    note none = ptr(5) [unfolded None, simplified]
    have no: "filter_mset (\<lambda>x. cf x d = 0) (lh_data lh) = {#}"
      using none lookup_None [OF assms(1)] by simp
    show ?thesis
    proof (cases "malloc_ok e")
      case False
      then show ?thesis using assms p None none by (auto simp: lh_insert_def)
    next
      case True
      define lh1 where "lh1 = lh\<lparr>buckets := (buckets lh)[b := buckets lh ! b @ [(h, d)]], num_items := num_items lh + 1\<rparr>"
      have res: "lh_maybe_resize lh1 (tick e) = (lh', e')" "ok" "old = None"
        using assms(2) p None True by (auto simp: lh_insert_def lh1_def)
      have "mset (buckets lh ! b @ [(h, d)]) + {#} = mset (buckets lh ! b) + {#(h, d)#}" by simp
      from lh_data_update [OF ptr(3) this]
      have data: "lh_data lh1 = add_mset d (lh_data lh)" by (simp add: lh1_def lh_data_def)
      have one: "size (filter_mset (\<lambda>x. cf x y = 0) (lh_data lh1)) \<le> 1" for y
      proof (cases "cf d y = 0")
        case True
        then have "filter_mset (\<lambda>x. cf x y = 0) (lh_data lh) = filter_mset (\<lambda>x. cf x d = 0) (lh_data lh)"
          using cf_sym cf_trans by (intro filter_mset_cong) blast+
        then show ?thesis using data no True by simp
      next
        case False
        then show ?thesis using data assms(1) by (simp add: lh_ok_def)
      qed
      have "placed hf (num_buckets lh) ((buckets lh)[b := buckets lh ! b @ [(h, d)]])"
        using placed_chain [OF lh] ptr(1,2) by (intro placed_update [OF lh]) auto
      then have "lh_ok hf cf lh1"
        using assms(1) one data by (simp add: lh_ok_def lh1_def)
      then show ?thesis unfolding no using lh_maybe_resize_ok [OF _ res(1)] res data none by simp
    qed
  qed
  then show "lh_ok hf cf lh'" "if ok then old = lookup lh d \<and>
       lh_data lh' = add_mset d (lh_data lh - filter_mset (\<lambda>x. cf x d = 0) (lh_data lh))
     else old = None \<and> lh' = lh \<and> lookup lh d = None \<and> \<not> malloc_ok e" by blast+
qed

lemma lh_delete_ok:
  assumes "lh_ok hf cf lh" "lh_delete lh d e = (old, lh', e')"
  shows "lh_ok hf cf lh'" "old = lookup lh d" "lh_data lh' = lh_data lh - filter_mset (\<lambda>x. cf x d = 0) (lh_data lh)"
proof -
  obtain h b k where p: "get_next_ptr_and_hash lh d = (h, b, k)" by (metis prod_cases3)
  note ptr = get_next_ptr [OF assms(1) p]
  have lh: "placed hf (num_buckets lh) (buckets lh)" "b < num_buckets lh"
    using lh_okD [OF assms(1)] ptr(3) by simp_all
  have "lh_ok hf cf lh' \<and> old = lookup lh d \<and> lh_data lh' = lh_data lh - filter_mset (\<lambda>x. cf x d = 0) (lh_data lh)"
  proof (cases "item_at lh (b, k)")
    case None
    then have none: "lookup lh d = None" "old = None" "lh' = lh"
      using ptr(5) assms(2) p by (auto simp: lh_delete_def)
    have no: "filter_mset (\<lambda>x. cf x d = 0) (lh_data lh) = {#}"
      using none(1) lookup_None [OF assms(1)] by simp
    show ?thesis unfolding no none using assms(1) none by simp
  next
    case (Some it)
    note it = ptr(5) [unfolded Some, simplified]
    define c where "c = take k (buckets lh ! b) @ drop (Suc k) (buckets lh ! b)"
    define lh1 where "lh1 = lh\<lparr>buckets := (buckets lh)[b := c], num_items := num_items lh - 1\<rparr>"
    have res: "lh_maybe_resize lh1 e = (lh', e')" "old = Some (snd it)"
      using assms(2) p Some by (auto simp: lh_delete_def lh1_def c_def)
    have "mset c + {#it#} = mset (buckets lh ! b) + {#}"
      using mset_delete_nth [of k "buckets lh ! b"] it by (simp add: c_def)
    from lh_data_update [OF ptr(3) this]
    have data: "add_mset (snd it) (lh_data lh1) = lh_data lh" by (simp add: lh1_def lh_data_def)
    have "set c \<subseteq> set (buckets lh ! b)" by (auto simp: c_def dest: in_set_takeD in_set_dropD)
    then have "placed hf (num_buckets lh) ((buckets lh)[b := c])"
      using placed_chain [OF lh] by (intro placed_update [OF lh]) auto
    moreover have "size (filter_mset (\<lambda>x. cf x y = 0) (lh_data lh1)) \<le> 1" for y
    proof -
      have "size (filter_mset (\<lambda>x. cf x y = 0) (lh_data lh)) \<le> 1" using assms(1) by (simp add: lh_ok_def)
      moreover have "filter_mset (\<lambda>x. cf x y = 0) (lh_data lh1) \<subseteq># filter_mset (\<lambda>x. cf x y = 0) (lh_data lh)"
        unfolding data [symmetric] by (intro multiset_filter_mono) simp
      ultimately show ?thesis using size_mset_mono le_trans by blast
    qed
    moreover have "num_items lh1 = size (lh_data lh1)"
      using lh_okD(7) [OF assms(1)] unfolding data [symmetric] by (simp add: lh1_def)
    ultimately have "lh_ok hf cf lh1"
      using lh_okD [OF assms(1)] by (simp add: lh_ok_def) (simp add: lh1_def)
    note after = lh_maybe_resize_ok [OF this res(1)]
    have found: "lookup lh d = Some (snd it)" using it by blast
    have "lh_data lh - {#snd it#} = lh_data lh1" unfolding data [symmetric] by simp
    then show ?thesis unfolding lookup_filter [OF assms(1) found] using after res(2) found by simp
  qed
  then show "lh_ok hf cf lh'" "old = lookup lh d" "lh_data lh' = lh_data lh - filter_mset (\<lambda>x. cf x d = 0) (lh_data lh)"
    by blast+
qed

lemma lookup_removed:
  assumes "lh_ok hf cf lh" "lh_ok hf cf lh'" "lh_data lh' = lh_data lh - filter_mset (\<lambda>x. cf x d = 0) (lh_data lh)"
  shows "lookup lh' y = (if cf d y = 0 then None else lookup lh y)"
proof -
  have mem: "x \<in># lh_data lh' \<longleftrightarrow> x \<in># lh_data lh \<and> cf x d \<noteq> 0" for x
    unfolding assms(3) by (metis (mono_tags, lifting) filter_mset_eq_conv multiset_partition add_diff_cancel_left' mem_Collect_eq set_mset_filter)
  show ?thesis
  proof (cases "cf d y = 0")
    case True
    then have "cf x d \<noteq> 0 \<Longrightarrow> cf x y \<noteq> 0" for x using cf_sym cf_trans by blast
    then show ?thesis using True lookup_None [OF assms(2)] mem by auto
  next
    case False
    then have "cf x y = 0 \<Longrightarrow> cf x d \<noteq> 0" for x using cf_sym cf_trans by blast
    then have "lookup lh' y = Some x \<longleftrightarrow> lookup lh y = Some x" for x
      unfolding lookup_iff [OF assms(1)] lookup_iff [OF assms(2)] mem by blast
    then show ?thesis using False by (metis not_None_eq)
  qed
qed

lemma lookup_replaced:
  assumes "lh_ok hf cf lh" "lh_ok hf cf lh'" "lh_data lh' = add_mset d (lh_data lh - filter_mset (\<lambda>x. cf x d = 0) (lh_data lh))"
  shows "lookup lh' y = (if cf d y = 0 then Some d else lookup lh y)"
proof -
  have mem: "x \<in># lh_data lh' \<longleftrightarrow> x = d \<or> x \<in># lh_data lh \<and> cf x d \<noteq> 0" for x
    unfolding assms(3) by (metis (mono_tags, lifting) filter_mset_eq_conv multiset_partition add_diff_cancel_left' mem_Collect_eq set_mset_filter insert_iff set_mset_add_mset_insert)
  show ?thesis
  proof (cases "cf d y = 0")
    case True
    then show ?thesis using lookup_iff [OF assms(2), of y d] mem by simp
  next
    case False
    then have "x \<noteq> d \<and> cf x d \<noteq> 0" if "cf x y = 0" for x using that cf_sym cf_trans by blast
    then have "lookup lh' y = Some x \<longleftrightarrow> lookup lh y = Some x" for x
      unfolding lookup_iff [OF assms(1)] lookup_iff [OF assms(2)] mem by blast
    then show ?thesis using False by (metis not_None_eq)
  qed
qed

end

section \<open>Sequences of calls\<close>

datatype 'd lh_cmd = LhInsert 'd | LhRetrieve 'd | LhDelete 'd | LhNum

datatype 'd lh_result = Inserted bool "'d option" | Item "'d option" | Size nat

fun lh_exec :: "'d lh_cmd \<Rightarrow> 'd lhash \<times> env \<Rightarrow> 'd lh_result \<times> 'd lhash \<times> env" where
  "lh_exec (LhInsert d) (lh, e) = (case lh_insert lh d e of ((ok, old), s) \<Rightarrow> (Inserted ok old, s))"
| "lh_exec (LhRetrieve d) (lh, e) = (Item (lh_retrieve lh d), lh, e)"
| "lh_exec (LhDelete d) (lh, e) = (case lh_delete lh d e of (old, s) \<Rightarrow> (Item old, s))"
| "lh_exec LhNum (lh, e) = (Size (lh_num_items lh), lh, e)"

text \<open>The same calls on a map from data to the item equal to it, and the number of items.\<close>

fun map_exec ::
  "('d \<Rightarrow> 'd \<Rightarrow> int) \<Rightarrow> 'd lh_cmd \<Rightarrow> ('d \<Rightarrow> 'd option) \<times> nat \<Rightarrow> 'd lh_result \<times> ('d \<Rightarrow> 'd option) \<times> nat"
where
  "map_exec c (LhInsert d) (m, n) =
     (Inserted True (m d), (\<lambda>y. if c d y = 0 then Some d else m y), if m d = None then n + 1 else n)"
| "map_exec c (LhRetrieve d) (m, n) = (Item (m d), m, n)"
| "map_exec c (LhDelete d) (m, n) =
     (Item (m d), (\<lambda>y. if c d y = 0 then None else m y), if m d = None then n else n - 1)"
| "map_exec c LhNum (m, n) = (Size n, m, n)"

primrec run :: "('c \<Rightarrow> 's \<Rightarrow> 'r \<times> 's) \<Rightarrow> 'c list \<Rightarrow> 's \<Rightarrow> 'r list \<times> 's" where
  "run f [] s = ([], s)"
| "run f (c # cs) s = (case f c s of (r, s') \<Rightarrow> (case run f cs s' of (rs, s'') \<Rightarrow> (r # rs, s'')))"

lemma lh_rebucket_env: "lh_rebucket lh n e = (lh', e') \<Longrightarrow> e' = e \<or> e' = tick e"
  by (auto simp: lh_rebucket_def split: if_splits)

lemma lh_maybe_resize_env: "lh_maybe_resize lh e = (lh', e') \<Longrightarrow> e' = e \<or> e' = tick e"
  by (auto simp: lh_maybe_resize_def Let_def dest: lh_rebucket_env split: if_splits)

lemma lh_maybe_resize_never_fails: "lh_maybe_resize lh e = (lh', e') \<Longrightarrow> never_fails e \<Longrightarrow> never_fails e'"
  using lh_maybe_resize_env by fastforce

lemma lh_exec_never_fails:
  assumes "never_fails e" "lh_exec c (lh, e) = (r, lh', e')"
  shows "never_fails e'"
proof (cases c)
  case (LhInsert d)
  then show ?thesis using assms
    by (auto simp: lh_insert_def elim!: lh_maybe_resize_never_fails split: prod.splits option.splits if_splits)
next
  case (LhDelete d)
  then show ?thesis using assms
    by (auto simp: lh_delete_def elim!: lh_maybe_resize_never_fails split: prod.splits option.splits)
qed (use assms in auto)

context hash_contract begin

lemma lh_exec_map:
  assumes "lh_ok hf cf lh" "never_fails e" "lh_exec c (lh, e) = (r, lh', e')"
  shows "lh_ok hf cf lh' \<and> map_exec cf c (lookup lh, num_items lh) = (r, lookup lh', num_items lh')"
proof (cases c)
  case (LhInsert d)
  then obtain ok old where ins: "lh_insert lh d e = ((ok, old), lh', e')" and r: "r = Inserted ok old"
    using assms(3) by (auto split: prod.splits)
  note i = lh_insert_ok [OF assms(1) ins]
  have ok: ok using i(2) assms(2) by (auto split: if_splits)
  then have data: "old = lookup lh d" "lh_data lh' = add_mset d (lh_data lh - filter_mset (\<lambda>x. cf x d = 0) (lh_data lh))"
    using i(2) by simp_all
  have "lookup lh' = (\<lambda>y. if cf d y = 0 then Some d else lookup lh y)"
    using lookup_replaced [OF assms(1) i(1) data(2)] by (rule ext)
  moreover have "num_items lh' = (if lookup lh d = None then num_items lh + 1 else num_items lh)"
  proof (cases "lookup lh d")
    case None
    then have no: "filter_mset (\<lambda>x. cf x d = 0) (lh_data lh) = {#}" using lookup_None [OF assms(1)] by simp
    show ?thesis using data(2) None unfolding lh_okD(7) [OF assms(1)] lh_okD(7) [OF i(1)] no by simp
  next
    case (Some x)
    then have "x \<in># lh_data lh" using lookup_iff [OF assms(1)] by simp
    then have "size (lh_data lh) = Suc (size (lh_data lh - {#x#}))" by (metis insert_DiffM size_add_mset)
    then show ?thesis
      using data(2) Some lookup_filter [OF assms(1) Some] by (simp add: lh_okD(7) [OF assms(1)] lh_okD(7) [OF i(1)])
  qed
  ultimately show ?thesis using i(1) LhInsert r ok data(1) by simp
next
  case (LhDelete d)
  then obtain old where del: "lh_delete lh d e = (old, lh', e')" and r: "r = Item old"
    using assms(3) by (auto split: prod.splits)
  note i = lh_delete_ok [OF assms(1) del]
  have "lookup lh' = (\<lambda>y. if cf d y = 0 then None else lookup lh y)"
    using lookup_removed [OF assms(1) i(1,3)] by (rule ext)
  moreover have "num_items lh' = (if lookup lh d = None then num_items lh else num_items lh - 1)"
  proof (cases "lookup lh d")
    case None
    then have no: "filter_mset (\<lambda>x. cf x d = 0) (lh_data lh) = {#}" using lookup_None [OF assms(1)] by simp
    show ?thesis using i(3) None unfolding lh_okD(7) [OF assms(1)] lh_okD(7) [OF i(1)] no by simp
  next
    case (Some x)
    then have "x \<in># lh_data lh" using lookup_iff [OF assms(1)] by simp
    then show ?thesis
      using i(3) Some lookup_filter [OF assms(1) Some]
      by (simp add: lh_okD(7) [OF assms(1)] lh_okD(7) [OF i(1)] size_Diff_singleton)
  qed
  ultimately show ?thesis using i(1,2) LhDelete r by simp
next
  case (LhRetrieve d)
  then show ?thesis using assms lh_retrieve_lookup [OF assms(1)] by auto
next
  case LhNum
  then show ?thesis using assms by (auto simp: lh_num_items_def)
qed

lemma lh_run_map:
  "lh_ok hf cf lh \<Longrightarrow> never_fails e \<Longrightarrow> run lh_exec cs (lh, e) = (rs, lh', e') \<Longrightarrow>
     lh_ok hf cf lh' \<and> run (map_exec cf) cs (lookup lh, num_items lh) = (rs, lookup lh', num_items lh')"
proof (induction cs arbitrary: lh e rs)
  case (Cons c cs)
  obtain r lh1 e1 rs1 where one: "lh_exec c (lh, e) = (r, lh1, e1)" and rest: "run lh_exec cs (lh1, e1) = (rs1, lh', e')"
    and rs: "rs = r # rs1"
    using Cons.prems(3) by (auto split: prod.splits)
  note step = lh_exec_map [OF Cons.prems(1,2) one]
  show ?case
    using Cons.IH [OF _ lh_exec_never_fails [OF Cons.prems(2) one] rest] step rs by simp
qed simp

lemma lh_new_ok:
  assumes "lh_new hf cf e = (Some lh, e')"
  shows "lh_ok hf cf lh" "lookup lh = (\<lambda>_. None)" "num_items lh = 0" "callback_depth lh = 0"
    "never_fails e \<Longrightarrow> never_fails e'"
  using assms placed_empty [of hf 16]
  by (auto simp: lh_new_def lh_ok_def kMinNumBuckets_def lh_data_def lookup_def split: if_splits)

end

text \<open>Resizing keeps the tables sparse, fewer than three items per bucket, while memory lasts.\<close>

lemma rebucket_fits: "n < 2 ^ 61 \<Longrightarrow> (8 * n) mod 2 ^ 64 div 8 = (n :: nat)"
proof -
  assume "n < 2 ^ 61"
  then have "(8 * n) mod 2 ^ 64 = 8 * n" by (intro mod_less) simp
  then show ?thesis by simp
qed

lemma lh_maybe_resize_sparse:
  assumes "kMinNumBuckets \<le> num_buckets lh" "num_buckets lh < 2 ^ 60" "malloc_ok e" "callback_depth lh = 0"
    "num_items lh \<le> 3 * num_buckets lh" "lh_maybe_resize lh e = (lh', e')"
  shows "num_items lh' < 3 * num_buckets lh'" "callback_depth lh' = 0"
proof -
  have b: "16 \<le> num_buckets lh" using assms(1) by (simp add: kMinNumBuckets_def)
  have "num_items lh' < 3 * num_buckets lh' \<and> callback_depth lh' = 0"
  proof (cases "num_items lh = 3 * num_buckets lh")
    case True
    then have "num_items lh div num_buckets lh = 3" using b by simp
    moreover have "(num_buckets lh * 2) mod 2 ^ 64 = num_buckets lh * 2" using assms(2) by (intro mod_less) simp
    moreover have "(8 * (num_buckets lh * 2)) mod 2 ^ 64 div 8 = num_buckets lh * 2"
      using assms(2) by (intro rebucket_fits) simp
    ultimately show ?thesis
      using assms(3,4,6) b True
      by (auto simp: lh_maybe_resize_def lh_rebucket_def Let_def kMaxAverageChainLength_def)
  next
    case False
    then have lt: "num_items lh < 3 * num_buckets lh" using assms(5) by simp
    then have avg: "\<not> num_items lh div num_buckets lh > kMaxAverageChainLength"
      by (simp add: kMaxAverageChainLength_def not_less div_less_iff_less_mult less_Suc_eq_le [symmetric] mult.commute b [THEN less_le_trans [rotated]])
    show ?thesis
    proof (cases "num_items lh div num_buckets lh < kMinAverageChainLength \<and> num_buckets lh > kMinNumBuckets")
      case True
      then have "num_items lh div num_buckets lh = 0" by (simp add: kMinAverageChainLength_def)
      then have few: "num_items lh < num_buckets lh" using b by (simp add: div_eq_0_iff)
      define n where "n = (if num_buckets lh div 2 < kMinNumBuckets then kMinNumBuckets else num_buckets lh div 2)"
      have n: "n < 2 ^ 61" "num_buckets lh < 3 * n"
        using assms(2) b by (auto simp: n_def kMinNumBuckets_def)
      have "lh_rebucket lh n e = (lh', e')"
        using assms(4,6) avg True by (simp add: lh_maybe_resize_def Let_def n_def)
      then have "num_buckets lh' = n \<and> num_items lh' = num_items lh \<and> callback_depth lh' = callback_depth lh"
        using assms(3) rebucket_fits [OF n(1)] by (auto simp: lh_rebucket_def)
      then show ?thesis using few n(2) assms(4) by simp
    next
      case False
      then have "lh' = lh" using assms(4,6) avg by (auto simp: lh_maybe_resize_def Let_def)
      then show ?thesis using lt assms(4) by simp
    qed
  qed
  then show "num_items lh' < 3 * num_buckets lh'" "callback_depth lh' = 0" by simp_all
qed

lemma lh_exec_sparse:
  assumes "kMinNumBuckets \<le> num_buckets lh" "num_buckets lh < 2 ^ 60" "never_fails e" "callback_depth lh = 0"
    "num_items lh < 3 * num_buckets lh" "lh_exec c (lh, e) = (r, lh', e')"
  shows "num_items lh' < 3 * num_buckets lh' \<and> callback_depth lh' = 0"
proof (cases c)
  case (LhInsert d)
  obtain h b k where p: "get_next_ptr_and_hash lh d = (h, b, k)" by (metis prod_cases3)
  show ?thesis
  proof (cases "item_at lh (b, k)")
    case None
    let ?lh1 = "lh\<lparr>buckets := (buckets lh)[b := buckets lh ! b @ [(h, d)]], num_items := num_items lh + 1\<rparr>"
    have "lh_maybe_resize ?lh1 (tick e) = (lh', e')"
      using assms(3,6) LhInsert p None by (simp add: lh_insert_def)
    then show ?thesis
      using lh_maybe_resize_sparse [of ?lh1 "tick e" lh' e'] assms(1-5) by simp
  next
    case (Some it)
    then show ?thesis using assms(4-6) LhInsert p by (auto simp: lh_insert_def)
  qed
next
  case (LhDelete d)
  obtain h b k where p: "get_next_ptr_and_hash lh d = (h, b, k)" by (metis prod_cases3)
  show ?thesis
  proof (cases "item_at lh (b, k)")
    case None
    then show ?thesis using assms(4-6) LhDelete p by (auto simp: lh_delete_def)
  next
    case (Some it)
    let ?lh1 = "lh\<lparr>buckets := (buckets lh)[b := take k (buckets lh ! b) @ drop (k + 1) (buckets lh ! b)], num_items := num_items lh - 1\<rparr>"
    have "lh_maybe_resize ?lh1 e = (lh', e')"
      using assms(6) LhDelete p Some by (simp add: lh_delete_def)
    then show ?thesis
      using lh_maybe_resize_sparse [of ?lh1 e lh' e'] assms(1-5) by simp
  qed
qed (use assms in auto)

section \<open>Correctness\<close>

text \<open>C11: a hash table is a map. Every sequence of calls on a fresh table returns what the same calls on a map
  from the classes of equal data return, across every resizing, and leaves that map.\<close>

theorem lhash_refines_map:
  assumes "hash_contract hf cf" "never_fails e" "lh_new hf cf e = (Some lh, e1)" "run lh_exec cs (lh, e1) = (rs, lh', e2)"
  shows "lh_ok hf cf lh' \<and> run (map_exec cf) cs (\<lambda>_. None, 0) = (rs, lookup lh', num_items lh')"
proof -
  note new = hash_contract.lh_new_ok [OF assms(1,3)]
  from hash_contract.lh_run_map [OF assms(1) new(1) new(5) [OF assms(2)] assms(4)]
  show ?thesis unfolding new(2,3) .
qed

text \<open>Numbers modulo 8, with a hash that collides for half of them.\<close>

definition mod8_hash :: "nat \<Rightarrow> u32" where
  "mod8_hash x = of_nat (x mod 8 mod 4)"

definition mod8_cmp :: "nat \<Rightarrow> nat \<Rightarrow> int" where
  "mod8_cmp x y = int (x mod 8) - int (y mod 8)"

lemma mod8_contract: "hash_contract mod8_hash mod8_cmp"
  by unfold_locales (simp_all add: mod8_hash_def mod8_cmp_def)

lemma lhash_refines_map_witness:
  "case lh_new mod8_hash mod8_cmp plain_env of
     (Some lh, e) \<Rightarrow> fst (run lh_exec [LhInsert 1, LhInsert 5, LhInsert 9, LhRetrieve 17, LhDelete 5, LhRetrieve 5, LhNum] (lh, e)) =
       [Inserted True None, Inserted True None, Inserted True (Some 1), Item (Some 9), Item (Some 5), Item None, Size 1]
   | (None, e) \<Rightarrow> False"
proof -
  let ?cs = "[LhInsert 1, LhInsert 5, LhInsert 9, LhRetrieve 17, LhDelete 5, LhRetrieve 5, LhNum]"
  obtain lh e1 where new: "lh_new mod8_hash mod8_cmp plain_env = (Some lh, e1)"
    by (simp add: lh_new_def)
  obtain rs lh' e2 where run: "run lh_exec ?cs (lh, e1) = (rs, lh', e2)" by (metis prod_cases3)
  have "fst (run (map_exec mod8_cmp) ?cs (\<lambda>_. None, 0)) =
      [Inserted True None, Inserted True None, Inserted True (Some 1), Item (Some 9), Item (Some 5), Item None, Size 1]"
    by code_simp
  moreover have "run (map_exec mod8_cmp) ?cs (\<lambda>_. None, 0) = (rs, lookup lh', num_items lh')"
    using lhash_refines_map [OF mod8_contract never_fails_plain(1) new run] by blast
  ultimately show ?thesis using new run by (simp del: run.simps map_exec.simps lh_exec.simps)
qed

text \<open>With any allocator: an insertion that needs memory and gets none returns 0 and leaves the table as it
  was, and resizing that gets none leaves the table as it was; the map is the same afterwards.\<close>

theorem lh_insert_alloc:
  assumes "hash_contract hf cf" "lh_ok hf cf lh" "lh_insert lh d e = ((ok, old), lh', e')"
  shows "lh_ok hf cf lh' \<and>
    (if ok then old = lookup lh d \<and> lookup lh' = (\<lambda>y. if cf d y = 0 then Some d else lookup lh y)
     else old = None \<and> lh' = lh \<and> lookup lh d = None \<and> \<not> malloc_ok e)"
  using hash_contract.lh_insert_ok [OF assms] hash_contract.lookup_replaced [OF assms(1,2)] by (auto split: if_splits)

lemma lh_insert_alloc_witness:
  "let no = \<lparr>alloc_ok = (\<lambda>n. n < 2), alloc_n = 0, fresh = (\<lambda>n. 0)\<rparr>
   in case lh_new mod8_hash mod8_cmp no of
     (Some lh, e) \<Rightarrow> lh_insert lh 3 e = ((False, None), lh, tick e)
   | (None, e) \<Rightarrow> False"
proof -
  define no where "no = \<lparr>alloc_ok = (\<lambda>n. n < 2), alloc_n = 0, fresh = (\<lambda>n. 0)\<rparr>"
  obtain lh e where new: "lh_new mod8_hash mod8_cmp no = (Some lh, e)"
    and e: "e = tick (tick no)"
    by (simp add: lh_new_def no_def malloc_ok_def tick_def)
  note ok = hash_contract.lh_new_ok [OF mod8_contract new]
  obtain r old lh' e' where ins: "lh_insert lh 3 e = ((r, old), lh', e')" by (metis surj_pair)
  have nope: "\<not> malloc_ok e" by (simp add: e no_def malloc_ok_def tick_def)
  have "get_next_ptr_and_hash lh 3 = (mod8_hash 3, 3, 0)" "item_at lh (3, 0) = None"
    using new by (auto simp: lh_new_def no_def malloc_ok_def tick_def get_next_ptr_and_hash_def mod8_hash_def kMinNumBuckets_def item_at_def Let_def)
  then have "\<not> r" "e' = tick e" using ins nope by (auto simp: lh_insert_def)
  then have "lh_insert lh 3 e = ((False, None), lh, tick e)"
    using lh_insert_alloc [OF mod8_contract ok(1) ins] ins by simp
  then show ?thesis using new by (simp add: Let_def flip: no_def)
qed

text \<open>C12: the chains stay short: while memory lasts, every call keeps fewer than three items per bucket.\<close>

theorem lh_load_bounded:
  assumes "hash_contract hf cf" "lh_ok hf cf lh" "num_buckets lh < 2 ^ 60" "never_fails e" "callback_depth lh = 0"
    "num_items lh < 3 * num_buckets lh" "lh_exec c (lh, e) = (r, lh', e')"
  shows "num_items lh' < 3 * num_buckets lh' \<and> callback_depth lh' = 0"
  using lh_exec_sparse [OF hash_contract.lh_okD(5) [OF assms(1,2)] assms(3-7)] .

lemma lh_load_bounded_witness:
  "case lh_new mod8_hash mod8_cmp plain_env of
     (Some lh, e) \<Rightarrow> (case lh_exec (LhInsert 3) (lh, e) of (r, lh', e') \<Rightarrow> num_items lh' < 3 * num_buckets lh')
   | (None, e) \<Rightarrow> False"
proof -
  obtain lh e where new: "lh_new mod8_hash mod8_cmp plain_env = (Some lh, e)" and nb: "num_buckets lh = 16"
    by (simp add: lh_new_def kMinNumBuckets_def)
  note ok = hash_contract.lh_new_ok [OF mod8_contract new]
  obtain r lh' e' where x: "lh_exec (LhInsert 3) (lh, e) = (r, lh', e')" by (metis prod_cases3)
  have "num_items lh' < 3 * num_buckets lh'"
    using lh_load_bounded [OF mod8_contract ok(1) _ ok(5) ok(4) _ x] nb ok(3) by simp
  then show ?thesis using new x by simp
qed

text \<open>\<open>lh_doall\<close> calls the function on every item once, in some order, and leaves the map as it was;
  the depth of callbacks is as before unless the counter saturates.\<close>

theorem lh_doall_visits:
  assumes "hash_contract hf cf" "lh_ok hf cf lh" "lh_doall lh func s e = (s', lh', e')"
  shows "\<exists>xs. mset xs = lh_data lh \<and> s' = fold func xs s \<and> lh_ok hf cf lh' \<and> lookup lh' = lookup lh \<and>
    callback_depth lh' = (if callback_depth lh = UINT_MAX - 1 then UINT_MAX else callback_depth lh)"
proof -
  define lh2 where "lh2 = lh\<lparr>callback_depth := (if callback_depth lh = UINT_MAX - 1 then UINT_MAX else callback_depth lh)\<rparr>"
  note okD = hash_contract.lh_okD [OF assms(1,2)]
  have two: "lh_data lh2 = lh_data lh" "lh_ok hf cf lh2"
    using assms(2) by (simp_all add: lh2_def lh_data_def lh_ok_def)
  have "fold (\<lambda>chain s. fold (\<lambda>cur s. func (snd cur) s) chain s) chs s =
      fold func (map snd (concat chs)) s" for chs :: "'a item list list" and s
    by (induction chs arbitrary: s) (simp_all add: fold_map o_def)
  then have s': "s' = fold func (map snd (concat (buckets lh))) s" and resize: "lh_maybe_resize lh2 e = (lh', e')"
    using assms(3) okD(4)
    by (cases "callback_depth lh = UINT_MAX - 1"; cases "callback_depth lh < UINT_MAX";
        auto simp: lh_doall_def lh_doall_internal_def lh2_def Let_def)+
  note after = hash_contract.lh_maybe_resize_ok [OF assms(1) two(2) resize]
  have "lookup lh' = lookup lh"
    using hash_contract.lookup_cong [OF assms(1,2) after(1)] after(2) two(1) by simp
  moreover have "callback_depth lh' = callback_depth lh2"
    using lh_maybe_resize_data(8) [OF _ _ _ resize] hash_contract.lh_okD [OF assms(1) two(2)] by simp
  moreover have "mset (map snd (concat (buckets lh))) = lh_data lh" by (simp add: lh_data_def)
  ultimately show ?thesis
    using s' after(1) by (intro exI [of _ "map snd (concat (buckets lh))"]) (simp add: lh2_def)
qed

lemma lh_doall_visits_witness:
  "case lh_new mod8_hash mod8_cmp plain_env of
     (Some lh, e) \<Rightarrow> (case lh_doall lh (#) [] e of (s', lh', e') \<Rightarrow> s' = [] \<and> callback_depth lh' = 0)
   | (None, e) \<Rightarrow> False"
proof -
  obtain lh e where new: "lh_new mod8_hash mod8_cmp plain_env = (Some lh, e)" and empty: "lh_data lh = {#}"
    by (simp add: lh_new_def kMinNumBuckets_def lh_data_def)
  note ok = hash_contract.lh_new_ok [OF mod8_contract new]
  obtain s' lh' e' where x: "lh_doall lh (#) [] e = (s', lh', e')" by (metis prod_cases3)
  show ?thesis using lh_doall_visits [OF mod8_contract ok(1) x] empty ok(4) new x by auto
qed

text \<open>Resizing moves every item into the chain of its hash and loses none.\<close>

theorem lh_rebucket_keeps:
  assumes "placed (hash lh) (num_buckets lh) (buckets lh)" "0 < n" "lh_rebucket lh n e = (lh', e')"
  shows "placed (hash lh) (num_buckets lh') (buckets lh') \<and> mset (concat (buckets lh')) = mset (concat (buckets lh)) \<and>
    (num_buckets lh' = n \<or> lh' = lh \<and> (\<not> malloc_ok e \<or> 2 ^ 61 \<le> n))"
proof (cases "(8 * n) mod 2 ^ 64 div 8 \<noteq> n \<or> \<not> malloc_ok e")
  case True
  then have "lh' = lh" using assms(3) by (auto simp: lh_rebucket_def split: if_splits)
  moreover have "\<not> malloc_ok e \<or> 2 ^ 61 \<le> n" using True rebucket_fits [of n] by linarith
  ultimately show ?thesis using assms(1) by simp
next
  case False
  then have lh': "lh' = lh\<lparr>num_buckets := n, buckets := fold (move_item n) (concat (buckets lh)) (replicate n [])\<rparr>"
    using assms(3) by (auto simp: lh_rebucket_def)
  have "\<forall>it\<in>set (concat (buckets lh)). fst it = hash lh (snd it)"
    using placed_hash [OF assms(1)] by blast
  note m = move_all_placed [OF assms(2) placed_empty this]
  have "concat (replicate n []) = []" by simp
  then show ?thesis using m by (simp add: lh')
qed

lemma lh_rebucket_keeps_witness:
  "let lh = \<lparr>num_items = 2, buckets = [[(0, 4)], [(1, 5)]], num_buckets = 2, callback_depth = 0, comp = mod8_cmp, hash = mod8_hash\<rparr>
   in mset (concat (buckets (fst (lh_rebucket lh 1 plain_env)))) = {#(0, 4), (1, 5)#}"
proof -
  let ?lh = "\<lparr>num_items = 2, buckets = [[(0, 4)], [(1, 5)]], num_buckets = 2, callback_depth = 0, comp = mod8_cmp, hash = mod8_hash\<rparr>"
  obtain lh' e' where r: "lh_rebucket ?lh 1 plain_env = (lh', e')" by fastforce
  have "placed mod8_hash 2 [[(0, 4)], [(1, 5)]]"
    by (auto simp: placed_def mod8_hash_def less_Suc_eq numeral_2_eq_2)
  then show ?thesis using lh_rebucket_keeps [OF _ _ r] r by simp
qed

end
