(* ===== verification/Pool.thy ===== *)
theory Pool
  imports Buf LHash
begin

text \<open>
  The pools of shared buffers of \<open>crypto/pool/pool.c\<close>, with the reference counts of
  \<open>crypto/refcount_lock.c\<close>. A \<open>CRYPTO_BUFFER\<close> never changes but for its count, so a pointer to it carries
  its fields, and the heap holds what is at an address and its count. Each critical section is a
  function on the heap and the pools; the calls of one thread compose them, and the step relation at the
  end of the theory interleaves the sections of any number of threads.
\<close>

section \<open>Buffers and counts\<close>

record CRYPTO_BUFFER =
  buf_addr :: nat
  pool :: "nat option"
  bytes_of :: bytes
  len :: nat

text \<open>\<open>memcmp\<close> of the C library: the difference of the first bytes that differ. It is called on blocks of one
  length; the last equation only makes the function total.\<close>

fun c_memcmp :: "bytes \<Rightarrow> bytes \<Rightarrow> int" where
  "c_memcmp (x # xs) (y # ys) = (if x = y then c_memcmp xs ys else uint x - uint y)"
| "c_memcmp xs ys = int (length xs) - int (length ys)"

definition CRYPTO_BUFFER_hash :: "CRYPTO_BUFFER \<Rightarrow> u32" where
  "CRYPTO_BUFFER_hash buf = OPENSSL_hash32 (bytes_of buf) (len buf)"

definition CRYPTO_BUFFER_cmp :: "CRYPTO_BUFFER \<Rightarrow> CRYPTO_BUFFER \<Rightarrow> int" where
  "CRYPTO_BUFFER_cmp a b =
     (if len a \<noteq> len b then 1 else c_memcmp (take (len a) (bytes_of a)) (take (len a) (bytes_of b)))"

definition CRYPTO_REFCOUNT_MAX :: u32 where
  "CRYPTO_REFCOUNT_MAX = 0xffffffff"

definition CRYPTO_refcount_inc :: "u32 \<Rightarrow> u32" where
  "CRYPTO_refcount_inc n = (if n < CRYPTO_REFCOUNT_MAX then n + 1 else n)"

text \<open>\<open>None\<close> is \<open>abort\<close>.\<close>

definition CRYPTO_refcount_dec_and_test_zero :: "u32 \<Rightarrow> (bool \<times> u32) option" where
  "CRYPTO_refcount_dec_and_test_zero n =
     (if n = 0 then None
      else (let m = (if n < CRYPTO_REFCOUNT_MAX then n - 1 else n) in Some (m = 0, m)))"

text \<open>The hash and the comparison have the contract that the hash table needs, so its lemmas hold of a pool.\<close>

lemma c_memcmp_eq: "c_memcmp xs ys = 0 \<longleftrightarrow> xs = ys"
  by (induction xs ys rule: c_memcmp.induct) (auto simp: word_uint_eq_iff)

lemma CRYPTO_BUFFER_cmp_eq:
  "CRYPTO_BUFFER_cmp a b = 0 \<longleftrightarrow> len a = len b \<and> take (len a) (bytes_of a) = take (len a) (bytes_of b)"
  by (cases "len a = len b") (simp_all add: CRYPTO_BUFFER_cmp_def c_memcmp_eq)

interpretation bufs: hash_contract CRYPTO_BUFFER_hash CRYPTO_BUFFER_cmp
proof unfold_locales
  fix x y :: CRYPTO_BUFFER
  assume "CRYPTO_BUFFER_cmp x y = 0"
  then have "len x = len y" "take (len x) (bytes_of x) = take (len x) (bytes_of y)" unfolding CRYPTO_BUFFER_cmp_eq by blast+
  then show "CRYPTO_BUFFER_hash x = CRYPTO_BUFFER_hash y"
    unfolding CRYPTO_BUFFER_hash_def by (metis OPENSSL_hash32_take)
qed (metis CRYPTO_BUFFER_cmp_eq)+

section \<open>The heap and the pools\<close>

record heap =
  at_addr :: "nat \<Rightarrow> (CRYPTO_BUFFER \<times> u32) option"
  pools :: "nat \<Rightarrow> CRYPTO_BUFFER lhash option"
  mem :: env

definition put_count :: "CRYPTO_BUFFER \<Rightarrow> u32 \<Rightarrow> heap \<Rightarrow> heap" where
  "put_count b n h = h\<lparr>at_addr := (at_addr h)(buf_addr b := Some (b, n))\<rparr>"

definition count_of :: "heap \<Rightarrow> CRYPTO_BUFFER \<Rightarrow> u32" where
  "count_of h b = (case at_addr h (buf_addr b) of None \<Rightarrow> 0 | Some (b', n) \<Rightarrow> n)"

definition inc_ref :: "CRYPTO_BUFFER \<Rightarrow> heap \<Rightarrow> heap" where
  "inc_ref b h = put_count b (CRYPTO_refcount_inc (count_of h b)) h"

definition release :: "CRYPTO_BUFFER \<Rightarrow> heap \<Rightarrow> heap" where
  "release b h = h\<lparr>at_addr := (at_addr h)(buf_addr b := None)\<rparr>"

definition CRYPTO_BUFFER_POOL_new :: "nat \<Rightarrow> heap \<Rightarrow> nat option \<times> heap" where
  "CRYPTO_BUFFER_POOL_new p h =
     (if \<not> malloc_ok (mem h) then (None, h\<lparr>mem := tick (mem h)\<rparr>)
      else (case lh_new CRYPTO_BUFFER_hash CRYPTO_BUFFER_cmp (tick (mem h)) of
              (None, e) \<Rightarrow> (None, h\<lparr>mem := e\<rparr>)
            | (Some lh, e) \<Rightarrow> (Some p, h\<lparr>pools := (pools h)(p := Some lh), mem := e\<rparr>)))"

text \<open>\<open>None\<close> is a failed assertion.\<close>

definition CRYPTO_BUFFER_POOL_free :: "nat option \<Rightarrow> heap \<Rightarrow> heap option" where
  "CRYPTO_BUFFER_POOL_free p h =
     (case p of
        None \<Rightarrow> Some h
      | Some q \<Rightarrow>
          (case pools h q of
             None \<Rightarrow> None
           | Some lh \<Rightarrow> if lh_num_items lh = 0 then Some (h\<lparr>pools := (pools h)(q := None)\<rparr>) else None))"

text \<open>\<open>CRYPTO_BUFFER_new\<close>: the section under the read lock, the allocation of the buffer at the address
  \<open>a\<close>, and the section under the write lock.\<close>

definition new_lookup :: "bytes \<Rightarrow> nat \<Rightarrow> nat \<Rightarrow> heap \<Rightarrow> CRYPTO_BUFFER option \<times> heap" where
  "new_lookup d n p h =
     (let tmp = \<lparr>buf_addr = 0, pool = None, bytes_of = d, len = n\<rparr> in
      case Option.bind (pools h p) (\<lambda>lh. lh_retrieve lh tmp) of
        None \<Rightarrow> (None, h)
      | Some duplicate \<Rightarrow> (Some duplicate, inc_ref duplicate h))"

definition new_alloc :: "nat \<Rightarrow> bytes \<Rightarrow> nat \<Rightarrow> nat option \<Rightarrow> heap \<Rightarrow> CRYPTO_BUFFER option \<times> heap" where
  "new_alloc a d n p h =
     (if \<not> malloc_ok (mem h) then (None, h\<lparr>mem := tick (mem h)\<rparr>)
      else (case BUF_memdup d n (tick (mem h)) of
              (copy, e) \<Rightarrow>
                if n \<noteq> 0 \<and> copy = None then (None, h\<lparr>mem := e\<rparr>)
                else (let buf = \<lparr>buf_addr = a, pool = p, bytes_of = (case copy of None \<Rightarrow> [] | Some q \<Rightarrow> q), len = n\<rparr>
                      in (Some buf, put_count buf 1 (h\<lparr>mem := e\<rparr>)))))"

text \<open>The duplicate, whether the buffer was inserted, and whether the assertion on \<open>old\<close> holds.\<close>

definition new_insert :: "CRYPTO_BUFFER \<Rightarrow> nat \<Rightarrow> heap \<Rightarrow> (CRYPTO_BUFFER option \<times> bool \<times> bool) \<times> heap" where
  "new_insert buf p h =
     (case pools h p of
        None \<Rightarrow> ((None, False, False), h)
      | Some lh \<Rightarrow>
          (case lh_retrieve lh buf of
             None \<Rightarrow>
               (case lh_insert lh buf (mem h) of
                  ((inserted, old), lh', e) \<Rightarrow> ((None, inserted, old = None), h\<lparr>pools := (pools h)(p := Some lh'), mem := e\<rparr>))
           | Some duplicate \<Rightarrow> ((Some duplicate, False, True), inc_ref duplicate h)))"

text \<open>The outer option is a failed assertion.\<close>

definition CRYPTO_BUFFER_new :: "nat \<Rightarrow> bytes \<Rightarrow> nat \<Rightarrow> nat option \<Rightarrow> heap \<Rightarrow> (CRYPTO_BUFFER option \<times> heap) option" where
  "CRYPTO_BUFFER_new a d n pl h =
     (case pl of
        None \<Rightarrow> Some (new_alloc a d n None h)
      | Some p \<Rightarrow>
          (case new_lookup d n p h of
             (Some duplicate, h1) \<Rightarrow> Some (Some duplicate, h1)
           | (None, h1) \<Rightarrow>
               (case new_alloc a d n (Some p) h1 of
                  (None, h2) \<Rightarrow> Some (None, h2)
                | (Some buf, h2) \<Rightarrow>
                    (case new_insert buf p h2 of
                       ((duplicate, inserted, fine), h3) \<Rightarrow>
                         if \<not> fine then None
                         else if \<not> inserted then Some (duplicate, release buf h3)
                         else Some (Some buf, h3)))))"

definition CRYPTO_BUFFER_new_from_CBS :: "nat \<Rightarrow> CBS \<Rightarrow> nat option \<Rightarrow> heap \<Rightarrow> (CRYPTO_BUFFER option \<times> heap) option" where
  "CRYPTO_BUFFER_new_from_CBS a cbs = CRYPTO_BUFFER_new a (CBS_data cbs) (CBS_len cbs)"

text \<open>\<open>CRYPTO_BUFFER_free\<close>: the section under the write lock of the pool, or the count alone without a
  pool. \<open>None\<close> is \<open>abort\<close> or a failed assertion; \<open>True\<close> says that the buffer is to be freed.\<close>

definition drop_ref :: "CRYPTO_BUFFER \<Rightarrow> heap \<Rightarrow> (bool \<times> heap) option" where
  "drop_ref buf h =
     (case CRYPTO_refcount_dec_and_test_zero (count_of h buf) of
        None \<Rightarrow> None
      | Some (zero, c) \<Rightarrow>
          (let h1 = put_count buf c h in
           case pool buf of
             None \<Rightarrow> Some (zero, h1)
           | Some p \<Rightarrow>
               if \<not> zero then Some (False, h1)
               else (case pools h1 p of
                       None \<Rightarrow> None
                     | Some lh \<Rightarrow>
                         (case lh_delete lh buf (mem h1) of
                            (found, lh', e) \<Rightarrow>
                              if found = Some buf then Some (True, h1\<lparr>pools := (pools h1)(p := Some lh'), mem := e\<rparr>) else None))))"

definition CRYPTO_BUFFER_free :: "CRYPTO_BUFFER option \<Rightarrow> heap \<Rightarrow> heap option" where
  "CRYPTO_BUFFER_free b h =
     (case b of
        None \<Rightarrow> Some h
      | Some buf \<Rightarrow>
          (case drop_ref buf h of
             None \<Rightarrow> None
           | Some (zero, h1) \<Rightarrow> Some (if zero then release buf h1 else h1)))"

definition CRYPTO_BUFFER_up_ref :: "CRYPTO_BUFFER \<Rightarrow> heap \<Rightarrow> bool \<times> heap" where
  "CRYPTO_BUFFER_up_ref buf h = (True, inc_ref buf h)"

definition CRYPTO_BUFFER_data :: "CRYPTO_BUFFER \<Rightarrow> bytes" where
  "CRYPTO_BUFFER_data buf = bytes_of buf"

definition CRYPTO_BUFFER_len :: "CRYPTO_BUFFER \<Rightarrow> nat" where
  "CRYPTO_BUFFER_len buf = len buf"

definition CRYPTO_BUFFER_init_CBS :: "CRYPTO_BUFFER \<Rightarrow> CBS" where
  "CRYPTO_BUFFER_init_CBS buf = CBS_init (bytes_of buf) (len buf)"

section \<open>Any number of threads\<close>

text \<open>Where a thread is in a call: it missed in the pool and allocates; it has a buffer to insert; it has a
  buffer that was not inserted, or whose count reached zero, to free. \<open>held\<close> collects the references that
  the threads own between calls.\<close>

datatype pc = Idle | Missed bytes nat nat | Made CRYPTO_BUFFER nat | Doomed CRYPTO_BUFFER

record world =
  heap_of :: heap
  pcs :: "nat \<Rightarrow> pc"
  held :: "CRYPTO_BUFFER multiset"

definition taken :: "CRYPTO_BUFFER option \<Rightarrow> CRYPTO_BUFFER multiset" where
  "taken r = (case r of None \<Rightarrow> {#} | Some b \<Rightarrow> {#b#})"

text \<open>The pool that a call of a thread uses.\<close>

fun uses_pool :: "pc \<Rightarrow> nat option" where
  "uses_pool (Missed d n p) = Some p"
| "uses_pool (Made b p) = Some p"
| "uses_pool c = None"

text \<open>One critical section of one thread. The threads keep to the rules of \<open>pool.h\<close>: they pass pools that
  exist, complete data and references that they own, and free a pool that no call is using.\<close>

inductive section_step :: "world \<Rightarrow> world \<Rightarrow> bool" where
  hit: "pcs w i = Idle \<Longrightarrow> pools (heap_of w) p \<noteq> None \<Longrightarrow> n \<le> length d \<Longrightarrow>
    new_lookup d n p (heap_of w) = (Some b, h) \<Longrightarrow>
    section_step w (w\<lparr>heap_of := h, held := add_mset b (held w)\<rparr>)"
| miss: "pcs w i = Idle \<Longrightarrow> pools (heap_of w) p \<noteq> None \<Longrightarrow> n \<le> length d \<Longrightarrow>
    new_lookup d n p (heap_of w) = (None, h) \<Longrightarrow>
    section_step w (w\<lparr>heap_of := h, pcs := (pcs w)(i := Missed d n p)\<rparr>)"
| alloc: "pcs w i = Missed d n p \<Longrightarrow> at_addr (heap_of w) a = None \<Longrightarrow>
    new_alloc a d n (Some p) (heap_of w) = (r, h) \<Longrightarrow>
    section_step w (w\<lparr>heap_of := h, pcs := (pcs w)(i := (case r of None \<Rightarrow> Idle | Some b \<Rightarrow> Made b p))\<rparr>)"
| insert: "pcs w i = Made b p \<Longrightarrow> new_insert b p (heap_of w) = ((duplicate, inserted, True), h) \<Longrightarrow>
    section_step w (w\<lparr>heap_of := h, pcs := (pcs w)(i := (if inserted then Idle else Doomed b)),
      held := held w + (if inserted then {#b#} else taken duplicate)\<rparr>)"
| free_memory: "pcs w i = Doomed b \<Longrightarrow>
    section_step w (w\<lparr>heap_of := release b (heap_of w), pcs := (pcs w)(i := Idle)\<rparr>)"
| unpooled: "pcs w i = Idle \<Longrightarrow> at_addr (heap_of w) a = None \<Longrightarrow> n \<le> length d \<Longrightarrow>
    new_alloc a d n None (heap_of w) = (r, h) \<Longrightarrow>
    section_step w (w\<lparr>heap_of := h, held := held w + taken r\<rparr>)"
| up_ref: "pcs w i = Idle \<Longrightarrow> b \<in># held w \<Longrightarrow> CRYPTO_BUFFER_up_ref b (heap_of w) = (True, h) \<Longrightarrow>
    section_step w (w\<lparr>heap_of := h, held := add_mset b (held w)\<rparr>)"
| drop: "pcs w i = Idle \<Longrightarrow> b \<in># held w \<Longrightarrow> drop_ref b (heap_of w) = Some (zero, h) \<Longrightarrow>
    section_step w (w\<lparr>heap_of := h, held := held w - {#b#}, pcs := (pcs w)(i := (if zero then Doomed b else Idle))\<rparr>)"
| new_pool: "pcs w i = Idle \<Longrightarrow> pools (heap_of w) p = None \<Longrightarrow> CRYPTO_BUFFER_POOL_new p (heap_of w) = (r, h) \<Longrightarrow>
    section_step w (w\<lparr>heap_of := h\<rparr>)"
| free_pool: "pcs w i = Idle \<Longrightarrow> (\<forall>j. uses_pool (pcs w j) \<noteq> Some p) \<Longrightarrow> pools (heap_of w) p \<noteq> None \<Longrightarrow>
    CRYPTO_BUFFER_POOL_free (Some p) (heap_of w) = Some h \<Longrightarrow>
    section_step w (w\<lparr>heap_of := h\<rparr>)"

definition start :: "env \<Rightarrow> world" where
  "start e = \<lparr>heap_of = \<lparr>at_addr = (\<lambda>a. None), pools = (\<lambda>p. None), mem = e\<rparr>, pcs = (\<lambda>i. Idle), held = {#}\<rparr>"

inductive reachable :: "env \<Rightarrow> world \<Rightarrow> bool" for e where
  begin_run: "reachable e (start e)"
| run_step: "reachable e w \<Longrightarrow> section_step w w' \<Longrightarrow> reachable e w'"

section \<open>The invariant\<close>

text \<open>The buffer that a thread alone can reach.\<close>

fun own_buf :: "pc \<Rightarrow> CRYPTO_BUFFER option" where
  "own_buf (Made b p) = Some b"
| "own_buf (Doomed b) = Some b"
| "own_buf c = None"

definition allocated :: "(nat \<Rightarrow> (CRYPTO_BUFFER \<times> u32) option) \<Rightarrow> CRYPTO_BUFFER \<Rightarrow> bool" where
  "allocated A b \<longleftrightarrow> (\<exists>n. A (buf_addr b) = Some (b, n))"

definition in_table :: "(nat \<Rightarrow> CRYPTO_BUFFER lhash option) \<Rightarrow> nat \<Rightarrow> CRYPTO_BUFFER \<Rightarrow> bool" where
  "in_table P p b \<longleftrightarrow> (\<exists>lh. P p = Some lh \<and> b \<in># lh_data lh)"

definition owned :: "(nat \<Rightarrow> pc) \<Rightarrow> CRYPTO_BUFFER \<Rightarrow> bool" where
  "owned C b \<longleftrightarrow> (\<exists>i. own_buf (C i) = Some b)"

text \<open>The tables are well formed, and what is in a table is an allocated buffer of that pool and no thread's
  own.\<close>

definition tables_ok where
  "tables_ok A P C \<longleftrightarrow>
     (\<forall>p lh. P p = Some lh \<longrightarrow> lh_ok CRYPTO_BUFFER_hash CRYPTO_BUFFER_cmp lh) \<and>
     (\<forall>p b. in_table P p b \<longrightarrow> allocated A b \<and> pool b = Some p \<and> \<not> owned C b)"

text \<open>What is held is allocated and no thread's own; a thread's own buffer is allocated and no other's.\<close>

definition refs_ok where
  "refs_ok A C H \<longleftrightarrow>
     (\<forall>b. b \<in># H \<longrightarrow> allocated A b \<and> \<not> owned C b) \<and>
     (\<forall>i b. own_buf (C i) = Some b \<longrightarrow> allocated A b \<and> (\<forall>j. own_buf (C j) = Some b \<longrightarrow> j = i))"

text \<open>A buffer to be inserted has count 1; the pools in use exist.\<close>

definition pcs_ok where
  "pcs_ok A P C \<longleftrightarrow>
     (\<forall>i b p. C i = Made b p \<longrightarrow> A (buf_addr b) = Some (b, 1) \<and> pool b = Some p) \<and>
     (\<forall>i p. uses_pool (C i) = Some p \<longrightarrow> P p \<noteq> None) \<and>
     (\<forall>i d n p. C i = Missed d n p \<longrightarrow> n \<le> length d)"

text \<open>An allocated buffer that no thread has for itself is in the table of its pool, and its count is the
  number of references, or has saturated.\<close>

definition counts_ok where
  "counts_ok A P C H \<longleftrightarrow>
     (\<forall>a b n. A a = Some (b, n) \<longrightarrow> buf_addr b = a \<and> length (bytes_of b) = len b \<and>
        (\<not> owned C b \<longrightarrow>
           (n = CRYPTO_REFCOUNT_MAX \<or> n \<noteq> 0 \<and> unat n = count H b) \<and>
           (\<forall>p. pool b = Some p \<longrightarrow> in_table P p b)))"

definition inv where
  "inv A P C H \<longleftrightarrow> tables_ok A P C \<and> refs_ok A C H \<and> pcs_ok A P C \<and> counts_ok A P C H"

lemmas inv_defs = inv_def tables_ok_def refs_ok_def pcs_ok_def counts_ok_def

definition world_ok :: "world \<Rightarrow> bool" where
  "world_ok w \<longleftrightarrow> inv (at_addr (heap_of w)) (pools (heap_of w)) (pcs w) (held w)"

lemma allocated_put: "A (buf_addr b) = Some (b, n) \<Longrightarrow> allocated (A(buf_addr b \<mapsto> (b, m))) = allocated A"
  by (auto simp: allocated_def fun_eq_iff)

lemma allocated_new: "A (buf_addr b) = None \<Longrightarrow> allocated (A(buf_addr b \<mapsto> (b, m))) x \<longleftrightarrow> x = b \<or> allocated A x"
  by (auto simp: allocated_def)

lemma allocated_free: "allocated (A(a := None)) x \<longleftrightarrow> allocated A x \<and> buf_addr x \<noteq> a"
  by (auto simp: allocated_def)

lemma allocated_unique: "allocated A b \<Longrightarrow> allocated A b' \<Longrightarrow> buf_addr b = buf_addr b' \<Longrightarrow> b = b'"
  unfolding allocated_def by (metis option.inject prod.inject)

lemma owned_same:
  assumes "own_buf c = own_buf (C i)"
  shows "owned (C(i := c)) = owned C"
proof -
  have "own_buf ((C(i := c)) j) = own_buf (C j)" for j using assms by simp
  then show ?thesis by (simp add: owned_def fun_eq_iff)
qed

lemma unat_inc: "n \<noteq> CRYPTO_REFCOUNT_MAX \<Longrightarrow> CRYPTO_refcount_inc n \<noteq> 0 \<and> unat (CRYPTO_refcount_inc n) = unat n + 1"
proof -
  assume n: "n \<noteq> CRYPTO_REFCOUNT_MAX"
  have max: "unat CRYPTO_REFCOUNT_MAX = 4294967295" by (simp add: CRYPTO_REFCOUNT_MAX_def)
  have "unat n \<noteq> unat CRYPTO_REFCOUNT_MAX" using n word_unat_eq_iff by blast
  moreover have "unat n < 2 ^ 32" by (rule order.strict_trans2 [OF unsigned_less]) simp
  ultimately have "unat n < 4294967295" unfolding max by simp
  then have "n < CRYPTO_REFCOUNT_MAX" by (simp add: word_less_nat_alt max)
  moreover have "n + 1 \<noteq> 0"
  proof
    assume "n + 1 = 0"
    then have "n = - 1" by (simp add: eq_neg_iff_add_eq_0)
    then show False using n by (simp add: CRYPTO_REFCOUNT_MAX_def)
  qed
  moreover from this have "unat (n + 1) = unat n + 1" by (simp add: unatSuc add.commute [of n])
  ultimately show ?thesis by (simp add: CRYPTO_refcount_inc_def)
qed

lemma max_inc: "CRYPTO_refcount_inc CRYPTO_REFCOUNT_MAX = CRYPTO_REFCOUNT_MAX"
  by (simp add: CRYPTO_refcount_inc_def)

section \<open>Elementary changes\<close>

lemma inv_inc:
  assumes "inv A P C H" "allocated A b" "\<not> owned C b" "A (buf_addr b) = Some (b, n)"
  shows "inv (A(buf_addr b \<mapsto> (b, CRYPTO_refcount_inc n))) P C (add_mset b H)"
proof -
  note al = allocated_put [of A, OF assms(4)]
  have "tables_ok (A(buf_addr b \<mapsto> (b, CRYPTO_refcount_inc n))) P C"
    using assms(1) by (simp add: inv_def tables_ok_def al)
  moreover have "refs_ok (A(buf_addr b \<mapsto> (b, CRYPTO_refcount_inc n))) C (add_mset b H)"
    using assms(1-3) by (auto simp: inv_def refs_ok_def al)
  moreover have "pcs_ok (A(buf_addr b \<mapsto> (b, CRYPTO_refcount_inc n))) P C"
    unfolding pcs_ok_def
  proof (intro conjI allI impI)
    fix i x p
    assume x: "C i = Made x p"
    then have "owned C x" unfolding owned_def by (metis own_buf.simps(1))
    then have "x \<noteq> b" using assms(3) by blast
    moreover have "A (buf_addr x) = Some (x, 1)" using assms(1) x by (simp add: inv_def pcs_ok_def)
    ultimately show "(A(buf_addr b \<mapsto> (b, CRYPTO_refcount_inc n))) (buf_addr x) = Some (x, 1)"
      using assms(4) by auto
  qed (use assms(1) [unfolded inv_def pcs_ok_def] in blast)+
  moreover have "counts_ok (A(buf_addr b \<mapsto> (b, CRYPTO_refcount_inc n))) P C (add_mset b H)"
    unfolding counts_ok_def
  proof (intro allI impI)
    fix a x m
    assume x: "(A(buf_addr b \<mapsto> (b, CRYPTO_refcount_inc n))) a = Some (x, m)"
    have old: "buf_addr x = a \<and> length (bytes_of x) = len x \<and> (\<not> owned C x \<longrightarrow>
        (k = CRYPTO_REFCOUNT_MAX \<or> k \<noteq> 0 \<and> unat k = count H x) \<and> (\<forall>p. pool x = Some p \<longrightarrow> in_table P p x))"
      if "A a = Some (x, k)" for k
      using assms(1) that by (simp add: inv_def counts_ok_def)
    show "buf_addr x = a \<and> length (bytes_of x) = len x \<and> (\<not> owned C x \<longrightarrow>
        (m = CRYPTO_REFCOUNT_MAX \<or> m \<noteq> 0 \<and> unat m = count (add_mset b H) x) \<and> (\<forall>p. pool x = Some p \<longrightarrow> in_table P p x))"
    proof (cases "a = buf_addr b")
      case True
      then have "x = b" "m = CRYPTO_refcount_inc n" "A a = Some (x, n)" using x assms(4) by auto
      then show ?thesis using old [of n] unat_inc [of n] max_inc by (cases "n = CRYPTO_REFCOUNT_MAX") auto
    next
      case False
      then have "A a = Some (x, m)" using x by simp
      then show ?thesis using old False by fastforce
    qed
  qed
  ultimately show ?thesis by (simp add: inv_def)
qed

lemma inv_pc:
  assumes "inv A P C H" "own_buf c = own_buf (C i)" "\<And>p. uses_pool c = Some p \<Longrightarrow> P p \<noteq> None"
    "\<And>b p. c \<noteq> Made b p" "\<And>d n p. c = Missed d n p \<Longrightarrow> n \<le> length d"
  shows "inv A P (C(i := c)) H"
proof -
  have own: "own_buf ((C(i := c)) j) = own_buf (C j)" for j using assms(2) by simp
  have "pcs_ok A P (C(i := c))"
    unfolding pcs_ok_def
  proof (intro conjI allI impI)
    fix j b p assume "(C(i := c)) j = Made b p"
    then have "C j = Made b p" using assms(4) by (cases "j = i") auto
    then show "A (buf_addr b) = Some (b, 1)" "pool b = Some p" using assms(1) by (simp_all add: inv_def pcs_ok_def)
  next
    fix j p assume "uses_pool ((C(i := c)) j) = Some p"
    then show "P p \<noteq> None" using assms(1,3) unfolding inv_def pcs_ok_def by (cases "j = i") (simp, metis fun_upd_apply)
  next
    fix j d n p assume "(C(i := c)) j = Missed d n p"
    then show "n \<le> length d" using assms(1,5) unfolding inv_def pcs_ok_def by (cases "j = i") (simp, metis fun_upd_apply)
  qed
  then show ?thesis
    using assms(1) unfolding inv_def tables_ok_def refs_ok_def counts_ok_def owned_same [of c C i, OF assms(2)] own
    by blast
qed


text \<open>A new buffer, for the thread that makes it, or without a pool.\<close>

lemma inv_made:
  assumes "inv A P C H" "A (buf_addr b) = None" "pool b = Some p" "P p \<noteq> None" "length (bytes_of b) = len b"
    "own_buf (C i) = None"
  shows "inv (A(buf_addr b \<mapsto> (b, 1))) P (C(i := Made b p)) H"
proof -
  let ?A = "A(buf_addr b \<mapsto> (b, 1))" and ?C = "C(i := Made b p)"
  note al = allocated_new [of A, OF assms(2)]
  have fresh: "\<not> allocated A b" using assms(2) by (simp add: allocated_def)
  have own: "own_buf (?C j) = (if j = i then Some b else own_buf (C j))" for j by simp
  have owned: "owned ?C x \<longleftrightarrow> x = b \<or> owned C x" for x
    unfolding owned_def own using assms(6) by (metis option.distinct(1) option.inject)
  have not_own: "\<not> owned C b" using assms(1) fresh unfolding inv_def refs_ok_def owned_def by blast
  have t: "tables_ok ?A P ?C"
    using assms(1) fresh unfolding inv_def tables_ok_def al owned by blast
  have r: "refs_ok ?A ?C H"
    using assms(1) fresh unfolding inv_def refs_ok_def al owned own by (auto split: if_splits)
  have "pcs_ok ?A P ?C"
    unfolding pcs_ok_def
  proof (intro conjI allI impI)
    fix j x q assume x: "?C j = Made x q"
    show "?A (buf_addr x) = Some (x, 1)" "pool x = Some q"
      using x assms(1-3) unfolding inv_def pcs_ok_def by (cases "j = i"; force)+
  next
    fix j q assume "uses_pool (?C j) = Some q"
    then show "P q \<noteq> None" using assms(1,4) unfolding inv_def pcs_ok_def by (cases "j = i") (simp, metis fun_upd_apply)
  next
    fix j d n q assume "?C j = Missed d n q"
    then show "n \<le> length d" using assms(1) unfolding inv_def pcs_ok_def by (cases "j = i") (simp, metis fun_upd_apply)
  qed
  moreover have "counts_ok ?A P ?C H"
    unfolding counts_ok_def owned
  proof (intro allI impI)
    fix a x m
    assume x: "?A a = Some (x, m)"
    show "buf_addr x = a \<and> length (bytes_of x) = len x \<and> (\<not> (x = b \<or> owned C x) \<longrightarrow>
        (m = CRYPTO_REFCOUNT_MAX \<or> m \<noteq> 0 \<and> unat m = count H x) \<and> (\<forall>p. pool x = Some p \<longrightarrow> in_table P p x))"
    proof (cases "a = buf_addr b")
      case True
      then show ?thesis using x assms(5) by auto
    next
      case False
      then have "A a = Some (x, m)" using x by simp
      then show ?thesis using assms(1) unfolding inv_def counts_ok_def by blast
    qed
  qed
  ultimately show ?thesis using t r by (simp add: inv_def)
qed

lemma inv_unpooled:
  assumes "inv A P C H" "A (buf_addr b) = None" "pool b = None" "length (bytes_of b) = len b"
  shows "inv (A(buf_addr b \<mapsto> (b, 1))) P C (add_mset b H)"
proof -
  let ?A = "A(buf_addr b \<mapsto> (b, 1))"
  note al = allocated_new [of A, OF assms(2)]
  have fresh: "\<not> allocated A b" using assms(2) by (simp add: allocated_def)
  have not_own: "\<not> owned C b" using assms(1) fresh unfolding inv_def refs_ok_def owned_def by blast
  have none: "count H b = 0" using assms(1) fresh unfolding inv_def refs_ok_def by (metis not_in_iff)
  have t: "tables_ok ?A P C" using assms(1) unfolding inv_def tables_ok_def al by blast
  have r: "refs_ok ?A C (add_mset b H)" using assms(1) not_own unfolding inv_def refs_ok_def al by auto
  have q: "pcs_ok ?A P C"
    using assms(1,2) unfolding inv_def pcs_ok_def by (metis fun_upd_apply option.distinct(1))
  have "counts_ok ?A P C (add_mset b H)"
    unfolding counts_ok_def
  proof (intro allI impI)
    fix a x m
    assume x: "?A a = Some (x, m)"
    show "buf_addr x = a \<and> length (bytes_of x) = len x \<and> (\<not> owned C x \<longrightarrow>
        (m = CRYPTO_REFCOUNT_MAX \<or> m \<noteq> 0 \<and> unat m = count (add_mset b H) x) \<and> (\<forall>p. pool x = Some p \<longrightarrow> in_table P p x))"
    proof (cases "a = buf_addr b")
      case True
      then show ?thesis using x assms(3,4) none by auto
    next
      case False
      then have "A a = Some (x, m)" using x by simp
      then have "buf_addr x = a \<and> length (bytes_of x) = len x \<and> (\<not> owned C x \<longrightarrow>
        (m = CRYPTO_REFCOUNT_MAX \<or> m \<noteq> 0 \<and> unat m = count H x) \<and> (\<forall>p. pool x = Some p \<longrightarrow> in_table P p x))"
        using assms(1) unfolding inv_def counts_ok_def by blast
      then show ?thesis using False by auto
    qed
  qed
  then show ?thesis using t r q by (simp add: inv_def)
qed

lemma pcs_ok_idle:
  assumes "pcs_ok A P C" "\<And>p. P p \<noteq> None \<Longrightarrow> P' p \<noteq> None" "own_buf c \<noteq> None \<Longrightarrow> \<exists>b. c = Doomed b" "uses_pool c = None"
    "\<And>j b p. j \<noteq> i \<Longrightarrow> C j = Made b p \<Longrightarrow> A' (buf_addr b) = A (buf_addr b)"
  shows "pcs_ok A' P' (C(i := c))"
  unfolding pcs_ok_def
proof (intro conjI allI impI)
  fix j x q assume x: "(C(i := c)) j = Made x q"
  then have j: "j \<noteq> i" "C j = Made x q" using assms(4) by (auto split: if_splits)
  show "A' (buf_addr x) = Some (x, 1)" "pool x = Some q"
    using assms(1) assms(5) [OF j] j(2) by (auto simp: pcs_ok_def)
next
  fix j q assume "uses_pool ((C(i := c)) j) = Some q"
  then have "uses_pool (C j) = Some q" using assms(4) by (auto split: if_splits)
  then show "P' q \<noteq> None" using assms(1,2) unfolding pcs_ok_def by blast
next
  fix j d n q assume "(C(i := c)) j = Missed d n q"
  then have "C j = Missed d n q" using assms(4) by (auto split: if_splits)
  then show "n \<le> length d" using assms(1) unfolding pcs_ok_def by blast
qed

lemma ownedI: "own_buf (C i) = Some b \<Longrightarrow> owned C b"
  by (auto simp: owned_def)

text \<open>A thread inserts its buffer and owns a reference to it.\<close>

lemma inv_inserted:
  assumes "inv A P C H" "C i = Made b p" "\<And>q lh. P' q = Some lh \<Longrightarrow> lh_ok CRYPTO_BUFFER_hash CRYPTO_BUFFER_cmp lh"
    "\<And>q x. in_table P' q x \<longleftrightarrow> in_table P q x \<or> q = p \<and> x = b" "\<And>q. P q \<noteq> None \<Longrightarrow> P' q \<noteq> None"
  shows "inv A P' (C(i := Idle)) (add_mset b H)"
proof -
  let ?C = "C(i := Idle)"
  have b: "A (buf_addr b) = Some (b, 1)" "pool b = Some p" using assms(1,2) by (auto simp: inv_def pcs_ok_def)
  have ob: "own_buf (C i) = Some b" "own_buf Idle = None" using assms(2) by simp_all
  have uniq: "own_buf (C j) = Some b \<Longrightarrow> j = i" for j
    using assms(1) ob unfolding inv_def refs_ok_def by blast
  have owned: "owned ?C x \<longleftrightarrow> owned C x \<and> x \<noteq> b" for x
    unfolding owned_def using uniq ob by (metis fun_upd_apply option.distinct(1) option.inject)
  have al: "allocated A b" using b by (auto simp: allocated_def)
  have none: "count H b = 0" using assms(1) ownedI [of C, OF ob(1)] unfolding inv_def refs_ok_def by (metis not_in_iff)
  have t: "tables_ok A P' ?C"
    using assms(1,3) b al unfolding inv_def tables_ok_def assms(4) owned by blast
  have r: "refs_ok A ?C (add_mset b H)"
    using assms(1) al unfolding inv_def refs_ok_def owned by auto
  have q: "pcs_ok A P' ?C"
    using assms(1,5) by (intro pcs_ok_idle [of A P]) (auto simp: inv_def)
  have "counts_ok A P' ?C (add_mset b H)"
    unfolding counts_ok_def owned assms(4)
  proof (intro allI impI)
    fix a x m
    assume x: "A a = Some (x, m)"
    then have old: "buf_addr x = a \<and> length (bytes_of x) = len x \<and> (\<not> owned C x \<longrightarrow>
        (m = CRYPTO_REFCOUNT_MAX \<or> m \<noteq> 0 \<and> unat m = count H x) \<and> (\<forall>p. pool x = Some p \<longrightarrow> in_table P p x))"
      using assms(1) unfolding inv_def counts_ok_def by blast
    show "buf_addr x = a \<and> length (bytes_of x) = len x \<and> (\<not> (owned C x \<and> x \<noteq> b) \<longrightarrow>
        (m = CRYPTO_REFCOUNT_MAX \<or> m \<noteq> 0 \<and> unat m = count (add_mset b H) x) \<and>
        (\<forall>q. pool x = Some q \<longrightarrow> in_table P q x \<or> q = p \<and> x = b))"
    proof (cases "x = b")
      case True
      then have "m = 1" using x old b by simp
      then show ?thesis using old b none True by simp
    next
      case False
      then show ?thesis using old by auto
    qed
  qed
  then show ?thesis using t r q by (simp add: inv_def)
qed

text \<open>A thread frees the memory of its buffer.\<close>

lemma inv_freed:
  assumes "inv A P C H" "C i = Doomed b"
  shows "inv (A(buf_addr b := None)) P (C(i := Idle)) H"
proof -
  let ?C = "C(i := Idle)" and ?A = "A(buf_addr b := None)"
  have ob: "own_buf (C i) = Some b" "own_buf Idle = None" using assms(2) by simp_all
  have uniq: "own_buf (C j) = Some b \<Longrightarrow> j = i" for j
    using assms(1) ob unfolding inv_def refs_ok_def by blast
  have own: "owned C b" by (rule ownedI [of C, OF ob(1)])
  have al: "allocated A b" using assms(1) ob unfolding inv_def refs_ok_def by blast
  have owned: "owned ?C x \<longleftrightarrow> owned C x \<and> x \<noteq> b" for x
    unfolding owned_def using uniq ob by (metis fun_upd_apply option.distinct(1) option.inject)
  have al': "allocated ?A x" if "allocated A x" "x \<noteq> b" for x
    using that allocated_unique [OF that(1) al] by (auto simp: allocated_free)
  have t: "tables_ok ?A P ?C"
    using assms(1) al' own unfolding inv_def tables_ok_def owned by blast
  have r: "refs_ok ?A ?C H"
    unfolding refs_ok_def owned
  proof (intro conjI allI impI)
    fix x assume "x \<in># H"
    then have "allocated A x" "\<not> owned C x" using assms(1) unfolding inv_def refs_ok_def by blast+
    then show "allocated ?A x" "\<not> (owned C x \<and> x \<noteq> b)" using al' own by blast+
  next
    fix j x assume "own_buf (?C j) = Some x"
    then have j: "own_buf (C j) = Some x" "j \<noteq> i" by (auto split: if_splits)
    then have "x \<noteq> b" using uniq by blast
    then show "allocated ?A x" using assms(1) j(1) al' unfolding inv_def refs_ok_def by blast
    fix k assume "own_buf (?C k) = Some x"
    then have "own_buf (C k) = Some x" by (auto split: if_splits)
    then show "k = j" using assms(1) j(1) unfolding inv_def refs_ok_def by blast
  qed
  have q: "pcs_ok ?A P ?C"
  proof (rule pcs_ok_idle [of A P])
    fix j x p assume j: "j \<noteq> i" "C j = Made x p"
    then have "own_buf (C j) = Some x" by simp
    then have "allocated A x" "x \<noteq> b" using assms(1) uniq j(1) unfolding inv_def refs_ok_def by blast+
    then show "?A (buf_addr x) = A (buf_addr x)" using allocated_unique [OF _ al] by auto
  qed (use assms(1) in \<open>auto simp: inv_def\<close>)
  have "counts_ok ?A P ?C H"
    unfolding counts_ok_def owned
  proof (intro allI impI)
    fix a x m
    assume x: "?A a = Some (x, m)"
    then have x: "A a = Some (x, m)" "a \<noteq> buf_addr b" by (auto split: if_splits)
    then show "buf_addr x = a \<and> length (bytes_of x) = len x \<and> (\<not> (owned C x \<and> x \<noteq> b) \<longrightarrow>
        (m = CRYPTO_REFCOUNT_MAX \<or> m \<noteq> 0 \<and> unat m = count H x) \<and> (\<forall>p. pool x = Some p \<longrightarrow> in_table P p x))"
      using assms(1) unfolding inv_def counts_ok_def by blast
  qed
  then show ?thesis using t r q by (simp add: inv_def)
qed

text \<open>A reference is dropped and others remain.\<close>

lemma dec_pos:
  assumes "CRYPTO_refcount_dec_and_test_zero n = Some (zero, c)"
  shows "n \<noteq> 0" "zero \<longleftrightarrow> c = 0" "if n = CRYPTO_REFCOUNT_MAX then c = n else c = n - 1 \<and> unat n = unat c + 1"
proof -
  show "n \<noteq> 0" "zero \<longleftrightarrow> c = 0"
    using assms by (auto simp: CRYPTO_refcount_dec_and_test_zero_def Let_def split: if_splits)
  have "unat n = unat (n - 1) + 1" using \<open>n \<noteq> 0\<close> unat_minus_one [of n] by (simp add: unat_eq_0 flip: neq0_conv)
  moreover have "n < CRYPTO_REFCOUNT_MAX \<longleftrightarrow> n \<noteq> CRYPTO_REFCOUNT_MAX"
    using unat_inc [of n] by (cases "n < CRYPTO_REFCOUNT_MAX") (auto simp: CRYPTO_refcount_inc_def)
  ultimately show "if n = CRYPTO_REFCOUNT_MAX then c = n else c = n - 1 \<and> unat n = unat c + 1"
    using assms by (auto simp: CRYPTO_refcount_dec_and_test_zero_def Let_def split: if_splits)
qed

lemma inv_dec:
  assumes "inv A P C H" "b \<in># H" "A (buf_addr b) = Some (b, n)" "CRYPTO_refcount_dec_and_test_zero n = Some (False, c)"
  shows "inv (A(buf_addr b \<mapsto> (b, c))) P C (H - {#b#})"
proof -
  let ?A = "A(buf_addr b \<mapsto> (b, c))"
  note al = allocated_put [of A, OF assms(3)]
  note dec = dec_pos [OF assms(4)]
  have not_own: "\<not> owned C b" using assms(1,2) unfolding inv_def refs_ok_def by blast
  have t: "tables_ok ?A P C" using assms(1) by (simp add: inv_def tables_ok_def al)
  have r: "refs_ok ?A C (H - {#b#})" using assms(1) unfolding inv_def refs_ok_def al by (metis in_diffD)
  have q: "pcs_ok ?A P C"
    unfolding pcs_ok_def
  proof (intro conjI allI impI)
    fix i x p
    assume x: "C i = Made x p"
    then have "owned C x" by (intro ownedI [of C i]) simp
    then have "x \<noteq> b" using not_own by blast
    moreover have "A (buf_addr x) = Some (x, 1)" using assms(1) x by (simp add: inv_def pcs_ok_def)
    ultimately show "?A (buf_addr x) = Some (x, 1)" using assms(3) by auto
  qed (use assms(1) [unfolded inv_def pcs_ok_def] in blast)+
  have "counts_ok ?A P C (H - {#b#})"
    unfolding counts_ok_def
  proof (intro allI impI)
    fix a x m
    assume x: "?A a = Some (x, m)"
    have old: "buf_addr x = a \<and> length (bytes_of x) = len x \<and> (\<not> owned C x \<longrightarrow>
        (k = CRYPTO_REFCOUNT_MAX \<or> k \<noteq> 0 \<and> unat k = count H x) \<and> (\<forall>p. pool x = Some p \<longrightarrow> in_table P p x))"
      if "A a = Some (x, k)" for k
      using assms(1) that by (simp add: inv_def counts_ok_def)
    show "buf_addr x = a \<and> length (bytes_of x) = len x \<and> (\<not> owned C x \<longrightarrow>
        (m = CRYPTO_REFCOUNT_MAX \<or> m \<noteq> 0 \<and> unat m = count (H - {#b#}) x) \<and> (\<forall>p. pool x = Some p \<longrightarrow> in_table P p x))"
    proof (cases "a = buf_addr b")
      case True
      then have "x = b" "m = c" "A a = Some (x, n)" using x assms(3) by auto
      then show ?thesis using old [of n] dec not_own by (cases "n = CRYPTO_REFCOUNT_MAX") auto
    next
      case False
      then have "A a = Some (x, m)" "x \<noteq> b" using x old [of m] by auto
      then show ?thesis using old [of m] by simp
    qed
  qed
  then show ?thesis using t r q by (simp add: inv_def)
qed

text \<open>The last reference is dropped: the buffer leaves the table of its pool and is the thread's own.\<close>

lemma inv_dec_zero:
  assumes "inv A P C H" "b \<in># H" "A (buf_addr b) = Some (b, n)" "CRYPTO_refcount_dec_and_test_zero n = Some (True, c)"
    "own_buf (C i) = None" "\<And>q lh. P' q = Some lh \<Longrightarrow> lh_ok CRYPTO_BUFFER_hash CRYPTO_BUFFER_cmp lh"
    "\<And>q x. in_table P' q x \<longleftrightarrow> in_table P q x \<and> x \<noteq> b" "\<And>q. P q \<noteq> None \<Longrightarrow> P' q \<noteq> None"
  shows "inv (A(buf_addr b \<mapsto> (b, c))) P' (C(i := Doomed b)) (H - {#b#})"
proof -
  let ?A = "A(buf_addr b \<mapsto> (b, c))" and ?C = "C(i := Doomed b)"
  note al = allocated_put [of A, OF assms(3)]
  note dec = dec_pos [OF assms(4)]
  have not_own: "\<not> owned C b" and alb: "allocated A b" using assms(1,2) unfolding inv_def refs_ok_def by blast+
  have own: "own_buf (?C j) = (if j = i then Some b else own_buf (C j))" for j by simp
  have owned: "owned ?C x \<longleftrightarrow> x = b \<or> owned C x" for x
    unfolding owned_def own using assms(5) by (metis option.distinct(1) option.inject)
  have "n \<noteq> CRYPTO_REFCOUNT_MAX" using dec by (auto simp: CRYPTO_REFCOUNT_MAX_def split: if_splits)
  then have one: "unat n = 1" using dec by simp
  have "unat n = count H b"
    using assms(1,3) not_own \<open>n \<noteq> CRYPTO_REFCOUNT_MAX\<close> unfolding inv_def counts_ok_def by blast
  then have "count H b = 1" using one by simp
  then have gone: "b \<notin># H - {#b#}" by (simp add: not_in_iff)
  have t: "tables_ok ?A P' ?C"
    using assms(1,6) unfolding inv_def tables_ok_def assms(7) al owned by blast
  have r: "refs_ok ?A ?C (H - {#b#})"
    unfolding refs_ok_def al owned
  proof (intro conjI allI impI)
    fix x assume x: "x \<in># H - {#b#}"
    then have "x \<in># H" "x \<noteq> b" using gone in_diffD by metis+
    then show "allocated A x" "\<not> (x = b \<or> owned C x)" using assms(1) unfolding inv_def refs_ok_def by blast+
  next
    fix j x assume j: "own_buf (?C j) = Some x"
    show "allocated A x" using assms(1) j alb unfolding inv_def refs_ok_def own by (metis option.inject)
    fix k assume k: "own_buf (?C k) = Some x"
    show "k = j"
      using assms(1) j k ownedI [of C] not_own unfolding inv_def refs_ok_def own by (metis option.inject)
  qed
  have q: "pcs_ok ?A P' ?C"
  proof (rule pcs_ok_idle [of A P])
    fix j x p assume j: "j \<noteq> i" "C j = Made x p"
    then have "owned C x" by (intro ownedI [of C j]) simp
    then have "x \<noteq> b" "allocated A x" using not_own assms(1) unfolding inv_def refs_ok_def owned_def by blast+
    then show "?A (buf_addr x) = A (buf_addr x)" using allocated_unique [OF _ alb] by auto
  qed (use assms(1,8) in \<open>auto simp: inv_def\<close>)
  have "counts_ok ?A P' ?C (H - {#b#})"
    unfolding counts_ok_def owned assms(7)
  proof (intro allI impI)
    fix a x m
    assume x: "?A a = Some (x, m)"
    have old: "buf_addr x = a \<and> length (bytes_of x) = len x \<and> (\<not> owned C x \<longrightarrow>
        (k = CRYPTO_REFCOUNT_MAX \<or> k \<noteq> 0 \<and> unat k = count H x) \<and> (\<forall>p. pool x = Some p \<longrightarrow> in_table P p x))"
      if "A a = Some (x, k)" for k
      using assms(1) that by (simp add: inv_def counts_ok_def)
    show "buf_addr x = a \<and> length (bytes_of x) = len x \<and> (\<not> (x = b \<or> owned C x) \<longrightarrow>
        (m = CRYPTO_REFCOUNT_MAX \<or> m \<noteq> 0 \<and> unat m = count (H - {#b#}) x) \<and> (\<forall>p. pool x = Some p \<longrightarrow> in_table P p x \<and> x \<noteq> b))"
    proof (cases "a = buf_addr b")
      case True
      then have "x = b" "A a = Some (x, n)" using x assms(3) by auto
      then show ?thesis using old [of n] by simp
    next
      case False
      then have "A a = Some (x, m)" "x \<noteq> b" using x old [of m] by auto
      then show ?thesis using old [of m] by simp
    qed
  qed
  then show ?thesis using t r q by (simp add: inv_def)
qed

text \<open>Pools come and go.\<close>

lemma inv_pools:
  assumes "inv A P C H" "\<And>q lh. P' q = Some lh \<Longrightarrow> lh_ok CRYPTO_BUFFER_hash CRYPTO_BUFFER_cmp lh"
    "\<And>q x. in_table P' q x \<longleftrightarrow> in_table P q x" "\<And>q i. uses_pool (C i) = Some q \<Longrightarrow> P' q \<noteq> None"
  shows "inv A P' C H"
  using assms(1,2,4) unfolding inv_def tables_ok_def pcs_ok_def counts_ok_def assms(3) by blast

section \<open>Every step keeps the invariant\<close>

lemma heap_simps [simp]:
  "at_addr (put_count b n h) = (at_addr h)(buf_addr b \<mapsto> (b, n))" "pools (put_count b n h) = pools h"
  "mem (put_count b n h) = mem h" "at_addr (release b h) = (at_addr h)(buf_addr b := None)" "pools (release b h) = pools h"
  "pools (inc_ref b h) = pools h"
  by (simp_all add: put_count_def release_def inc_ref_def)

lemma world_okD:
  assumes "world_ok w"
  shows "pools (heap_of w) p = Some lh \<Longrightarrow> lh_ok CRYPTO_BUFFER_hash CRYPTO_BUFFER_cmp lh"
    "in_table (pools (heap_of w)) p b \<Longrightarrow> allocated (at_addr (heap_of w)) b \<and> pool b = Some p \<and> \<not> owned (pcs w) b"
    "b \<in># held w \<Longrightarrow> allocated (at_addr (heap_of w)) b \<and> \<not> owned (pcs w) b"
    "own_buf (pcs w i) = Some b \<Longrightarrow> allocated (at_addr (heap_of w)) b"
    "pcs w i = Made b p \<Longrightarrow> at_addr (heap_of w) (buf_addr b) = Some (b, 1) \<and> pool b = Some p"
    "uses_pool (pcs w i) = Some p \<Longrightarrow> pools (heap_of w) p \<noteq> None"
    "pcs w i = Missed d n p \<Longrightarrow> n \<le> length d"
    "at_addr (heap_of w) a = Some (b, k) \<Longrightarrow> buf_addr b = a \<and> length (bytes_of b) = len b"
    "at_addr (heap_of w) a = Some (b, k) \<Longrightarrow> \<not> owned (pcs w) b \<Longrightarrow>
      (k = CRYPTO_REFCOUNT_MAX \<or> k \<noteq> 0 \<and> unat k = count (held w) b) \<and> (\<forall>p. pool b = Some p \<longrightarrow> in_table (pools (heap_of w)) p b)"
proof -
  note parts = assms [unfolded world_ok_def inv_def]
  show "pools (heap_of w) p = Some lh \<Longrightarrow> lh_ok CRYPTO_BUFFER_hash CRYPTO_BUFFER_cmp lh"
    "in_table (pools (heap_of w)) p b \<Longrightarrow> allocated (at_addr (heap_of w)) b \<and> pool b = Some p \<and> \<not> owned (pcs w) b"
    using parts by (simp_all add: tables_ok_def)
  show "b \<in># held w \<Longrightarrow> allocated (at_addr (heap_of w)) b \<and> \<not> owned (pcs w) b"
    "own_buf (pcs w i) = Some b \<Longrightarrow> allocated (at_addr (heap_of w)) b"
    using parts by (simp_all add: refs_ok_def)
  show "pcs w i = Made b p \<Longrightarrow> at_addr (heap_of w) (buf_addr b) = Some (b, 1) \<and> pool b = Some p"
    "uses_pool (pcs w i) = Some p \<Longrightarrow> pools (heap_of w) p \<noteq> None" "pcs w i = Missed d n p \<Longrightarrow> n \<le> length d"
    using parts unfolding pcs_ok_def by blast+
  show "at_addr (heap_of w) a = Some (b, k) \<Longrightarrow> buf_addr b = a \<and> length (bytes_of b) = len b"
    "at_addr (heap_of w) a = Some (b, k) \<Longrightarrow> \<not> owned (pcs w) b \<Longrightarrow>
      (k = CRYPTO_REFCOUNT_MAX \<or> k \<noteq> 0 \<and> unat k = count (held w) b) \<and> (\<forall>p. pool b = Some p \<longrightarrow> in_table (pools (heap_of w)) p b)"
    using parts unfolding counts_ok_def by blast+
qed

lemma world_ok_inc:
  assumes "world_ok w" "allocated (at_addr (heap_of w)) b" "\<not> owned (pcs w) b"
  shows "world_ok (w\<lparr>heap_of := inc_ref b (heap_of w), held := add_mset b (held w)\<rparr>)"
proof -
  obtain n where n: "at_addr (heap_of w) (buf_addr b) = Some (b, n)" using assms(2) by (auto simp: allocated_def)
  then show ?thesis
    using inv_inc [OF assms(1) [unfolded world_ok_def] assms(2,3) n] by (simp add: world_ok_def inc_ref_def count_of_def)
qed

lemma retrieved:
  assumes "world_ok w" "pools (heap_of w) p = Some lh" "lh_retrieve lh x = Some b"
  shows "in_table (pools (heap_of w)) p b" "CRYPTO_BUFFER_cmp b x = 0"
proof -
  note ok = world_okD(1) [OF assms(1,2)]
  have "lookup lh x = Some b" using assms(3) bufs.lh_retrieve_lookup [OF ok] by simp
  then show "in_table (pools (heap_of w)) p b" "CRYPTO_BUFFER_cmp b x = 0"
    using bufs.lookup_iff [OF ok] assms(2) by (auto simp: in_table_def)
qed

lemma new_alloc_Some:
  assumes "new_alloc a d n p h = (r, h')" "n \<le> length d"
  shows "pools h' = pools h"
    "case r of None \<Rightarrow> at_addr h' = at_addr h
     | Some b \<Rightarrow> b = \<lparr>buf_addr = a, pool = p, bytes_of = take n d, len = n\<rparr> \<and> at_addr h' = (at_addr h)(a \<mapsto> (b, 1))"
proof -
  have copy: "case fst (BUF_memdup d n e) of None \<Rightarrow> True | Some c \<Rightarrow> c = take n d" for e
    using assms(2)
    by (auto simp: BUF_memdup_def op_bind_def op_ret_def blit_def libc_malloc_def split: option.splits prod.splits if_splits)
  show "pools h' = pools h"
    "case r of None \<Rightarrow> at_addr h' = at_addr h
     | Some b \<Rightarrow> b = \<lparr>buf_addr = a, pool = p, bytes_of = take n d, len = n\<rparr> \<and> at_addr h' = (at_addr h)(a \<mapsto> (b, 1))"
    using assms(1) copy [of "tick (mem h)"]
    by (cases "BUF_memdup d n (tick (mem h))"; auto simp: new_alloc_def Let_def split: if_splits option.splits)+
qed

text \<open>The two sections that change a table.\<close>

lemma new_insert_ok:
  assumes "world_ok w" "pcs w i = Made b p" "new_insert b p (heap_of w) = ((duplicate, inserted, fine), h)"
  shows "fine" "world_ok (w\<lparr>heap_of := h, pcs := (pcs w)(i := (if inserted then Idle else Doomed b)),
      held := held w + (if inserted then {#b#} else taken duplicate)\<rparr>)"
proof -
  have own: "own_buf (pcs w i) = Some b" using assms(2) by simp
  have use: "uses_pool (pcs w i) = Some p" using assms(2) by simp
  obtain lh where lh: "pools (heap_of w) p = Some lh" using world_okD(6) [OF assms(1) use] by blast
  note ok = world_okD(1) [OF assms(1) lh]
  have doom: "world_ok (v\<lparr>pcs := (pcs v)(i := Doomed b)\<rparr>)" if "world_ok v" "pcs v i = Made b p" for v
    using inv_pc [OF that(1) [unfolded world_ok_def], of "Doomed b" i] that(2) by (simp add: world_ok_def)
  have "fine \<and> world_ok (w\<lparr>heap_of := h, pcs := (pcs w)(i := (if inserted then Idle else Doomed b)),
      held := held w + (if inserted then {#b#} else taken duplicate)\<rparr>)"
  proof (cases "lh_retrieve lh b")
    case (Some d)
    then have r: "duplicate = Some d" "\<not> inserted" "fine" "h = inc_ref d (heap_of w)"
      using assms(3) lh by (auto simp: new_insert_def)
    note d = world_okD(2) [OF assms(1) retrieved(1) [OF assms(1) lh Some]]
    show ?thesis using doom [OF world_ok_inc [OF assms(1)], of d] d assms(2) r by (simp add: taken_def world_ok_def)
  next
    case None
    obtain ins old lh' e where ins: "lh_insert lh b (mem (heap_of w)) = ((ins, old), lh', e)" by (metis surj_pair)
    then have r: "duplicate = None" "inserted = ins" "fine \<longleftrightarrow> old = None"
        "h = (heap_of w)\<lparr>pools := (pools (heap_of w))(p := Some lh'), mem := e\<rparr>"
      using assms(3) lh None by (auto simp: new_insert_def)
    note step = bufs.lh_insert_ok [OF ok ins]
    have none: "lookup lh b = None" using None bufs.lh_retrieve_lookup [OF ok] by simp
    then have no: "filter_mset (\<lambda>x. CRYPTO_BUFFER_cmp x b = 0) (lh_data lh) = {#}"
      using bufs.lookup_None [OF ok] by simp
    show ?thesis
    proof (cases ins)
      case True
      then have data: "lh_data lh' = add_mset b (lh_data lh)" "old = None" using step(2) none no by simp_all
      have "inv (at_addr (heap_of w)) ((pools (heap_of w))(p := Some lh')) ((pcs w)(i := Idle)) (add_mset b (held w))"
      proof (rule inv_inserted [OF assms(1) [unfolded world_ok_def] assms(2)])
        show "in_table ((pools (heap_of w))(p := Some lh')) q x \<longleftrightarrow> in_table (pools (heap_of w)) q x \<or> q = p \<and> x = b" for q x
          using data(1) lh by (auto simp: in_table_def)
      qed (use step(1) world_okD(1) [OF assms(1)] in \<open>auto split: if_splits\<close>)
      then show ?thesis using r True data(2) by (simp add: world_ok_def)
    next
      case False
      then have same: "lh' = lh" "old = None" using step(2) by simp_all
      then have "pools h = pools (heap_of w)" "at_addr h = at_addr (heap_of w)" using r lh by auto
      then show ?thesis using doom [OF assms(1,2)] r same False by (simp add: world_ok_def taken_def)
    qed
  qed
  then show "fine" "world_ok (w\<lparr>heap_of := h, pcs := (pcs w)(i := (if inserted then Idle else Doomed b)),
      held := held w + (if inserted then {#b#} else taken duplicate)\<rparr>)" by blast+
qed

lemma table_one:
  assumes "world_ok w" "pools (heap_of w) p = Some lh" "b \<in># lh_data lh"
  shows "lookup lh b = Some b" "filter_mset (\<lambda>x. CRYPTO_BUFFER_cmp x b = 0) (lh_data lh) = {#b#}"
proof -
  note ok = world_okD(1) [OF assms(1,2)]
  show l: "lookup lh b = Some b" using bufs.lookup_iff [OF ok] assms(3) bufs.cf_refl by blast
  show "filter_mset (\<lambda>x. CRYPTO_BUFFER_cmp x b = 0) (lh_data lh) = {#b#}" by (rule bufs.lookup_filter [OF ok l])
qed

text \<open>Dropping a reference that is held neither aborts nor fails an assertion.\<close>

lemma drop_ref_ok:
  assumes "world_ok w" "b \<in># held w" "own_buf (pcs w i) = None" "uses_pool (pcs w i) = None"
  obtains zero h where "drop_ref b (heap_of w) = Some (zero, h)"
    "world_ok (w\<lparr>heap_of := h, held := held w - {#b#}, pcs := (pcs w)(i := (if zero then Doomed b else Idle))\<rparr>)"
proof -
  have al: "allocated (at_addr (heap_of w)) b" "\<not> owned (pcs w) b" using world_okD(3) [OF assms(1,2)] by blast+
  obtain n where n: "at_addr (heap_of w) (buf_addr b) = Some (b, n)" using al(1) by (auto simp: allocated_def)
  note live = world_okD(9) [OF assms(1) n al(2)]
  have "n \<noteq> 0" using live by (auto simp: CRYPTO_REFCOUNT_MAX_def)
  then obtain zero c where dec: "CRYPTO_refcount_dec_and_test_zero n = Some (zero, c)"
    by (auto simp: CRYPTO_refcount_dec_and_test_zero_def Let_def)
  have cnt: "count_of (heap_of w) b = n" using n by (simp add: count_of_def)
  note ok = assms(1) [unfolded world_ok_def]
  show thesis
  proof (cases zero)
    case False
    have idle: "own_buf Idle = own_buf (pcs w i)" using assms(3) by simp
    have "drop_ref b (heap_of w) = Some (False, put_count b c (heap_of w))"
      using dec False cnt by (auto simp: drop_ref_def Let_def split: option.splits)
    moreover have "inv ((at_addr (heap_of w))(buf_addr b \<mapsto> (b, c))) (pools (heap_of w)) ((pcs w)(i := Idle)) (held w - {#b#})"
      using inv_pc [OF inv_dec [OF ok assms(2) n], of c Idle i] idle dec False by simp
    ultimately show thesis using that [of False "put_count b c (heap_of w)"] by (simp add: world_ok_def)
  next
    case True
    note dec' = dec [unfolded True [THEN eqTrueI]]
    show thesis
    proof (cases "pool b")
      case None
      have "drop_ref b (heap_of w) = Some (True, put_count b c (heap_of w))"
        using dec' cnt None by (simp add: drop_ref_def)
      moreover have "inv ((at_addr (heap_of w))(buf_addr b \<mapsto> (b, c))) (pools (heap_of w)) ((pcs w)(i := Doomed b)) (held w - {#b#})"
      proof (rule inv_dec_zero [OF ok assms(2) n dec' assms(3)])
        show "in_table (pools (heap_of w)) q x \<longleftrightarrow> in_table (pools (heap_of w)) q x \<and> x \<noteq> b" for q x
          using world_okD(2) [OF assms(1), of q b] None by auto
      qed (use world_okD(1) [OF assms(1)] in auto)
      ultimately show thesis using that [of True "put_count b c (heap_of w)"] by (simp add: world_ok_def)
    next
      case (Some p)
      then obtain lh where lh: "pools (heap_of w) p = Some lh" "b \<in># lh_data lh" using live by (auto simp: in_table_def)
      obtain old lh' e where del: "lh_delete lh b (mem (heap_of w)) = (old, lh', e)" by (metis prod_cases3)
      note step = bufs.lh_delete_ok [OF world_okD(1) [OF assms(1) lh(1)] del]
      note one = table_one [OF assms(1) lh]
      let ?h = "(put_count b c (heap_of w))\<lparr>pools := (pools (heap_of w))(p := Some lh'), mem := e\<rparr>"
      have "drop_ref b (heap_of w) = Some (True, ?h)"
        using dec' cnt Some lh(1) del step(2) one(1) by (simp add: drop_ref_def)
      moreover have "inv ((at_addr (heap_of w))(buf_addr b \<mapsto> (b, c))) ((pools (heap_of w))(p := Some lh')) ((pcs w)(i := Doomed b)) (held w - {#b#})"
      proof (rule inv_dec_zero [OF ok assms(2) n dec' assms(3)])
        fix q x
        have "size (filter_mset (\<lambda>x. CRYPTO_BUFFER_cmp x b = 0) (lh_data lh')) = 0"
          unfolding step(3) by (simp add: one(2) filter_diff_mset bufs.cf_refl)
        then have gone: "b \<notin># lh_data lh'" by (auto simp: bufs.cf_refl)
        have "x \<noteq> b \<Longrightarrow> x \<in># lh_data lh' \<longleftrightarrow> x \<in># lh_data lh" unfolding step(3) one(2) by (simp add: in_diff_count)
        then have "x \<in># lh_data lh' \<longleftrightarrow> x \<in># lh_data lh \<and> x \<noteq> b" using gone by blast
        moreover have "q \<noteq> p \<Longrightarrow> \<not> in_table (pools (heap_of w)) q b" using world_okD(2) [OF assms(1), of q b] Some by auto
        ultimately show "in_table ((pools (heap_of w))(p := Some lh')) q x \<longleftrightarrow> in_table (pools (heap_of w)) q x \<and> x \<noteq> b"
          using lh(1) by (cases "q = p") (auto simp: in_table_def)
      qed (use step(1) world_okD(1) [OF assms(1)] in \<open>auto split: if_splits\<close>)
      ultimately show thesis using that [of True ?h] by (simp add: world_ok_def)
    qed
  qed
qed

lemma pool_new_ok:
  assumes "world_ok w" "pools (heap_of w) p = None" "CRYPTO_BUFFER_POOL_new p (heap_of w) = (r, h)"
  shows "world_ok (w\<lparr>heap_of := h\<rparr>)"
proof -
  obtain o1 e1 where new: "lh_new CRYPTO_BUFFER_hash CRYPTO_BUFFER_cmp (tick (mem (heap_of w))) = (o1, e1)" by fastforce
  consider "at_addr h = at_addr (heap_of w)" "pools h = pools (heap_of w)"
    | lh where "at_addr h = at_addr (heap_of w)" "o1 = Some lh" "pools h = (pools (heap_of w))(p := Some lh)"
    using assms(3) new by (cases o1) (auto simp: CRYPTO_BUFFER_POOL_new_def split: if_splits)
  then show ?thesis
  proof cases
    case 1
    then show ?thesis using assms(1) by (simp add: world_ok_def)
  next
    case 2
    note new = new [unfolded 2(2)]
    have data: "lh_data lh = {#}" using new by (auto simp: lh_new_def lh_data_def kMinNumBuckets_def split: if_splits)
    have "inv (at_addr (heap_of w)) ((pools (heap_of w))(p := Some lh)) (pcs w) (held w)"
    proof (rule inv_pools [OF assms(1) [unfolded world_ok_def]])
      show "in_table ((pools (heap_of w))(p := Some lh)) q x \<longleftrightarrow> in_table (pools (heap_of w)) q x" for q x
        using data assms(2) by (auto simp: in_table_def)
      show "((pools (heap_of w))(p := Some lh)) q \<noteq> None" if "uses_pool (pcs w i) = Some q" for q i
        using world_okD(6) [OF assms(1) that] by simp
    qed (use bufs.lh_new_ok(1) [OF new] world_okD(1) [OF assms(1)] in \<open>auto split: if_splits\<close>)
    then show ?thesis using 2 by (simp add: world_ok_def)
  qed
qed

lemma pool_free_ok:
  assumes "world_ok w" "\<forall>j. uses_pool (pcs w j) \<noteq> Some p" "CRYPTO_BUFFER_POOL_free (Some p) (heap_of w) = Some h"
  shows "world_ok (w\<lparr>heap_of := h\<rparr>)"
proof -
  obtain lh where lh: "pools (heap_of w) p = Some lh" "num_items lh = 0" and h: "h = (heap_of w)\<lparr>pools := (pools (heap_of w))(p := None)\<rparr>"
    using assms(3) by (auto simp: CRYPTO_BUFFER_POOL_free_def lh_num_items_def split: option.splits if_splits)
  have data: "lh_data lh = {#}" using bufs.lh_okD(7) [OF world_okD(1) [OF assms(1) lh(1)]] lh(2) by simp
  have "inv (at_addr (heap_of w)) ((pools (heap_of w))(p := None)) (pcs w) (held w)"
  proof (rule inv_pools [OF assms(1) [unfolded world_ok_def]])
    show "in_table ((pools (heap_of w))(p := None)) q x \<longleftrightarrow> in_table (pools (heap_of w)) q x" for q x
      using data lh(1) by (auto simp: in_table_def)
    show "((pools (heap_of w))(p := None)) q \<noteq> None" if "uses_pool (pcs w i) = Some q" for q i
      using world_okD(6) [OF assms(1) that] assms(2) that by auto
  qed (use world_okD(1) [OF assms(1)] in \<open>auto split: if_splits\<close>)
  then show ?thesis using h by (simp add: world_ok_def)
qed

lemma section_step_ok:
  assumes "section_step w w'" "world_ok w"
  shows "world_ok w'"
  using assms
proof (cases rule: section_step.cases)
  case (hit i p n d b h)
  then obtain lh x where lh: "pools (heap_of w) p = Some lh" "lh_retrieve lh x = Some b" "h = inc_ref b (heap_of w)"
    by (auto simp: new_lookup_def Let_def split: option.splits)
  note b = world_okD(2) [OF assms(2) retrieved(1) [OF assms(2) lh(1,2)]]
  show ?thesis using world_ok_inc [OF assms(2), of b] b hit(1) lh(3) by simp
next
  case (miss i p n d h)
  then have "h = heap_of w" by (auto simp: new_lookup_def Let_def split: option.splits)
  moreover have "inv (at_addr (heap_of w)) (pools (heap_of w)) ((pcs w)(i := Missed d n p)) (held w)"
    using miss by (intro inv_pc [OF assms(2) [unfolded world_ok_def]]) auto
  ultimately show ?thesis using miss(1) by (simp add: world_ok_def)
next
  case (alloc i d n p a r h)
  have use: "uses_pool (pcs w i) = Some p" using alloc(2) by simp
  note new = new_alloc_Some [OF alloc(4) world_okD(7) [OF assms(2) alloc(2)]]
  show ?thesis
  proof (cases r)
    case None
    have "inv (at_addr (heap_of w)) (pools (heap_of w)) ((pcs w)(i := Idle)) (held w)"
      using alloc(2) by (intro inv_pc [OF assms(2) [unfolded world_ok_def]]) auto
    then show ?thesis using alloc(1) new None by (simp add: world_ok_def)
  next
    case (Some b)
    then have b: "b = \<lparr>buf_addr = a, pool = Some p, bytes_of = take n d, len = n\<rparr>" "at_addr h = (at_addr (heap_of w))(a \<mapsto> (b, 1))"
      using new(2) by simp_all
    have "inv ((at_addr (heap_of w))(buf_addr b \<mapsto> (b, 1))) (pools (heap_of w)) ((pcs w)(i := Made b p)) (held w)"
      using alloc(2,3) b(1) world_okD(6) [OF assms(2) use] world_okD(7) [OF assms(2) alloc(2)]
      by (intro inv_made [OF assms(2) [unfolded world_ok_def]]) simp_all
    then show ?thesis using alloc(1) new(1) b Some by (simp add: world_ok_def)
  qed
next
  case (insert i b p duplicate inserted h)
  then show ?thesis using new_insert_ok(2) [OF assms(2)] by blast
next
  case (free_memory i b)
  then show ?thesis using inv_freed [OF assms(2) [unfolded world_ok_def], of i b] by (simp add: world_ok_def)
next
  case (unpooled i a n d r h)
  note new = new_alloc_Some [OF unpooled(5,4)]
  show ?thesis
  proof (cases r)
    case None
    then show ?thesis using new unpooled(1) assms(2) by (simp add: world_ok_def taken_def)
  next
    case (Some b)
    then have b: "b = \<lparr>buf_addr = a, pool = None, bytes_of = take n d, len = n\<rparr>" "at_addr h = (at_addr (heap_of w))(a \<mapsto> (b, 1))"
      using new(2) by simp_all
    have "inv ((at_addr (heap_of w))(buf_addr b \<mapsto> (b, 1))) (pools (heap_of w)) (pcs w) (add_mset b (held w))"
      using unpooled(3,4) b(1) by (intro inv_unpooled [OF assms(2) [unfolded world_ok_def]]) simp_all
    then show ?thesis using unpooled(1) new(1) b Some by (simp add: world_ok_def taken_def)
  qed
next
  case (up_ref i b h)
  then show ?thesis
    using world_ok_inc [OF assms(2), of b] world_okD(3) [OF assms(2) up_ref(3)] by (auto simp: CRYPTO_BUFFER_up_ref_def)
next
  case (drop i b zero h)
  obtain zero' h' where "drop_ref b (heap_of w) = Some (zero', h')"
    "world_ok (w\<lparr>heap_of := h', held := held w - {#b#}, pcs := (pcs w)(i := (if zero' then Doomed b else Idle))\<rparr>)"
    using drop_ref_ok [OF assms(2) drop(3), of i] drop(2) by auto
  then show ?thesis using drop by (simp add: world_ok_def)
next
  case (new_pool i p r h)
  then show ?thesis using pool_new_ok [OF assms(2)] by blast
next
  case (free_pool i p h)
  then show ?thesis using pool_free_ok [OF assms(2)] by blast
qed

lemma start_ok: "world_ok (start e)"
  by (simp add: world_ok_def start_def inv_defs in_table_def owned_def)

lemma reachable_ok: "reachable e w \<Longrightarrow> world_ok w"
  by (induction rule: reachable.induct) (use start_ok section_step_ok in blast)+

section \<open>Properties\<close>

text \<open>C38: references are valid, whatever the threads do and however their critical sections interleave: a
  buffer that is referenced is allocated, with a count that is the number of its references or has
  saturated, and two references of one pool with the same bytes are the same buffer.\<close>

theorem pool_references_valid:
  assumes "reachable e w" "b \<in># held w"
  shows "(\<exists>n. at_addr (heap_of w) (buf_addr b) = Some (b, n) \<and> n \<noteq> 0 \<and> (n = CRYPTO_REFCOUNT_MAX \<or> unat n = count (held w) b)) \<and>
    (\<forall>b'\<in>#held w. pool b' = pool b \<and> pool b \<noteq> None \<and> CRYPTO_BUFFER_data b' = CRYPTO_BUFFER_data b \<longrightarrow> b' = b)"
proof (intro conjI ballI impI)
  note ok = reachable_ok [OF assms(1)]
  have entry: "\<exists>n. at_addr (heap_of w) (buf_addr x) = Some (x, n) \<and> n \<noteq> 0 \<and> (n = CRYPTO_REFCOUNT_MAX \<or> unat n = count (held w) x) \<and>
      length (bytes_of x) = len x \<and> (\<forall>p. pool x = Some p \<longrightarrow> in_table (pools (heap_of w)) p x)" if "x \<in># held w" for x
  proof -
    have al: "allocated (at_addr (heap_of w)) x" "\<not> owned (pcs w) x" using world_okD(3) [OF ok that] by blast+
    obtain n where n: "at_addr (heap_of w) (buf_addr x) = Some (x, n)" using al(1) by (auto simp: allocated_def)
    show ?thesis
      using n world_okD(8) [OF ok n] world_okD(9) [OF ok n al(2)] by (auto simp: CRYPTO_REFCOUNT_MAX_def)
  qed
  show "\<exists>n. at_addr (heap_of w) (buf_addr b) = Some (b, n) \<and> n \<noteq> 0 \<and> (n = CRYPTO_REFCOUNT_MAX \<or> unat n = count (held w) b)"
    using entry [OF assms(2)] by blast
  fix b' assume b': "b' \<in># held w" "pool b' = pool b \<and> pool b \<noteq> None \<and> CRYPTO_BUFFER_data b' = CRYPTO_BUFFER_data b"
  then obtain p where p: "pool b = Some p" by blast
  have tabs: "in_table (pools (heap_of w)) p b" "in_table (pools (heap_of w)) p b'"
    and same: "CRYPTO_BUFFER_cmp b' b = 0"
    using entry [OF assms(2)] entry [OF b'(1)] b'(2) p by (auto simp: CRYPTO_BUFFER_cmp_eq CRYPTO_BUFFER_data_def)
  then obtain lh where lh: "pools (heap_of w) p = Some lh" "b \<in># lh_data lh" "b' \<in># lh_data lh" by (auto simp: in_table_def)
  have "b' \<in># filter_mset (\<lambda>x. CRYPTO_BUFFER_cmp x b = 0) (lh_data lh)" using lh(3) same by simp
  then show "b' = b" unfolding table_one(2) [OF ok lh(1,2)] by simp
qed

text \<open>C39: calls neither abort nor fail an assertion, and nothing leaks: in every reachable state a
  reference can be dropped, a thread that inserts its buffer finds no older item, and an allocated buffer
  is referenced, is about to be inserted or freed by a thread, or has a saturated count.\<close>

theorem pool_calls_safe:
  assumes "reachable e w"
  shows "(pcs w i = Idle \<and> b \<in># held w \<longrightarrow> drop_ref b (heap_of w) \<noteq> None) \<and>
    (pcs w i = Made b p \<longrightarrow> snd (snd (fst (new_insert b p (heap_of w))))) \<and>
    (at_addr (heap_of w) a = Some (b, n) \<longrightarrow> b \<in># held w \<or> owned (pcs w) b \<or> n = CRYPTO_REFCOUNT_MAX)"
proof (intro conjI impI)
  note ok = reachable_ok [OF assms]
  show "drop_ref b (heap_of w) \<noteq> None" if "pcs w i = Idle \<and> b \<in># held w"
    by (rule drop_ref_ok [OF ok, of b i]) (use that in auto)
  show "snd (snd (fst (new_insert b p (heap_of w))))" if "pcs w i = Made b p"
    using new_insert_ok(1) [OF ok that] by (metis prod.collapse)
  show "b \<in># held w \<or> owned (pcs w) b \<or> n = CRYPTO_REFCOUNT_MAX" if "at_addr (heap_of w) a = Some (b, n)"
  proof (rule ccontr)
    assume none: "\<not> (b \<in># held w \<or> owned (pcs w) b \<or> n = CRYPTO_REFCOUNT_MAX)"
    then have "n \<noteq> 0 \<and> unat n = count (held w) b" using world_okD(9) [OF ok that] by blast
    then show False using none by (simp add: not_in_iff [THEN iffD1] unat_eq_0)
  qed
qed

text \<open>\<open>CRYPTO_BUFFER_new\<close> returns a buffer of the pool with the bytes it was given, new or shared; when it
  returns none, no allocated buffer has changed; and no assertion fails.\<close>

theorem CRYPTO_BUFFER_new_correct:
  assumes "reachable e w" "pcs w i = Idle" "pools (heap_of w) p \<noteq> None" "n \<le> length d" "at_addr (heap_of w) a = None"
  shows "case CRYPTO_BUFFER_new a d n (Some p) (heap_of w) of
      None \<Rightarrow> False
    | Some (None, h) \<Rightarrow> at_addr h = at_addr (heap_of w)
    | Some (Some b, h) \<Rightarrow> CRYPTO_BUFFER_data b = take n d \<and> CRYPTO_BUFFER_len b = n \<and> pool b = Some p \<and> in_table (pools h) p b"
proof -
  note ok = reachable_ok [OF assms(1)]
  obtain lh where lh: "pools (heap_of w) p = Some lh" using assms(3) by blast
  let ?tmp = "\<lparr>buf_addr = 0, pool = None, bytes_of = d, len = n\<rparr>"
  show ?thesis
  proof (cases "lh_retrieve lh ?tmp")
    case (Some b)
    note r = retrieved [OF ok lh Some]
    note b = world_okD(2) [OF ok r(1)]
    have "length (bytes_of b) = len b" using b world_okD(8) [OF ok] by (auto simp: allocated_def)
    then have "bytes_of b = take n d" "len b = n" using r(2) by (simp_all add: CRYPTO_BUFFER_cmp_eq)
    then show ?thesis
      using lh Some b r(1)
      by (simp add: CRYPTO_BUFFER_new_def new_lookup_def Let_def CRYPTO_BUFFER_data_def CRYPTO_BUFFER_len_def)
  next
    case None
    have look: "new_lookup d n p (heap_of w) = (None, heap_of w)" using lh None by (simp add: new_lookup_def Let_def)
    obtain r h2 where new: "new_alloc a d n (Some p) (heap_of w) = (r, h2)" by fastforce
    note al = new_alloc_Some [OF new assms(4)]
    show ?thesis
    proof (cases r)
      case None
      then show ?thesis using look new al by (simp add: CRYPTO_BUFFER_new_def)
    next
      case (Some b)
      have b: "b = \<lparr>buf_addr = a, pool = Some p, bytes_of = take n d, len = n\<rparr>" "at_addr h2 = (at_addr (heap_of w))(a \<mapsto> (b, 1))"
        using al(2) Some by simp_all
      have "section_step w (w\<lparr>heap_of := heap_of w, pcs := (pcs w)(i := Missed d n p)\<rparr>)"
        by (rule section_step.miss [OF assms(2-4) look])
      from section_step_ok [OF this ok] have ok1: "world_ok (w\<lparr>pcs := (pcs w)(i := Missed d n p)\<rparr>)" by simp
      have "section_step (w\<lparr>pcs := (pcs w)(i := Missed d n p)\<rparr>) (w\<lparr>heap_of := h2, pcs := (pcs w)(i := Made b p)\<rparr>)"
        using section_step.alloc [of "w\<lparr>pcs := (pcs w)(i := Missed d n p)\<rparr>" i d n p a r h2] assms(5) new Some by simp
      from section_step_ok [OF this ok1] have ok2: "world_ok (w\<lparr>heap_of := h2, pcs := (pcs w)(i := Made b p)\<rparr>)" .
      obtain dup ins fine h3 where put: "new_insert b p h2 = ((dup, ins, fine), h3)" by (metis prod.collapse)
      have fine: "fine" and none: "dup = None"
      proof -
        show fine using new_insert_ok(1) [OF ok2, of i b p dup ins fine h3] put by simp
        have "lookup lh b = None"
          using None bufs.lh_retrieve_lookup [OF world_okD(1) [OF ok lh]] bufs.lookup_None [OF world_okD(1) [OF ok lh]] b(1)
          by (simp add: CRYPTO_BUFFER_cmp_eq)
        then have "lh_retrieve lh b = None" using bufs.lh_retrieve_lookup [OF world_okD(1) [OF ok lh]] by simp
        then show "dup = None" using put lh al(1) by (auto simp: new_insert_def split: prod.splits)
      qed
      have keep: "at_addr h3 = at_addr h2"
        using put none by (auto simp: new_insert_def split: option.splits prod.splits)
      show ?thesis
      proof (cases ins)
        case True
        have ok3: "world_ok (w\<lparr>heap_of := h3, pcs := (pcs w)(i := Idle), held := held w + {#b#}\<rparr>)"
          using new_insert_ok(2) [OF ok2, of i b p dup ins fine h3] put True by (simp add: world_ok_def)
        then have "in_table (pools h3) p b"
          using world_okD(3) [OF ok3, of b] world_okD(9) [OF ok3, of a b 1] b keep by simp
        then show ?thesis
          using look new Some put fine True b by (simp add: CRYPTO_BUFFER_new_def CRYPTO_BUFFER_data_def CRYPTO_BUFFER_len_def)
      next
        case False
        then show ?thesis
          using look new Some put fine none b keep assms(5) by (simp add: CRYPTO_BUFFER_new_def fun_upd_idem)
      qed
    qed
  qed
qed

section \<open>A concrete run\<close>

text \<open>Pool 7 is made; thread 0 misses in it, allocates a buffer at address 100 and inserts it; thread 1 finds
  it.\<close>

definition run1 :: world where
  "run1 = (start plain_env)\<lparr>heap_of := snd (CRYPTO_BUFFER_POOL_new 7 (heap_of (start plain_env)))\<rparr>"

definition run2 :: world where
  "run2 = run1\<lparr>heap_of := snd (new_lookup [5, 6] 2 7 (heap_of run1)), pcs := (pcs run1)(0 := Missed [5, 6] 2 7)\<rparr>"

definition shared_buf :: CRYPTO_BUFFER where
  "shared_buf = \<lparr>buf_addr = 100, pool = Some 7, bytes_of = [5, 6], len = 2\<rparr>"

definition run3 :: world where
  "run3 = run2\<lparr>heap_of := snd (new_alloc 100 [5, 6] 2 (Some 7) (heap_of run2)), pcs := (pcs run2)(0 := Made shared_buf 7)\<rparr>"

definition run4 :: world where
  "run4 = run3\<lparr>heap_of := snd (new_insert shared_buf 7 (heap_of run3)), pcs := (pcs run3)(0 := Idle),
     held := held run3 + {#shared_buf#}\<rparr>"

definition run5 :: world where
  "run5 = run4\<lparr>heap_of := snd (new_lookup [5, 6] 2 7 (heap_of run4)), held := add_mset shared_buf (held run4)\<rparr>"

lemma run_reachable: "reachable plain_env run4" "reachable plain_env run5"
proof -
  have idle: "pcs (start plain_env) 0 = Idle" "pcs run1 0 = Idle" "pcs run2 0 = Missed [5, 6] 2 7" "pcs run3 0 = Made shared_buf 7"
    "pcs run4 1 = Idle"
    by (simp_all add: start_def run1_def run2_def run3_def run4_def)
  have r1: "section_step (start plain_env) run1"
    unfolding run1_def by (rule section_step.new_pool [OF idle(1)]) (simp add: start_def, rule prod.collapse [symmetric])
  have "fst (new_lookup [5, 6] 2 7 (heap_of run1)) = None" by code_simp
  then have look: "new_lookup [5, 6] 2 7 (heap_of run1) = (None, snd (new_lookup [5, 6] 2 7 (heap_of run1)))"
    by (metis prod.collapse)
  have r2: "section_step run1 run2"
    unfolding run2_def by (rule section_step.miss [OF idle(2) _ _ look]) (code_simp, simp)
  have "fst (new_alloc 100 [5, 6] 2 (Some 7) (heap_of run2)) = Some shared_buf" by code_simp
  then have al: "new_alloc 100 [5, 6] 2 (Some 7) (heap_of run2) = (Some shared_buf, snd (new_alloc 100 [5, 6] 2 (Some 7) (heap_of run2)))"
    by (metis prod.collapse)
  have free: "at_addr (heap_of run2) 100 = None" by code_simp
  have r3: "section_step run2 run3"
    unfolding run3_def using section_step.alloc [OF idle(3) free al] by simp
  have "fst (new_insert shared_buf 7 (heap_of run3)) = (None, True, True)" by code_simp
  then have put: "new_insert shared_buf 7 (heap_of run3) = ((None, True, True), snd (new_insert shared_buf 7 (heap_of run3)))"
    by (metis prod.collapse)
  have r4: "section_step run3 run4"
    unfolding run4_def using section_step.insert [OF idle(4) put] by simp
  have "fst (new_lookup [5, 6] 2 7 (heap_of run4)) = Some shared_buf" by code_simp
  then have hit: "new_lookup [5, 6] 2 7 (heap_of run4) = (Some shared_buf, snd (new_lookup [5, 6] 2 7 (heap_of run4)))"
    by (metis prod.collapse)
  have r5: "section_step run4 run5"
    unfolding run5_def by (rule section_step.hit [OF idle(5) _ _ hit]) (code_simp, simp)
  show r: "reachable plain_env run4"
    using reachable.run_step [OF reachable.run_step [OF reachable.run_step [OF reachable.run_step [OF reachable.begin_run r1] r2] r3] r4] .
  show "reachable plain_env run5" by (rule reachable.run_step [OF r r5])
qed

lemma pool_references_valid_witness:
  "shared_buf \<in># held run5 \<and> at_addr (heap_of run5) 100 = Some (shared_buf, 2) \<and> count (held run5) shared_buf = 2"
proof -
  have b: "shared_buf \<in># held run5" by (simp add: run5_def)
  have two: "count (held run5) shared_buf = 2" by (simp add: run5_def run4_def run3_def run2_def run1_def start_def)
  have "map_option snd (at_addr (heap_of run5) 100) = Some 2" by code_simp
  moreover have "buf_addr shared_buf = 100" by (simp add: shared_buf_def)
  ultimately show ?thesis using pool_references_valid [OF run_reachable(2) b] b two by auto
qed

lemma pool_calls_safe_witness:
  "pcs run5 1 = Idle \<and> shared_buf \<in># held run5 \<and> drop_ref shared_buf (heap_of run5) \<noteq> None"
proof -
  have "pcs run5 1 = Idle" "shared_buf \<in># held run5"
    by (simp_all add: run5_def run4_def run3_def run2_def run1_def start_def)
  then show ?thesis using pool_calls_safe [OF run_reachable(2), of 1 shared_buf] by blast
qed

lemma CRYPTO_BUFFER_new_correct_witness:
  "case CRYPTO_BUFFER_new 200 [5, 7, 8] 2 (Some 7) (heap_of run4) of
     Some (Some b, h) \<Rightarrow> CRYPTO_BUFFER_data b = [5, 7] \<and> in_table (pools h) 7 b
   | _ \<Rightarrow> False"
proof -
  have "pcs run4 1 = Idle" "(2 :: nat) \<le> length [5, 7, 8 :: u8]"
    by (simp_all add: run4_def run3_def run2_def run1_def start_def)
  moreover have "pools (heap_of run4) 7 \<noteq> None" "at_addr (heap_of run4) 200 = None" by code_simp+
  moreover have "case CRYPTO_BUFFER_new 200 [5, 7, 8] 2 (Some 7) (heap_of run4) of Some (Some b, h) \<Rightarrow> True | _ \<Rightarrow> False"
    by code_simp
  ultimately show ?thesis
    using CRYPTO_BUFFER_new_correct [OF run_reachable(1), of 1 7 2 "[5, 7, 8]" 200]
    by (auto split: option.splits prod.splits)
qed

end
