(* ===== verification/SslAead.thy ===== *)
theory SslAead
  imports Prelude
begin

text \<open>
  The record protection of \<open>ssl/ssl_aead_ctx.c\<close>: how the TLS record layer builds nonces and additional
  data and calls the AEAD of the negotiated cipher. The AEAD itself (\<open>EVP_AEAD_CTX\<close>, \<open>crypto/cipher\<close>) is a
  parameter, a record \<open>evp\<close> of functions of a key context \<open>'k\<close>; \<open>evp_inverts\<close> is what \<open>aead.h\<close>
  documents of it. A context pointer that is \<open>NULL\<close>, the initial cipher, is \<open>None\<close>. Where the code
  compares addresses, the addresses of the buffers are arguments.
\<close>

section \<open>Contexts\<close>

text \<open>\<open>evp_seal k max_out nonce inp ad\<close> and \<open>evp_open k nonce inp ad\<close> return the bytes written, or
  fail.\<close>

record 'k evp =
  evp_max_overhead :: "'k \<Rightarrow> nat"
  evp_seal :: "'k \<Rightarrow> nat \<Rightarrow> bytes \<Rightarrow> bytes \<Rightarrow> bytes \<Rightarrow> bytes option"
  evp_open :: "'k \<Rightarrow> bytes \<Rightarrow> bytes \<Rightarrow> bytes \<Rightarrow> bytes option"

record 'k SSL_AEAD_CTX =
  ctx :: 'k
  fixed_nonce :: bytes
  fixed_nonce_len :: nat
  variable_nonce_len :: nat
  variable_nonce_included_in_record :: bool
  random_variable_nonce :: bool
  omit_length_in_ad :: bool
  omit_version_in_ad :: bool
  omit_ad :: bool
  xor_fixed_nonce :: bool

text \<open>What \<open>SSL_AEAD_CTX_new\<close> learns from the cipher: the AEAD's key lengths and nonce length
  (\<open>ssl_cipher_get_evp_aead\<close> may fail), and the bits of \<open>algorithm_enc\<close>.\<close>

record cipher_info =
  evp_aead_lens :: "(nat \<times> nat \<times> nat) option"
  is_chacha20poly1305 :: bool
  is_aes_gcm :: bool

definition TLS1_3_VERSION :: u16 where "TLS1_3_VERSION = 0x0304"
definition SSL3_VERSION :: u16 where "SSL3_VERSION = 0x0300"
definition EVP_AEAD_MAX_KEY_LENGTH :: nat where "EVP_AEAD_MAX_KEY_LENGTH = 80"

text \<open>The context after \<open>OPENSSL_memset\<close> and \<open>EVP_AEAD_CTX_init_with_direction\<close>.\<close>

definition blank_ctx :: "'k \<Rightarrow> 'k SSL_AEAD_CTX" where
  "blank_ctx k = \<lparr>ctx = k, fixed_nonce = replicate 12 0, fixed_nonce_len = 0, variable_nonce_len = 0,
     variable_nonce_included_in_record = False, random_variable_nonce = False, omit_length_in_ad = False,
     omit_version_in_ad = False, omit_ad = False, xor_fixed_nonce = False\<rparr>"

definition SSL_AEAD_CTX_new ::
  "(bytes \<Rightarrow> 'k option) \<Rightarrow> u16 \<Rightarrow> cipher_info \<Rightarrow> bytes \<Rightarrow> bytes \<Rightarrow> bytes \<Rightarrow> env \<Rightarrow> 'k SSL_AEAD_CTX option \<times> env"
where
  "SSL_AEAD_CTX_new evp_init version cipher enc_key mac_key fixed_iv e =
     (case evp_aead_lens cipher of
        None \<Rightarrow> (None, e)
      | Some (expected_mac_key_len, expected_fixed_iv_len, nonce_length) \<Rightarrow>
          if expected_fixed_iv_len \<noteq> length fixed_iv \<or> expected_mac_key_len \<noteq> length mac_key then (None, e)
          else if length mac_key > 0 \<and> length mac_key + length enc_key + length fixed_iv > EVP_AEAD_MAX_KEY_LENGTH
          then (None, e)
          else if \<not> malloc_ok e then (None, tick e)
          else
            (case evp_init (if length mac_key > 0 then mac_key @ enc_key @ fixed_iv else enc_key) of
               None \<Rightarrow> (None, tick e)
             | Some k \<Rightarrow>
                 let c0 = (blank_ctx k)\<lparr>variable_nonce_len := nonce_length mod 256\<rparr>;
                     c = (if length mac_key = 0 then
                            let c1 = c0\<lparr>fixed_nonce := blit (fixed_nonce c0) 0 fixed_iv, fixed_nonce_len := length fixed_iv mod 256\<rparr>;
                                c2 = (if is_chacha20poly1305 cipher then c1\<lparr>xor_fixed_nonce := True, variable_nonce_len := 8\<rparr>
                                      else c1\<lparr>variable_nonce_len := variable_nonce_len c1 - length fixed_iv\<rparr>);
                                c3 = (if is_aes_gcm cipher then c2\<lparr>variable_nonce_included_in_record := True\<rparr> else c2)
                            in (if version \<ge> TLS1_3_VERSION
                                then c3\<lparr>xor_fixed_nonce := True, variable_nonce_len := 8,
                                        variable_nonce_included_in_record := False, omit_ad := True\<rparr>
                                else c3)
                          else c0\<lparr>variable_nonce_included_in_record := True, random_variable_nonce := True,
                                  omit_length_in_ad := True, omit_version_in_ad := (version = SSL3_VERSION)\<rparr>)
                 in (Some c, tick e)))"

definition SSL_AEAD_CTX_explicit_nonce_len :: "'k SSL_AEAD_CTX option \<Rightarrow> nat" where
  "SSL_AEAD_CTX_explicit_nonce_len aead =
     (case aead of
        None \<Rightarrow> 0
      | Some a \<Rightarrow> if variable_nonce_included_in_record a then variable_nonce_len a else 0)"

definition SSL_AEAD_CTX_max_overhead :: "'k evp \<Rightarrow> 'k SSL_AEAD_CTX option \<Rightarrow> nat" where
  "SSL_AEAD_CTX_max_overhead evp aead =
     (case aead of
        None \<Rightarrow> 0
      | Some a \<Rightarrow> evp_max_overhead evp (ctx a) + SSL_AEAD_CTX_explicit_nonce_len aead)"

section \<open>Additional data and nonces\<close>

definition ssl_aead_ctx_get_ad :: "'k SSL_AEAD_CTX \<Rightarrow> u8 \<Rightarrow> u16 \<Rightarrow> bytes \<Rightarrow> nat \<Rightarrow> bytes" where
  "ssl_aead_ctx_get_ad aead type wire_version seqnum plaintext_len =
     (if omit_ad aead then []
      else take 8 seqnum @ [type] @
        (if omit_version_in_ad aead then [] else [ucast (drop_bit 8 wire_version), ucast wire_version]) @
        (if omit_length_in_ad aead then [] else [of_nat (plaintext_len div 256), of_nat plaintext_len]))"

text \<open>The start of the nonce, and the fixed nonce XORed into the whole.\<close>

definition nonce_prefix :: "'k SSL_AEAD_CTX \<Rightarrow> bytes" where
  "nonce_prefix aead =
     (if xor_fixed_nonce aead then replicate (fixed_nonce_len aead - variable_nonce_len aead) 0
      else take (fixed_nonce_len aead) (fixed_nonce aead))"

definition mask_nonce :: "'k SSL_AEAD_CTX \<Rightarrow> bytes \<Rightarrow> bytes" where
  "mask_nonce aead nonce =
     (if xor_fixed_nonce aead
      then map2 (XOR) (take (fixed_nonce_len aead) nonce) (take (fixed_nonce_len aead) (fixed_nonce aead)) @
           drop (fixed_nonce_len aead) nonce
      else nonce)"

section \<open>Opening and sealing\<close>

text \<open>\<open>SSL_AEAD_CTX_open\<close> returns the bytes that \<open>out\<close> refers to.\<close>

definition SSL_AEAD_CTX_open ::
  "'k evp \<Rightarrow> 'k SSL_AEAD_CTX option \<Rightarrow> u8 \<Rightarrow> u16 \<Rightarrow> bytes \<Rightarrow> bytes \<Rightarrow> bytes option"
where
  "SSL_AEAD_CTX_open evp aead type wire_version seqnum inp =
     (case aead of
        None \<Rightarrow> Some inp
      | Some a \<Rightarrow>
          let overhead = SSL_AEAD_CTX_max_overhead evp aead in
          if \<not> omit_length_in_ad a \<and> length inp < overhead then None
          else
            let plaintext_len = (if omit_length_in_ad a then 0 else length inp - overhead);
                ad = ssl_aead_ctx_get_ad a type wire_version seqnum plaintext_len;
                n = variable_nonce_len a
            in if variable_nonce_included_in_record a then
                 (if length inp < n then None
                  else evp_open evp (ctx a) (mask_nonce a (nonce_prefix a @ take n inp)) (drop n inp) ad)
               else evp_open evp (ctx a) (mask_nonce a (nonce_prefix a @ take n seqnum)) inp ad)"

text \<open>\<open>in_p\<close> and \<open>out_p\<close> are the addresses of the buffers, \<open>rand\<close> what \<open>RAND_bytes\<close> gives.\<close>

definition SSL_AEAD_CTX_seal ::
  "'k evp \<Rightarrow> (nat \<Rightarrow> bytes option) \<Rightarrow> 'k SSL_AEAD_CTX option \<Rightarrow> nat \<Rightarrow> nat \<Rightarrow> u8 \<Rightarrow> u16 \<Rightarrow> bytes \<Rightarrow> nat \<Rightarrow> bytes \<Rightarrow> bytes option"
where
  "SSL_AEAD_CTX_seal evp rand aead out_p max_out type wire_version seqnum in_p inp =
     (case aead of
        None \<Rightarrow> if length inp > max_out then None else Some inp
      | Some a \<Rightarrow>
          let ad = ssl_aead_ctx_get_ad a type wire_version seqnum (length inp); n = variable_nonce_len a
          in (case (if random_variable_nonce a then rand n else Some (take n seqnum)) of
                None \<Rightarrow> None
              | Some var \<Rightarrow>
                  if variable_nonce_included_in_record a then
                    (if max_out < n then None
                     else if out_p < in_p + length inp \<and> in_p < out_p + n then None
                     else map_option ((@) var)
                            (evp_seal evp (ctx a) (max_out - n) (mask_nonce a (nonce_prefix a @ var)) inp ad))
                  else evp_seal evp (ctx a) max_out (mask_nonce a (nonce_prefix a @ var)) inp ad))"

section \<open>Correctness\<close>

text \<open>What \<open>aead.h\<close> says of an AEAD context: what was sealed opens again under the same nonce and
  additional data, and sealing adds at most the overhead; where the additional data hold the length
  (the TLS 1.2 AEADs) it adds exactly the overhead.\<close>

definition evp_inverts :: "'k evp \<Rightarrow> 'k \<Rightarrow> bool \<Rightarrow> bool" where
  "evp_inverts evp k fixed \<longleftrightarrow>
     (\<forall>m n p ad c. evp_seal evp k m n p ad = Some c \<longrightarrow>
        evp_open evp k n c ad = Some p \<and> length c \<le> length p + evp_max_overhead evp k \<and> length c \<le> m \<and>
        (fixed \<longrightarrow> length c = length p + evp_max_overhead evp k))"

text \<open>A context as \<open>SSL_AEAD_CTX_new\<close> makes them: the explicit nonce is random or the sequence
  number, whose length is 8.\<close>

definition aead_ok :: "'k evp \<Rightarrow> 'k SSL_AEAD_CTX \<Rightarrow> bool" where
  "aead_ok evp a \<longleftrightarrow>
     evp_inverts evp (ctx a) (\<not> omit_length_in_ad a) \<and>
     (random_variable_nonce a \<longrightarrow> variable_nonce_included_in_record a) \<and>
     (\<not> random_variable_nonce a \<longrightarrow> variable_nonce_len a = 8)"

text \<open>
  What the record layer needs of its protection: a sealed record opens to what was sealed, under the
  same type, version and sequence number, and is at most \<open>overhead\<close> longer.
\<close>

locale record_protection =
  fixes seal :: "nat \<Rightarrow> u8 \<Rightarrow> u16 \<Rightarrow> bytes \<Rightarrow> bytes \<Rightarrow> bytes option"
    and unseal :: "u8 \<Rightarrow> u16 \<Rightarrow> bytes \<Rightarrow> bytes \<Rightarrow> bytes option"
    and overhead :: nat
  assumes unseal_seal: "length seqnum = 8 \<Longrightarrow> seal max_out type version seqnum p = Some c \<Longrightarrow>
      unseal type version seqnum c = Some p \<and> length c \<le> length p + overhead \<and> length c \<le> max_out"

lemma aead_protects:
  assumes "\<forall>a. aead = Some a \<longrightarrow> aead_ok evp a" "\<forall>n v. rand n = Some v \<longrightarrow> length v = n"
  shows "record_protection (\<lambda>max_out type version seqnum p. SSL_AEAD_CTX_seal evp rand aead out_p max_out type version seqnum in_p p)
    (SSL_AEAD_CTX_open evp aead) (SSL_AEAD_CTX_max_overhead evp aead)"
proof
  fix seqnum p c :: bytes and max_out type and version :: u16
  assume len: "length seqnum = 8" and seal: "SSL_AEAD_CTX_seal evp rand aead out_p max_out type version seqnum in_p p = Some c"
  show "SSL_AEAD_CTX_open evp aead type version seqnum c = Some p \<and>
      length c \<le> length p + SSL_AEAD_CTX_max_overhead evp aead \<and> length c \<le> max_out"
  proof (cases aead)
    case None
    then show ?thesis using seal by (auto simp: SSL_AEAD_CTX_seal_def SSL_AEAD_CTX_open_def SSL_AEAD_CTX_max_overhead_def split: if_splits)
  next
    case (Some a)
    then have ok: "aead_ok evp a" using assms(1) by blast
    define ad where "ad = ssl_aead_ctx_get_ad a type version seqnum (length p)"
    define n where "n = variable_nonce_len a"
    obtain var where var: "(if random_variable_nonce a then rand n else Some (take n seqnum)) = Some var"
      using seal Some unfolding n_def SSL_AEAD_CTX_seal_def Let_def option.case
      by (cases "if random_variable_nonce a then rand (variable_nonce_len a) else Some (take (variable_nonce_len a) seqnum)") auto
    have lv: "length var = n"
      using var len ok assms(2) by (auto simp: aead_ok_def n_def split: if_splits)
    define nonce where "nonce = mask_nonce a (nonce_prefix a @ var)"
    have inv: "evp_open evp (ctx a) nonce x ad = Some p \<and> length x \<le> length p + evp_max_overhead evp (ctx a) \<and> length x \<le> m \<and>
        (\<not> omit_length_in_ad a \<longrightarrow> length x = length p + evp_max_overhead evp (ctx a))"
      if "evp_seal evp (ctx a) m nonce p ad = Some x" for x m
      using that ok by (auto simp: aead_ok_def evp_inverts_def)
    have ad: "ssl_aead_ctx_get_ad a type version seqnum (if omit_length_in_ad a then 0 else length p) = ad"
      by (simp add: ssl_aead_ctx_get_ad_def ad_def)
    show ?thesis
    proof (cases "variable_nonce_included_in_record a")
      case True
      then obtain x where x: "evp_seal evp (ctx a) (max_out - n) nonce p ad = Some x" "c = var @ x" "n \<le> max_out"
        using seal Some var by (auto simp: SSL_AEAD_CTX_seal_def Let_def n_def ad_def nonce_def split: if_splits)
      have over: "SSL_AEAD_CTX_max_overhead evp aead = evp_max_overhead evp (ctx a) + n"
        using Some True by (simp add: SSL_AEAD_CTX_max_overhead_def SSL_AEAD_CTX_explicit_nonce_len_def n_def)
      have "SSL_AEAD_CTX_open evp aead type version seqnum c = evp_open evp (ctx a) nonce x ad"
        using Some True inv [OF x(1)] ad unfolding SSL_AEAD_CTX_open_def over
        by (auto simp: Let_def x(2) lv nonce_def simp flip: n_def)
      then show ?thesis using inv [OF x(1)] over x(2,3) lv by auto
    next
      case False
      then have x: "evp_seal evp (ctx a) max_out nonce p ad = Some c" and v: "var = take n seqnum"
        using seal Some var ok by (auto simp: SSL_AEAD_CTX_seal_def Let_def n_def ad_def nonce_def aead_ok_def split: if_splits)
      have over: "SSL_AEAD_CTX_max_overhead evp aead = evp_max_overhead evp (ctx a)"
        using Some False by (simp add: SSL_AEAD_CTX_max_overhead_def SSL_AEAD_CTX_explicit_nonce_len_def)
      have "SSL_AEAD_CTX_open evp aead type version seqnum c = evp_open evp (ctx a) nonce c ad"
        using Some False inv [OF x] ad unfolding SSL_AEAD_CTX_open_def over
        by (auto simp: Let_def v nonce_def simp flip: n_def)
      then show ?thesis using inv [OF x] over by simp
    qed
  qed
qed

text \<open>The initial cipher protects records in this sense, with any AEAD.\<close>

interpretation null: record_protection
  "\<lambda>max_out type version seqnum p. SSL_AEAD_CTX_seal evp rand None out_p max_out type version seqnum in_p p"
  "SSL_AEAD_CTX_open evp None" 0
  for evp :: "'k evp" and rand out_p in_p
  by unfold_locales (auto simp: SSL_AEAD_CTX_seal_def SSL_AEAD_CTX_open_def split: if_splits)

section \<open>Nonces\<close>

lemma map2_xor_inject:
  fixes xs ys zs :: "'a::len word list"
  assumes "length xs = length zs" "length ys = length zs" "map2 (XOR) xs zs = map2 (XOR) ys zs"
  shows "xs = ys"
proof (rule nth_equalityI)
  fix i
  assume i: "i < length xs"
  have "map2 (XOR) xs zs ! i = map2 (XOR) ys zs ! i" using assms(3) by simp
  then have "xs ! i XOR zs ! i = ys ! i XOR zs ! i" using i assms(1,2) by simp
  then have "(xs ! i XOR zs ! i) XOR zs ! i = (ys ! i XOR zs ! i) XOR zs ! i" by (rule arg_cong)
  then show "xs ! i = ys ! i" unfolding xor.assoc xor_self_eq xor.right_neutral .
qed (use assms in simp)

text \<open>The lengths of a context that are consistent with each other and with the AEAD's nonce.\<close>

definition nonce_ok :: "nat \<Rightarrow> 'k SSL_AEAD_CTX \<Rightarrow> bool" where
  "nonce_ok nonce_length a \<longleftrightarrow>
     length (fixed_nonce a) = 12 \<and> fixed_nonce_len a \<le> 12 \<and>
     (if xor_fixed_nonce a then fixed_nonce_len a = nonce_length \<and> variable_nonce_len a \<le> fixed_nonce_len a
      else fixed_nonce_len a + variable_nonce_len a = nonce_length)"

lemma length_nonce_prefix:
  "nonce_ok nl a \<Longrightarrow> length (nonce_prefix a) + variable_nonce_len a = nl"
  by (auto simp: nonce_ok_def nonce_prefix_def split: if_splits)

lemma length_mask_nonce:
  assumes "nonce_ok nl a" "length nonce = nl"
  shows "length (mask_nonce a nonce) = nl"
  using assms by (auto simp: nonce_ok_def mask_nonce_def split: if_splits)

lemma mask_nonce_inject:
  assumes "nonce_ok nl a" "length x = nl" "length y = nl" "mask_nonce a x = mask_nonce a y"
  shows "x = y"
proof (cases "xor_fixed_nonce a")
  case True
  then have "map2 (XOR) x (take nl (fixed_nonce a)) = map2 (XOR) y (take nl (fixed_nonce a))"
    using assms by (simp add: mask_nonce_def nonce_ok_def)
  moreover have "length (take nl (fixed_nonce a)) = nl" using assms(1) True by (simp add: nonce_ok_def)
  ultimately show ?thesis using map2_xor_inject assms(2,3) by metis
next
  case False
  then show ?thesis using assms(4) by (simp add: mask_nonce_def)
qed



text \<open>C25: what the record layer seals it opens: under the same type, version and sequence number
  \<open>SSL_AEAD_CTX_open\<close> gives back the plaintext of \<open>SSL_AEAD_CTX_seal\<close>, whatever the form of the nonce.\<close>

theorem aead_roundtrip:
  assumes "\<forall>a. aead = Some a \<longrightarrow> aead_ok evp a" "\<forall>n v. rand n = Some v \<longrightarrow> length v = n" "length seqnum = 8"
    "SSL_AEAD_CTX_seal evp rand aead out_p max_out type version seqnum in_p p = Some c"
  shows "SSL_AEAD_CTX_open evp aead type version seqnum c = Some p \<and>
    length c \<le> length p + SSL_AEAD_CTX_max_overhead evp aead \<and> length c \<le> max_out"
  using record_protection.unseal_seal [OF aead_protects [OF assms(1,2)] assms(3,4)] .

section \<open>An AEAD for concrete runs\<close>

text \<open>It masks with a byte of key and nonce and appends the nonce, cut to 16 bytes, as the tag.\<close>

definition toy_tag :: "bytes \<Rightarrow> bytes" where
  "toy_tag nonce = take 16 (nonce @ replicate 16 0)"

definition toy_evp :: "u8 evp" where
  "toy_evp = \<lparr>evp_max_overhead = (\<lambda>k. 16),
     evp_seal = (\<lambda>k m n p ad. if length p + 16 \<le> m then Some (map ((XOR) k) p @ toy_tag n) else None),
     evp_open = (\<lambda>k n c ad.
       if length c \<ge> 16 \<and> drop (length c - 16) c = toy_tag n then Some (map ((XOR) k) (take (length c - 16) c)) else None)\<rparr>"

lemma length_toy_tag [simp]: "length (toy_tag n) = 16"
  by (simp add: toy_tag_def)

lemma toy_inverts: "evp_inverts toy_evp k fixed"
  by (auto simp: evp_inverts_def toy_evp_def xor.assoc [symmetric] o_def)

definition toy_gcm :: cipher_info where
  "toy_gcm = \<lparr>evp_aead_lens = Some (0, 4, 12), is_chacha20poly1305 = False, is_aes_gcm = True\<rparr>"

definition gcm_ctx :: "u8 SSL_AEAD_CTX" where
  "gcm_ctx = (blank_ctx 7)\<lparr>fixed_nonce := [1, 2, 3, 4, 0, 0, 0, 0, 0, 0, 0, 0], fixed_nonce_len := 4,
     variable_nonce_len := 8, variable_nonce_included_in_record := True\<rparr>"

lemma gcm_ctx_ok: "aead_ok toy_evp gcm_ctx" "nonce_ok 12 gcm_ctx"
  by (simp_all add: aead_ok_def toy_inverts gcm_ctx_def blank_ctx_def nonce_ok_def)



lemma aead_roundtrip_witness:
  "let s = [0, 1, 0, 0, 0, 0, 0, 5] in
   case SSL_AEAD_CTX_seal toy_evp (\<lambda>n. None) (Some gcm_ctx) 0 100 23 0x0303 s 200 [10, 11] of
     None \<Rightarrow> False
   | Some c \<Rightarrow> length c = 26 \<and> SSL_AEAD_CTX_open toy_evp (Some gcm_ctx) 23 0x0303 s c = Some [10, 11]"
proof -
  let ?s = "[0, 1, 0, 0, 0, 0, 0, 5] :: bytes"
  obtain c where c: "SSL_AEAD_CTX_seal toy_evp (\<lambda>n. None) (Some gcm_ctx) 0 100 23 0x0303 ?s 200 [10, 11] = Some c" "length c = 26"
    by (simp add: SSL_AEAD_CTX_seal_def gcm_ctx_def blank_ctx_def toy_evp_def Let_def)
  then show ?thesis
    using aead_roundtrip [OF _ _ _ c(1)] gcm_ctx_ok(1) by simp
qed

end
