(* ===== verification/SslState.thy ===== *)
theory SslState
  imports Cbs SslAead
begin

text \<open>
  The state of a connection that the record layers share, and what both use of \<open>ssl/tls_record.c\<close>,
  \<open>ssl/ssl_lib.c\<close>, \<open>ssl/tls_method.c\<close>, \<open>ssl/dtls_method.c\<close> and \<open>ssl/ssl_cipher.c\<close>: protocol versions, alerts and
  sequence numbers. The state is the part of \<open>SSL\<close> that these functions use; the message and info callbacks
  have no effect on it. An \<open>assert\<close> is the caller's obligation and no part of an operation, except where the
  text says so.
\<close>

section \<open>State\<close>

record DTLS1_BITMAP =
  window :: u64
  max_seq_num :: u64

datatype shutdown = ssl_shutdown_none | ssl_shutdown_close_notify | ssl_shutdown_fatal_alert

datatype open_record =
    ssl_open_record_success | ssl_open_record_discard | ssl_open_record_partial
  | ssl_open_record_close_notify | ssl_open_record_fatal_alert | ssl_open_record_error

text \<open>The bits of a cipher suite that the record layer looks at.\<close>

record ssl_cipher =
  algorithm_enc :: u32
  algorithm_mac :: u32

text \<open>\<open>record_splitting\<close> is the mode \<open>SSL_MODE_CBC_RECORD_SPLITTING\<close>, \<open>write_cipher\<close> the cipher of
  \<open>aead_write_ctx\<close>, and \<open>incoming\<close> is what \<open>dtls_has_incoming_messages\<close> says of the handshake messages.\<close>

record 'k ssl =
  is_dtls :: bool
  version :: u16
  have_version :: bool
  r_epoch :: u16
  w_epoch :: u16
  bitmap :: DTLS1_BITMAP
  read_sequence :: bytes
  write_sequence :: bytes
  last_write_sequence :: bytes
  warning_alert_count :: u8
  empty_record_count :: u8
  skip_early_data :: bool
  early_data_skipped :: u16
  short_header :: bool
  record_splitting :: bool
  write_cipher :: ssl_cipher
  recv_shutdown :: shutdown
  aead_read_ctx :: "'k SSL_AEAD_CTX option"
  aead_write_ctx :: "'k SSL_AEAD_CTX option"
  incoming :: bool

definition DTLS1_VERSION :: u16 where "DTLS1_VERSION = 0xfeff"
definition DTLS1_2_VERSION :: u16 where "DTLS1_2_VERSION = 0xfefd"
definition DTLS1_VERSION_MAJOR :: u16 where "DTLS1_VERSION_MAJOR = 0xfe"
definition TLS1_VERSION :: u16 where "TLS1_VERSION = 0x0301"
definition TLS1_1_VERSION :: u16 where "TLS1_1_VERSION = 0x0302"
definition TLS1_2_VERSION :: u16 where "TLS1_2_VERSION = 0x0303"
definition TLS1_3_DRAFT_VERSION :: u16 where "TLS1_3_DRAFT_VERSION = 0x7f12"
definition SSL3_VERSION_MAJOR :: u16 where "SSL3_VERSION_MAJOR = 0x03"
definition SSL_3DES :: u32 where "SSL_3DES = 1"
definition SSL_AES128 :: u32 where "SSL_AES128 = 2"
definition SSL_AES256 :: u32 where "SSL_AES256 = 4"
definition SSL_eNULL :: u32 where "SSL_eNULL = 0x20"
definition SSL_AEAD :: u32 where "SSL_AEAD = 8"
definition SHA_DIGEST_LENGTH :: nat where "SHA_DIGEST_LENGTH = 20"
definition SSL3_RT_HEADER_LENGTH :: nat where "SSL3_RT_HEADER_LENGTH = 5"
definition DTLS1_RT_HEADER_LENGTH :: nat where "DTLS1_RT_HEADER_LENGTH = 13"
definition SSL3_RT_MAX_PLAIN_LENGTH :: nat where "SSL3_RT_MAX_PLAIN_LENGTH = 16384"
definition SSL3_RT_MAX_ENCRYPTED_LENGTH :: nat where "SSL3_RT_MAX_ENCRYPTED_LENGTH = (256 + 64) + 16384"
definition SSL3_RT_APPLICATION_DATA :: u8 where "SSL3_RT_APPLICATION_DATA = 23"
definition SSL3_RT_ALERT :: u8 where "SSL3_RT_ALERT = 21"
definition SSL3_AL_WARNING :: u8 where "SSL3_AL_WARNING = 1"
definition SSL3_AL_FATAL :: u8 where "SSL3_AL_FATAL = 2"
definition SSL_AD_CLOSE_NOTIFY :: u8 where "SSL_AD_CLOSE_NOTIFY = 0"
definition SSL_AD_UNEXPECTED_MESSAGE :: u8 where "SSL_AD_UNEXPECTED_MESSAGE = 10"
definition SSL_AD_BAD_RECORD_MAC :: u8 where "SSL_AD_BAD_RECORD_MAC = 20"
definition SSL_AD_PROTOCOL_VERSION :: u8 where "SSL_AD_PROTOCOL_VERSION = 70"
definition SSL_AD_INTERNAL_ERROR :: u8 where "SSL_AD_INTERNAL_ERROR = 80"
definition SSL_AD_DECRYPT_ERROR :: u8 where "SSL_AD_DECRYPT_ERROR = 51"
definition SSL_AD_RECORD_OVERFLOW :: u8 where "SSL_AD_RECORD_OVERFLOW = 22"
definition SSL_AD_ILLEGAL_PARAMETER :: u8 where "SSL_AD_ILLEGAL_PARAMETER = 47"
definition SSL_AD_DECODE_ERROR :: u8 where "SSL_AD_DECODE_ERROR = 50"
definition kMaxWarningAlerts :: u8 where "kMaxWarningAlerts = 4"

text \<open>\<open>assert(0)\<close> on an unknown version is the 0 that follows it.\<close>

definition dtls1_version_from_wire :: "u16 \<Rightarrow> u16 option" where
  "dtls1_version_from_wire wire_version =
     (if wire_version = DTLS1_VERSION then Some TLS1_1_VERSION
      else if wire_version = DTLS1_2_VERSION then Some TLS1_2_VERSION
      else None)"

definition ssl3_version_from_wire :: "u16 \<Rightarrow> u16 option" where
  "ssl3_version_from_wire wire_version =
     (if wire_version \<in> {SSL3_VERSION, TLS1_VERSION, TLS1_1_VERSION, TLS1_2_VERSION} then Some wire_version
      else if wire_version = TLS1_3_DRAFT_VERSION then Some TLS1_3_VERSION
      else None)"

definition ssl3_protocol_version :: "'k ssl \<Rightarrow> u16" where
  "ssl3_protocol_version ssl =
     (case (if is_dtls ssl then dtls1_version_from_wire else ssl3_version_from_wire) (version ssl) of
        None \<Rightarrow> 0
      | Some v \<Rightarrow> v)"

text \<open>The ciphers.\<close>

definition SSL_CIPHER_is_block_cipher :: "ssl_cipher \<Rightarrow> bool" where
  "SSL_CIPHER_is_block_cipher cipher \<longleftrightarrow> algorithm_enc cipher AND SSL_eNULL = 0 \<and> algorithm_mac cipher \<noteq> SSL_AEAD"

definition ssl_cipher_get_record_split_len :: "ssl_cipher \<Rightarrow> nat" where
  "ssl_cipher_get_record_split_len cipher =
     (let padded = (\<lambda>block_size. let ret = 1 + SHA_DIGEST_LENGTH in ret + (block_size - ret mod block_size)) in
      if algorithm_enc cipher = SSL_3DES then padded 8
      else if algorithm_enc cipher = SSL_AES128 \<or> algorithm_enc cipher = SSL_AES256 then padded 16
      else 0)"

text \<open>The result, and \<open>*out_alert\<close> where it is set.\<close>

definition ssl_process_alert :: "'k ssl \<Rightarrow> bytes \<Rightarrow> (open_record \<times> u8 option) \<times> 'k ssl" where
  "ssl_process_alert ssl inp =
     (if length inp \<noteq> 2 then ((ssl_open_record_error, Some SSL_AD_DECODE_ERROR), ssl)
      else
        let alert_level = inp ! 0; alert_descr = inp ! 1 in
        if alert_level = SSL3_AL_WARNING then
          (if alert_descr = SSL_AD_CLOSE_NOTIFY then
             ((ssl_open_record_close_notify, None), ssl\<lparr>recv_shutdown := ssl_shutdown_close_notify\<rparr>)
           else if have_version ssl \<and> ssl3_protocol_version ssl \<ge> TLS1_3_VERSION then
             ((ssl_open_record_error, Some SSL_AD_DECODE_ERROR), ssl)
           else
             let ssl1 = ssl\<lparr>warning_alert_count := warning_alert_count ssl + 1\<rparr> in
             if warning_alert_count ssl1 > kMaxWarningAlerts then
               ((ssl_open_record_error, Some SSL_AD_UNEXPECTED_MESSAGE), ssl1)
             else ((ssl_open_record_discard, None), ssl1))
        else if alert_level = SSL3_AL_FATAL then
          ((ssl_open_record_fatal_alert, None), ssl\<lparr>recv_shutdown := ssl_shutdown_fatal_alert\<rparr>)
        else ((ssl_open_record_error, Some SSL_AD_ILLEGAL_PARAMETER), ssl))"

section \<open>Sequence numbers\<close>

text \<open>\<open>++seq[i]\<close> from the last byte on, until one does not wrap around; \<open>False\<close> when all did.\<close>

fun sequence_inc :: "bytes \<Rightarrow> bool \<times> bytes" where
  "sequence_inc [] = (False, [])"
| "sequence_inc (s # rest) =
     (case sequence_inc rest of
        (True, rest') \<Rightarrow> (True, s # rest')
      | (False, rest') \<Rightarrow> (s + 1 \<noteq> 0, (s + 1) # rest'))"

definition ssl_record_sequence_update :: "bytes \<Rightarrow> nat \<Rightarrow> bool \<times> bytes" where
  "ssl_record_sequence_update seq seq_len =
     (case sequence_inc (take seq_len seq) of (ok, s) \<Rightarrow> (ok, s @ drop seq_len seq))"

definition buffers_alias :: "nat \<Rightarrow> nat \<Rightarrow> nat \<Rightarrow> nat \<Rightarrow> bool" where
  "buffers_alias a a_len b b_len \<longleftrightarrow> a + a_len > b \<and> b + b_len > a"

section \<open>Lemmas\<close>

lemma ssl_process_alert_keeps:
  assumes "ssl_process_alert s inp = (r, s')"
  shows "bitmap s' = bitmap s" "r_epoch s' = r_epoch s"
  using assms by (auto simp: ssl_process_alert_def Let_def split: if_splits)

lemma u16_word: "(ucast (be_word [a, b] 0 :: u32) :: u16) = push_bit 8 (ucast a) OR ucast b"
proof -
  have "unat (be_word [a, b] 0 :: u32) = 256 * unat a + unat b"
    using be_nat_zero_bound [of "[a, b]" 4] by (simp add: unat_be_word)
  moreover have "unat (push_bit 8 (ucast a) OR ucast b :: u16) = 256 * unat a + unat b"
    using unat_shift_or_byte [of "ucast a :: u16" b] unat_u8_less [of a] unat_u8_less [of b] by (simp add: unat_ucast_u8)
  moreover have "256 * unat a + unat b < 2 ^ 16" using unat_u8_le [of a] unat_u8_le [of b] by simp
  ultimately show ?thesis
    by (simp add: word_unat_eq_iff unsigned_ucast_eq take_bit_nat_eq_self)
qed

lemma u16_bytes: "push_bit 8 (ucast (ucast (drop_bit 8 w) :: u8)) OR ucast (ucast w :: u8) = w" for w :: u16
  by (rule bit_word_eqI) (auto simp: bit_or_iff bit_push_bit_iff bit_ucast_iff bit_drop_bit_eq)

lemma u16_length: "n < 2 ^ 16 \<Longrightarrow> 256 * unat (of_nat (n div 256) :: u8) + unat (of_nat n :: u8) = n"
  by (simp add: unsigned_of_nat take_bit_nat_def)

lemma be_nat_Cons: "be_nat 0 (b # bs) = unat b * 256 ^ length bs + be_nat 0 bs"
  using be_nat_acc [of "unat b" bs] by simp

lemma sequence_inc_nat:
  "sequence_inc seq = (ok, seq') \<Longrightarrow>
     length seq' = length seq \<and>
     (if ok then be_nat 0 seq' = be_nat 0 seq + 1
      else be_nat 0 seq + 1 = 256 ^ length seq \<and> seq' = replicate (length seq) 0)"
proof (induction seq arbitrary: ok seq')
  case Nil
  then show ?case by simp
next
  case (Cons s rest)
  obtain ok1 r where r: "sequence_inc rest = (ok1, r)" by fastforce
  note IH = Cons.IH [OF r]
  have zeros: "be_nat 0 (replicate n 0) = 0" for n by (induction n) auto
  show ?case
  proof (cases ok1)
    case True
    then show ?thesis using Cons.prems r IH by (auto simp: be_nat_Cons simp del: be_nat.simps)
  next
    case False
    then have r': "be_nat 0 rest + 1 = 256 ^ length rest" "r = replicate (length rest) 0" using IH by auto
    have ok: "ok \<longleftrightarrow> s + 1 \<noteq> 0" "seq' = (s + 1) # r" using Cons.prems r False by auto
    show ?thesis
    proof (cases "s + 1 = 0")
      case True
      then have "s = - 1" by (metis add_eq_0_iff2 add.commute)
      then have "unat s = 255" by (simp add: unsigned_minus_1_eq_mask mask_eq_exp_minus_1)
      then show ?thesis using ok r' True by (simp add: be_nat_Cons del: be_nat.simps)
    next
      case False
      then have "unat (s + 1) = unat s + 1" by (simp add: unatSuc add.commute [of s])
      then show ?thesis using ok r' False by (simp add: be_nat_Cons zeros del: be_nat.simps)
    qed
  qed
qed

end
