(* ===== verification/DtlsRecord.thy ===== *)
theory DtlsRecord
  imports SslState
begin

text \<open>
  The DTLS record layer: \<open>ssl/dtls_record.c\<close>, with the changes of cipher state of \<open>ssl/dtls_method.c\<close> and the
  sequence numbers that \<open>ssl/ssl_lib.c\<close> reports. The state is that of \<open>SslState\<close>, and the AEAD the parameter
  \<open>evp\<close> of \<open>SslAead\<close>.
\<close>

section \<open>The replay window\<close>

definition to_u64_be :: "bytes \<Rightarrow> u64" where
  "to_u64_be inp = be_word (take 8 inp) 0"

definition kWindowSize :: u64 where
  "kWindowSize = 64"

definition dtls1_bitmap_should_discard :: "DTLS1_BITMAP \<Rightarrow> bytes \<Rightarrow> bool" where
  "dtls1_bitmap_should_discard b seq_num =
     (let seq_num_u = to_u64_be seq_num in
      if seq_num_u > max_seq_num b then False
      else
        let idx = max_seq_num b - seq_num_u in
        idx \<ge> kWindowSize \<or> window b AND push_bit (unat idx) 1 \<noteq> 0)"

definition dtls1_bitmap_record :: "DTLS1_BITMAP \<Rightarrow> bytes \<Rightarrow> DTLS1_BITMAP" where
  "dtls1_bitmap_record b seq_num =
     (let seq_num_u = to_u64_be seq_num;
          b1 = (if seq_num_u > max_seq_num b then
                  (let shift = seq_num_u - max_seq_num b
                   in b\<lparr>window := (if shift \<ge> kWindowSize then 0 else push_bit (unat shift) (window b)),
                        max_seq_num := seq_num_u\<rparr>)
                else b);
          idx = max_seq_num b1 - seq_num_u
      in if idx < kWindowSize then b1\<lparr>window := window b1 OR push_bit (unat idx) 1\<rparr> else b1)"

section \<open>Opening records\<close>

definition dtls_parse_record :: "(CBS, u8 \<times> u16 \<times> bytes \<times> CBS) op" where
  "dtls_parse_record =
     op_bind CBS_get_u8 (\<lambda>type. op_bind CBS_get_u16 (\<lambda>ver. op_bind (CBS_copy_bytes 8) (\<lambda>sequence.
       op_bind CBS_get_u16_length_prefixed (\<lambda>body. op_ret (type, ver, sequence, body)))))"

text \<open>What \<open>dtls_open_record\<close> reports: the result, \<open>*out_consumed\<close>, \<open>*out_type\<close> and the bytes of
  \<open>*out\<close> on success, \<open>*out_alert\<close> where it is set.\<close>

record opened =
  result :: open_record
  consumed :: nat
  out_type :: u8
  out :: bytes
  out_alert :: "u8 option"

definition dropped :: "nat \<Rightarrow> opened" where
  "dropped n = \<lparr>result = ssl_open_record_discard, consumed = n, out_type = 0, out = [], out_alert = None\<rparr>"

definition dtls_open_record :: "'k evp \<Rightarrow> 'k ssl \<Rightarrow> bytes \<Rightarrow> nat \<Rightarrow> opened \<times> 'k ssl" where
  "dtls_open_record evp ssl inp in_len =
     (case dtls_parse_record (CBS_init inp in_len) of
        (None, cbs) \<Rightarrow> (dropped in_len, ssl)
      | (Some (type, ver, sequence, body), cbs) \<Rightarrow>
          if have_version ssl \<and> ver \<noteq> version ssl \<or> drop_bit 8 ver \<noteq> DTLS1_VERSION_MAJOR \<or>
             CBS_len body > SSL3_RT_MAX_ENCRYPTED_LENGTH
          then (dropped in_len, ssl)
          else
            let epoch = push_bit 8 (ucast (sequence ! 0)) OR ucast (sequence ! 1);
                done_len = in_len - CBS_len cbs
            in if epoch \<noteq> r_epoch ssl \<or> dtls1_bitmap_should_discard (bitmap ssl) sequence
               then (dropped done_len, ssl)
               else
                 (case SSL_AEAD_CTX_open evp (aead_read_ctx ssl) type ver sequence (take (CBS_len body) (CBS_data body)) of
                    None \<Rightarrow> (dropped done_len, ssl)
                  | Some plain \<Rightarrow>
                      if length plain > SSL3_RT_MAX_PLAIN_LENGTH then
                        ((dropped done_len)\<lparr>result := ssl_open_record_error, out_alert := Some SSL_AD_RECORD_OVERFLOW\<rparr>, ssl)
                      else
                        let ssl1 = ssl\<lparr>bitmap := dtls1_bitmap_record (bitmap ssl) sequence\<rparr> in
                        if type = SSL3_RT_ALERT then
                          (case ssl_process_alert ssl1 plain of ((r, a), ssl2) \<Rightarrow>
                             ((dropped done_len)\<lparr>result := r, out_alert := a\<rparr>, ssl2))
                        else
                          (\<lparr>result = ssl_open_record_success, consumed = done_len, out_type = type, out = plain, out_alert = None\<rparr>,
                           ssl1\<lparr>warning_alert_count := 0\<rparr>)))"

section \<open>Sealing records\<close>

datatype dtls1_use_epoch_t = dtls1_use_previous_epoch | dtls1_use_current_epoch

definition get_write_aead :: "'k ssl \<Rightarrow> dtls1_use_epoch_t \<Rightarrow> 'k SSL_AEAD_CTX option" where
  "get_write_aead ssl use_epoch = (if use_epoch = dtls1_use_previous_epoch then None else aead_write_ctx ssl)"

definition dtls_max_seal_overhead :: "'k evp \<Rightarrow> 'k ssl \<Rightarrow> dtls1_use_epoch_t \<Rightarrow> nat" where
  "dtls_max_seal_overhead evp ssl use_epoch =
     DTLS1_RT_HEADER_LENGTH + SSL_AEAD_CTX_max_overhead evp (get_write_aead ssl use_epoch)"

definition dtls_seal_prefix_len :: "'k ssl \<Rightarrow> dtls1_use_epoch_t \<Rightarrow> nat" where
  "dtls_seal_prefix_len ssl use_epoch =
     DTLS1_RT_HEADER_LENGTH + SSL_AEAD_CTX_explicit_nonce_len (get_write_aead ssl use_epoch)"

text \<open>\<open>dtls_seal_record\<close>: the record written, or \<open>None\<close> for 0. \<open>out_p\<close> and \<open>in_p\<close> are the addresses of
  the buffers.\<close>

definition dtls_seal_record ::
  "'k evp \<Rightarrow> (nat \<Rightarrow> bytes option) \<Rightarrow> 'k ssl \<Rightarrow> nat \<Rightarrow> nat \<Rightarrow> u8 \<Rightarrow> nat \<Rightarrow> bytes \<Rightarrow> dtls1_use_epoch_t \<Rightarrow>
   bytes option \<times> 'k ssl"
where
  "dtls_seal_record evp rand ssl out_p max_out type in_p inp use_epoch =
     (let prefix = dtls_seal_prefix_len ssl use_epoch in
      if buffers_alias in_p (length inp) out_p max_out \<and> (max_out < prefix \<or> out_p + prefix \<noteq> in_p) then (None, ssl)
      else
        let prev = (use_epoch = dtls1_use_previous_epoch);
            epoch = (if prev then w_epoch ssl - 1 else w_epoch ssl);
            aead = (if prev then None else aead_write_ctx ssl);
            seq = (if prev then last_write_sequence ssl else write_sequence ssl)
        in if max_out < DTLS1_RT_HEADER_LENGTH then (None, ssl)
           else
             let wire_version = (if have_version ssl then version ssl else DTLS1_VERSION);
                 seqnum = [ucast (drop_bit 8 epoch), ucast epoch] @ take 6 (drop 2 seq)
             in (case SSL_AEAD_CTX_seal evp rand aead (out_p + DTLS1_RT_HEADER_LENGTH) (max_out - DTLS1_RT_HEADER_LENGTH)
                        type wire_version seqnum in_p inp of
                   None \<Rightarrow> (None, ssl)
                 | Some c \<Rightarrow>
                     (case ssl_record_sequence_update (drop 2 seq) 6 of
                        (ok, s) \<Rightarrow>
                          let seq' = take 2 seq @ s;
                              ssl1 = (if prev then ssl\<lparr>last_write_sequence := seq'\<rparr> else ssl\<lparr>write_sequence := seq'\<rparr>)
                          in if \<not> ok then (None, ssl1)
                             else if length c \<ge> 2 ^ 16 then (None, ssl1)
                             else (Some (type # [ucast (drop_bit 8 wire_version), ucast wire_version] @ seqnum @
                                         [of_nat (length c div 256), of_nat (length c)] @ c), ssl1))))"

section \<open>Changes of cipher state\<close>

definition dtls1_set_read_state :: "'k ssl \<Rightarrow> 'k SSL_AEAD_CTX option \<Rightarrow> bool \<times> 'k ssl" where
  "dtls1_set_read_state ssl aead_ctx =
     (if incoming ssl then (False, ssl)
      else (True, ssl\<lparr>r_epoch := r_epoch ssl + 1, bitmap := \<lparr>window = 0, max_seq_num = 0\<rparr>,
                      read_sequence := replicate 8 0, aead_read_ctx := aead_ctx\<rparr>))"

definition dtls1_set_write_state :: "'k ssl \<Rightarrow> 'k SSL_AEAD_CTX option \<Rightarrow> bool \<times> 'k ssl" where
  "dtls1_set_write_state ssl aead_ctx =
     (True, ssl\<lparr>w_epoch := w_epoch ssl + 1, last_write_sequence := write_sequence ssl,
                write_sequence := replicate 8 0, aead_write_ctx := aead_ctx\<rparr>)"

text \<open>\<open>SSL_get_read_sequence\<close> and \<open>SSL_get_write_sequence\<close> of a DTLS connection; \<open>None\<close> is a failed
  assertion.\<close>

definition be_to_u64 :: "bytes \<Rightarrow> u64" where
  "be_to_u64 inp =
     push_bit 56 (ucast (inp ! 0)) OR push_bit 48 (ucast (inp ! 1)) OR push_bit 40 (ucast (inp ! 2)) OR
     push_bit 32 (ucast (inp ! 3)) OR push_bit 24 (ucast (inp ! 4)) OR push_bit 16 (ucast (inp ! 5)) OR
     push_bit 8 (ucast (inp ! 6)) OR ucast (inp ! 7)"

definition SSL_get_read_sequence :: "'k ssl \<Rightarrow> u64 option" where
  "SSL_get_read_sequence ssl =
     (if ucast (r_epoch ssl) = drop_bit 48 (max_seq_num (bitmap ssl)) then Some (max_seq_num (bitmap ssl)) else None)"

definition SSL_get_write_sequence :: "'k ssl \<Rightarrow> u64 option" where
  "SSL_get_write_sequence ssl =
     (let ret = be_to_u64 (write_sequence ssl) in
      if drop_bit 48 ret = 0 then Some (ret OR push_bit 48 (ucast (w_epoch ssl))) else None)"

section \<open>The window as a set\<close>

text \<open>\<open>seen_by b S\<close>: the numbers received so far are \<open>S\<close>, none above the maximum, and the bits of the
  window tell which of the last 64 are among them.\<close>

definition seen_by :: "DTLS1_BITMAP \<Rightarrow> u64 set \<Rightarrow> bool" where
  "seen_by b S \<longleftrightarrow>
     (\<forall>s\<in>S. s \<le> max_seq_num b) \<and>
     (\<forall>s\<le>max_seq_num b. max_seq_num b - s < 64 \<longrightarrow> (bit (window b) (unat (max_seq_num b - s)) \<longleftrightarrow> s \<in> S))"

lemma seen_by_empty: "seen_by \<lparr>window = 0, max_seq_num = 0\<rparr> {}"
  by (simp add: seen_by_def)

lemma and_bit_iff: "(w :: u64) AND push_bit n 1 \<noteq> 0 \<longleftrightarrow> bit w n"
  by (simp add: bit_iff_and_push_bit_not_eq_0)

lemma unat_diff: "t \<le> s \<Longrightarrow> unat (s - t) = unat s - unat t" for s t :: u64
  by (rule unat_sub)

text \<open>A number is discarded when it was received before or lies before the window.\<close>

lemma should_discard_iff:
  assumes "seen_by b S"
  shows "dtls1_bitmap_should_discard b seq \<longleftrightarrow>
    to_u64_be seq \<le> max_seq_num b \<and> (64 \<le> max_seq_num b - to_u64_be seq \<or> to_u64_be seq \<in> S)"
proof (cases "to_u64_be seq \<le> max_seq_num b")
  case True
  then show ?thesis
    using assms unfolding seen_by_def dtls1_bitmap_should_discard_def Let_def and_bit_iff kWindowSize_def
    by (metis not_le)
next
  case False
  then have "max_seq_num b < to_u64_be seq" by simp
  then show ?thesis using False by (simp add: dtls1_bitmap_should_discard_def)
qed

lemma seen_by_record:
  assumes "seen_by b S"
  shows "seen_by (dtls1_bitmap_record b seq) (insert (to_u64_be seq) S)"
proof -
  define s where "s = to_u64_be seq"
  define m where "m = max_seq_num b"
  have S: "t \<le> m" if "t \<in> S" for t using assms that by (simp add: seen_by_def m_def)
  have bits: "bit (window b) (unat (m - t)) \<longleftrightarrow> t \<in> S" if "t \<le> m" "m - t < 64" for t
    using assms that by (simp add: seen_by_def m_def)
  have one: "bit (push_bit n 1 :: u64) k \<longleftrightarrow> k = n" if "k < 64" for n k
    using that by (auto simp: bit_exp_iff)
  show ?thesis
  proof (cases "s > m")
    case True
    define sh where "sh = s - m"
    have rec: "max_seq_num (dtls1_bitmap_record b seq) = s"
      "window (dtls1_bitmap_record b seq) = (if sh \<ge> 64 then 0 else push_bit (unat sh) (window b)) OR 1"
      using True by (simp_all add: dtls1_bitmap_record_def kWindowSize_def Let_def flip: s_def m_def sh_def)
    have "bit (window (dtls1_bitmap_record b seq)) (unat (s - t)) \<longleftrightarrow> t \<in> insert s S"
      if t: "t \<le> s" "s - t < 64" for t
    proof -
      have k: "unat (s - t) = unat s - unat t" "unat s - unat t < 64" "unat t \<le> unat s"
        using unat_diff [OF t(1)] t by (simp_all add: word_less_nat_alt word_le_nat_alt)
      have ms: "unat m < unat s" "unat sh = unat s - unat m" using True unat_diff [OF less_imp_le [OF True]] by (simp_all add: sh_def word_less_nat_alt)
      show ?thesis
      proof (cases "t = s")
        case False
        then have "unat t \<noteq> unat s" using word_unat_eq_iff by blast
        then have pos: "0 < unat s - unat t" using k(3) by simp
        show ?thesis
        proof (cases "t \<le> m")
          case True
          then have tm: "unat t \<le> unat m" "unat (m - t) = unat m - unat t" using unat_diff by (simp_all add: word_le_nat_alt)
          then have sh: "unat sh < 64" using k ms by simp
          then have "\<not> sh \<ge> 64" by (simp add: word_le_nat_alt)
          moreover have "unat s - unat t - unat sh = unat (m - t)" "unat sh \<le> unat s - unat t" using ms tm by simp_all
          moreover have "m - t < 64" using k ms tm by (simp add: word_less_nat_alt)
          ultimately show ?thesis
            using bits [OF True] k pos False unfolding rec k(1)
            by (simp add: bit_or_iff bit_push_bit_iff bit_1_iff)
        next
          case above: False
          then have "unat s - unat t < unat sh" "t \<notin> S" using ms S by (auto simp: word_le_nat_alt)
          then show ?thesis
            using pos False k unfolding rec k(1) by (simp add: bit_or_iff bit_push_bit_iff bit_1_iff)
        qed
      qed (simp add: rec bit_or_iff)
    qed
    then show ?thesis using S True unfolding seen_by_def rec(1) s_def [symmetric] by fastforce
  next
    case False
    then have sm: "s \<le> m" by simp
    have rec: "max_seq_num (dtls1_bitmap_record b seq) = m"
      "window (dtls1_bitmap_record b seq) = (if m - s < 64 then window b OR push_bit (unat (m - s)) 1 else window b)"
      using False by (simp_all add: dtls1_bitmap_record_def kWindowSize_def Let_def flip: s_def m_def)
    have "bit (window (dtls1_bitmap_record b seq)) (unat (m - t)) \<longleftrightarrow> t \<in> insert s S"
      if t: "t \<le> m" "m - t < 64" for t
    proof -
      have k: "unat (m - t) < 64" using t by (simp add: word_less_nat_alt)
      have eq: "unat (m - t) = unat (m - s) \<longleftrightarrow> t = s"
      proof
        assume "unat (m - t) = unat (m - s)"
        then have "m - t = m - s" using word_unat_eq_iff by blast
        then have "m - (m - t) = m - (m - s)" by (rule arg_cong)
        then show "t = s" by simp
      qed simp
      show ?thesis
      proof (cases "m - s < 64")
        case True
        then show ?thesis unfolding rec using bits [OF t] one [OF k] eq by (auto simp: bit_or_iff)
      next
        case False
        then have "t \<noteq> s" using t(2) by auto
        then show ?thesis unfolding rec using bits [OF t] False by simp
      qed
    qed
    then show ?thesis using S sm unfolding seen_by_def rec(1) s_def [symmetric] by auto
  qed
qed

section \<open>The shape of a record\<close>

lemma dtls_parse_record_of:
  assumes "length sq = 8"
  shows "dtls_parse_record (CBS_of (ty # v1 # v2 # sq @ l1 # l2 # rest) t) =
    (let n = 256 * unat l1 + unat l2 in
     if length rest < n then (None, CBS_of rest t)
     else (Some (ty, push_bit 8 (ucast v1) OR ucast v2, sq, CBS_of (take n rest) (drop n rest @ t)), CBS_of (drop n rest) t))"
proof -
  have l: "unat (be_word [l1, l2] 0 :: u32) = 256 * unat l1 + unat l2"
    using unat_be_word_u32 [of "[l1, l2]"] by simp
  show ?thesis
    using assms
    by (simp add: dtls_parse_record_def op_bind_def CBS_get_u16_def CBS_get_u16_length_prefixed_def view_simps
        numeral_2_eq_2 u16_word l Let_def)
qed

lemma split_header:
  assumes "13 \<le> length (bs :: bytes)"
  obtains ty v1 v2 sq l1 l2 rest where "bs = ty # v1 # v2 # sq @ l1 # l2 # rest" "length sq = 8"
proof -
  obtain ty v1 v2 r where bs: "bs = ty # v1 # v2 # r" and r: "10 \<le> length r"
    using assms by (cases bs; cases "tl bs"; cases "tl (tl bs)") auto
  obtain l1 l2 rest where d: "drop 8 r = l1 # l2 # rest"
    using r by (cases "drop 8 r"; cases "tl (drop 8 r)") (auto simp: drop_eq_Nil2 dest: arg_cong [of _ _ length])
  have "r = take 8 r @ l1 # l2 # rest" using append_take_drop_id [of 8 r] d by simp
  then show thesis using that [of ty v1 v2 "take 8 r" l1 l2 rest] bs r by simp
qed

lemma dtls_parse_short:
  assumes "length bs < 13"
  shows "fst (dtls_parse_record (CBS_of bs t)) = None"
proof (cases bs)
  case Nil
  then show ?thesis by (simp add: dtls_parse_record_def op_bind_def view_simps)
next
  case (Cons b r)
  then have "length r < 12" using assms by simp
  then show ?thesis
    unfolding Cons
    by (auto simp: dtls_parse_record_def op_bind_def CBS_get_u16_def CBS_get_u16_length_prefixed_def view_simps
        split: prod.splits)
qed

text \<open>What is known of a parsed record.\<close>

lemma dtls_parse_record_Some:
  assumes "n \<le> length inp" "dtls_parse_record (CBS_init inp n) = (Some (ty, ver, sq, body), cbs)"
  shows "length sq = 8" "13 + CBS_len body + CBS_len cbs = n" "CBS_len body \<le> length (CBS_data body)"
proof -
  have "CBS_init inp n = CBS_of (take n inp) (drop n inp)" using assms(1) by (rule CBS_init_of)
  then have p: "dtls_parse_record (CBS_of (take n inp) (drop n inp)) = (Some (ty, ver, sq, body), cbs)"
    using assms(2) by simp
  then have "13 \<le> length (take n inp)" using dtls_parse_short [of "take n inp" "drop n inp"] by force
  then obtain ty' v1 v2 sq' l1 l2 rest where bs: "take n inp = ty' # v1 # v2 # sq' @ l1 # l2 # rest" "length sq' = 8"
    by (rule split_header)
  have "length (take n inp) = n" using assms(1) by simp
  then have len: "13 + length rest = n" unfolding bs(1) using bs(2) by simp
  show "length sq = 8" "13 + CBS_len body + CBS_len cbs = n" "CBS_len body \<le> length (CBS_data body)"
    using p [unfolded bs(1) dtls_parse_record_of [OF bs(2)]] bs(2) len by (auto simp: Let_def split: if_splits)
qed

text \<open>The epoch of a sequence number is its first two bytes.\<close>

lemma to_u64_be_epoch:
  assumes "length sq = 8"
  shows "unat (drop_bit 48 (to_u64_be sq)) = unat (push_bit 8 (ucast (sq ! 0)) OR ucast (sq ! 1) :: u16)"
proof -
  obtain a b r where sq: "sq = a # b # r" and r: "length r = 6"
    using assms by (cases sq; cases "tl sq") auto
  have "be_nat 0 sq < 256 ^ 8" by (rule be_nat_zero_bound) (simp add: assms)
  then have "unat (to_u64_be sq) = be_nat 0 sq"
    using assms by (simp add: to_u64_be_def unat_be_word)
  also have "\<dots> = (256 * unat a + unat b) * 256 ^ 6 + be_nat 0 r"
    unfolding sq using be_nat_acc [of "256 * unat a + unat b" r] r by simp
  finally have "unat (to_u64_be sq) div 2 ^ 48 = 256 * unat a + unat b"
    using be_nat_bound [of r] r by simp
  then have "unat (drop_bit 48 (to_u64_be sq)) = 256 * unat a + unat b"
    unfolding unat_drop_bit_eq by (simp only: drop_bit_eq_div)
  moreover have "unat (push_bit 8 (ucast a) OR ucast b :: u16) = 256 * unat a + unat b"
    using unat_shift_or_byte [of "ucast a :: u16" b] unat_u8_less [of a] unat_u8_less [of b] by (simp add: unat_ucast_u8)
  ultimately show ?thesis by (simp add: sq)
qed

section \<open>Runs of the receiver\<close>

text \<open>The records that \<open>dtls_open_record\<close> hands to the layer above: application and handshake data, and
  the alerts that end the connection.\<close>

definition delivers :: "open_record \<Rightarrow> bool" where
  "delivers r \<longleftrightarrow> r \<in> {ssl_open_record_success, ssl_open_record_close_notify, ssl_open_record_fatal_alert}"

text \<open>The sequence number in the header of a packet.\<close>

definition header_seq :: "bytes \<Rightarrow> u64" where
  "header_seq inp =
     (case dtls_parse_record (CBS_init inp (length inp)) of
        (Some (ty, ver, sq, body), cbs) \<Rightarrow> to_u64_be sq
      | (None, cbs) \<Rightarrow> 0)"

text \<open>Either the bitmap is left alone and nothing is delivered, or the record was in the read epoch and not
  seen, and is now recorded.\<close>

lemma dtls_open_record_bitmap:
  assumes "n \<le> length inp" "dtls_open_record evp s inp n = (r, s')"
  shows "r_epoch s' = r_epoch s \<and>
    (bitmap s' = bitmap s \<and> \<not> delivers (result r) \<or>
     (\<exists>ty ver sq body cbs. dtls_parse_record (CBS_init inp n) = (Some (ty, ver, sq, body), cbs) \<and> length sq = 8 \<and>
        push_bit 8 (ucast (sq ! 0)) OR ucast (sq ! 1) = r_epoch s \<and> \<not> dtls1_bitmap_should_discard (bitmap s) sq \<and>
        bitmap s' = dtls1_bitmap_record (bitmap s) sq))"
proof -
  obtain p cbs where parse: "dtls_parse_record (CBS_init inp n) = (p, cbs)" by fastforce
  show ?thesis
  proof (cases p)
    case None
    then show ?thesis using assms(2) parse by (auto simp: dtls_open_record_def dropped_def delivers_def)
  next
    case (Some q)
    obtain ty ver sq body where q: "q = (ty, ver, sq, body)" by (metis prod_cases4)
    note ok = dtls_parse_record_Some [OF assms(1), of ty ver sq body cbs]
    have len: "length sq = 8" using ok(1) parse Some q by simp
    define ep where "ep = (push_bit 8 (ucast (sq ! 0)) OR ucast (sq ! 1) :: u16)"
    define bad where "bad \<longleftrightarrow> have_version s \<and> ver \<noteq> version s \<or> drop_bit 8 ver \<noteq> DTLS1_VERSION_MAJOR \<or>
             CBS_len body > SSL3_RT_MAX_ENCRYPTED_LENGTH"
    define done_len where "done_len = n - CBS_len cbs"
    have run: "dtls_open_record evp s inp n =
        (if bad then (dropped n, s)
         else if ep \<noteq> r_epoch s \<or> dtls1_bitmap_should_discard (bitmap s) sq then (dropped done_len, s)
         else case SSL_AEAD_CTX_open evp (aead_read_ctx s) ty ver sq (take (CBS_len body) (CBS_data body)) of
             None \<Rightarrow> (dropped done_len, s)
           | Some plain \<Rightarrow>
               if length plain > SSL3_RT_MAX_PLAIN_LENGTH then
                 ((dropped done_len)\<lparr>result := ssl_open_record_error, out_alert := Some SSL_AD_RECORD_OVERFLOW\<rparr>, s)
               else if ty = SSL3_RT_ALERT then
                 (case ssl_process_alert (s\<lparr>bitmap := dtls1_bitmap_record (bitmap s) sq\<rparr>) plain of ((r, a), s2) \<Rightarrow>
                    ((dropped done_len)\<lparr>result := r, out_alert := a\<rparr>, s2))
               else
                 (\<lparr>result = ssl_open_record_success, consumed = done_len, out_type = ty, out = plain, out_alert = None\<rparr>,
                  s\<lparr>bitmap := dtls1_bitmap_record (bitmap s) sq, warning_alert_count := 0\<rparr>))"
      unfolding dtls_open_record_def parse Some q prod.case option.case bad_def ep_def done_len_def Let_def
      by (rule refl)
    note step = assms(2) [unfolded run]
    show ?thesis
    proof (cases bad)
      case True
      show ?thesis using step unfolding if_P [OF True] by (auto simp: dropped_def delivers_def)
    next
      case good: False
      note step = step [unfolded if_not_P [OF good]]
      show ?thesis
      proof (cases "ep \<noteq> r_epoch s \<or> dtls1_bitmap_should_discard (bitmap s) sq")
        case True
        show ?thesis using step unfolding if_P [OF True] by (auto simp: dropped_def delivers_def)
      next
        case fresh: False
        note step = step [unfolded if_not_P [OF fresh]]
        show ?thesis
        proof (cases "SSL_AEAD_CTX_open evp (aead_read_ctx s) ty ver sq (take (CBS_len body) (CBS_data body))")
          case None
          show ?thesis using step unfolding None by (auto simp: dropped_def delivers_def)
        next
          case (Some plain)
          note step = step [unfolded Some option.case]
          show ?thesis
          proof (cases "length plain > SSL3_RT_MAX_PLAIN_LENGTH")
            case True
            show ?thesis using step unfolding if_P [OF True] by (auto simp: dropped_def delivers_def)
          next
            case False
            note step = step [unfolded if_not_P [OF False]]
            obtain r0 a0 s2 where alert: "ssl_process_alert (s\<lparr>bitmap := dtls1_bitmap_record (bitmap s) sq\<rparr>) plain = ((r0, a0), s2)"
              by (metis prod.collapse)
            have "r_epoch s' = r_epoch s \<and> bitmap s' = dtls1_bitmap_record (bitmap s) sq"
              using step [unfolded alert prod.case] ssl_process_alert_keeps [OF alert] by (cases "ty = SSL3_RT_ALERT") auto
            then show ?thesis using parse \<open>p = Some q\<close> q len fresh by (auto simp: ep_def)
          qed
        qed
      qed
    qed
  qed
qed

text \<open>What happens to a receiver: packets arrive, and the handshake changes the cipher, which begins a
  new epoch. The sequence numbers of the delivered records are collected, the latest first.\<close>

datatype 'k event = Packet bytes | Cipher "'k SSL_AEAD_CTX option"

fun receive_event :: "'k evp \<Rightarrow> 'k event \<Rightarrow> u64 list \<times> 'k ssl \<Rightarrow> u64 list \<times> 'k ssl" where
  "receive_event evp (Packet inp) (ds, s) =
     (case dtls_open_record evp s inp (length inp) of
        (r, s') \<Rightarrow> (if delivers (result r) then header_seq inp # ds else ds, s'))"
| "receive_event evp (Cipher aead) (ds, s) = (ds, snd (dtls1_set_read_state s aead))"

definition receive :: "'k evp \<Rightarrow> 'k event list \<Rightarrow> u64 list \<times> 'k ssl \<Rightarrow> u64 list \<times> 'k ssl" where
  "receive evp evs = fold (receive_event evp) evs"

definition epoch_of :: "u64 \<Rightarrow> nat" where
  "epoch_of s = unat (drop_bit 48 s)"

text \<open>The invariant: what was delivered is of an earlier epoch or in the set of the window, whose numbers
  are of the current one.\<close>

definition no_replay :: "u64 list \<times> 'k ssl \<Rightarrow> bool" where
  "no_replay = (\<lambda>(ds, s). distinct ds \<and>
     (\<exists>S. seen_by (bitmap s) S \<and> (\<forall>d\<in>S. epoch_of d = unat (r_epoch s)) \<and>
       (\<forall>d\<in>set ds. epoch_of d < unat (r_epoch s) \<or> d \<in> S)))"

lemma no_replay_packet:
  assumes "no_replay (ds, s)" "receive_event evp (Packet inp) (ds, s) = (ds', s')"
  shows "no_replay (ds', s') \<and> r_epoch s' = r_epoch s"
proof -
  obtain r where o: "dtls_open_record evp s inp (length inp) = (r, s')"
    and ds': "ds' = (if delivers (result r) then header_seq inp # ds else ds)"
    using assms(2) by (auto split: prod.splits)
  obtain S where S: "seen_by (bitmap s) S" "\<forall>d\<in>S. epoch_of d = unat (r_epoch s)"
    "\<forall>d\<in>set ds. epoch_of d < unat (r_epoch s) \<or> d \<in> S" and dist: "distinct ds"
    using assms(1) by (auto simp: no_replay_def)
  have ep: "r_epoch s' = r_epoch s"
    using dtls_open_record_bitmap [OF order.refl o] by blast
  consider (kept) "bitmap s' = bitmap s" "\<not> delivers (result r)"
    | (fresh) ty ver sq body cbs where "dtls_parse_record (CBS_init inp (length inp)) = (Some (ty, ver, sq, body), cbs)"
        "length sq = 8" "push_bit 8 (ucast (sq ! 0)) OR ucast (sq ! 1) = r_epoch s"
        "\<not> dtls1_bitmap_should_discard (bitmap s) sq" "bitmap s' = dtls1_bitmap_record (bitmap s) sq"
    using dtls_open_record_bitmap [OF order.refl o] by blast
  then show ?thesis
  proof cases
    case kept
    then show ?thesis using assms(1) ds' ep by (simp add: no_replay_def)
  next
    case fresh
    define d where "d = to_u64_be sq"
    have hd: "header_seq inp = d" by (simp add: header_seq_def fresh(1) d_def)
    have d: "epoch_of d = unat (r_epoch s)"
      unfolding epoch_of_def d_def to_u64_be_epoch [OF fresh(2)] fresh(3) ..
    have "d \<notin> S"
    proof
      assume "d \<in> S"
      then have "d \<le> max_seq_num (bitmap s)" using S(1) by (simp add: seen_by_def)
      then show False using fresh(4) \<open>d \<in> S\<close> unfolding should_discard_iff [OF S(1)] d_def by blast
    qed
    then have "d \<notin> set ds" using S(3) d by auto
    moreover have "seen_by (bitmap s') (insert d S)"
      unfolding fresh(5) d_def by (rule seen_by_record [OF S(1)])
    ultimately have "no_replay (ds', s')"
      using dist S(2,3) d ds' hd ep unfolding no_replay_def by (auto intro!: exI [of _ "insert d S"])
    then show ?thesis using ep by blast
  qed
qed

lemma no_replay_cipher:
  assumes "no_replay (ds, s)" "receive_event evp (Cipher aead) (ds, s) = (ds', s')" "unat (r_epoch s) + 1 < 2 ^ 16"
  shows "no_replay (ds', s') \<and> unat (r_epoch s') \<le> unat (r_epoch s) + 1"
proof (cases "incoming s")
  case True
  then show ?thesis using assms(1,2) by (simp add: dtls1_set_read_state_def)
next
  case False
  then have s': "bitmap s' = \<lparr>window = 0, max_seq_num = 0\<rparr>" "r_epoch s' = r_epoch s + 1" "ds' = ds"
    using assms(2) by (auto simp: dtls1_set_read_state_def)
  have ep: "unat (r_epoch s') = unat (r_epoch s) + 1"
    unfolding s'(2) using assms(3) by (simp add: unat_plus_simple [THEN iffD1] unat_word_ariths)
  have "epoch_of d < unat (r_epoch s')" if "d \<in> set ds" for d
    using assms(1) that ep by (fastforce simp: no_replay_def)
  then show ?thesis
    using assms(1) s' ep seen_by_empty by (auto simp: no_replay_def)
qed

definition ciphers :: "'k event list \<Rightarrow> nat" where
  "ciphers evs = length (filter (\<lambda>ev. case ev of Cipher a \<Rightarrow> True | Packet p \<Rightarrow> False) evs)"

lemma receive_no_replay:
  "no_replay (ds, s) \<Longrightarrow> unat (r_epoch s) + ciphers evs < 2 ^ 16 \<Longrightarrow> no_replay (receive evp evs (ds, s))"
proof (induction evs arbitrary: ds s)
  case Nil
  then show ?case by (simp add: receive_def)
next
  case (Cons ev evs)
  obtain ds' s' where step: "receive_event evp ev (ds, s) = (ds', s')" by fastforce
  have "no_replay (ds', s') \<and> unat (r_epoch s') + ciphers evs < 2 ^ 16"
  proof (cases ev)
    case (Packet p)
    then show ?thesis using no_replay_packet [OF Cons.prems(1)] step Cons.prems(2) by (simp add: ciphers_def)
  next
    case (Cipher a)
    then have "unat (r_epoch s) + 1 + ciphers evs < 2 ^ 16" using Cons.prems(2) by (simp add: ciphers_def)
    then have "no_replay (ds', s') \<and> unat (r_epoch s') \<le> unat (r_epoch s) + 1"
      using no_replay_cipher [OF Cons.prems(1) step [unfolded Cipher]] by simp
    then show ?thesis using \<open>unat (r_epoch s) + 1 + ciphers evs < 2 ^ 16\<close> by linarith
  qed
  then show ?case using Cons.IH [of ds' s'] step by (simp add: receive_def)
qed

section \<open>What the sender writes\<close>

text \<open>The epoch, sequence counter and cipher that \<open>dtls_seal_record\<close> uses.\<close>

definition seal_epoch :: "'k ssl \<Rightarrow> dtls1_use_epoch_t \<Rightarrow> u16" where
  "seal_epoch s use_epoch = (if use_epoch = dtls1_use_previous_epoch then w_epoch s - 1 else w_epoch s)"

definition seal_seq :: "'k ssl \<Rightarrow> dtls1_use_epoch_t \<Rightarrow> bytes" where
  "seal_seq s use_epoch = (if use_epoch = dtls1_use_previous_epoch then last_write_sequence s else write_sequence s)"

definition wire_version :: "'k ssl \<Rightarrow> u16" where
  "wire_version s = (if have_version s then version s else DTLS1_VERSION)"

definition seal_number :: "'k ssl \<Rightarrow> dtls1_use_epoch_t \<Rightarrow> bytes" where
  "seal_number s use_epoch =
     [ucast (drop_bit 8 (seal_epoch s use_epoch)), ucast (seal_epoch s use_epoch)] @ take 6 (drop 2 (seal_seq s use_epoch))"

lemma dtls_seal_record_Some:
  assumes "dtls_seal_record evp rand s out_p max_out ty in_p inp ue = (Some rec, s')" "length (seal_seq s ue) = 8"
  obtains c q where
    "SSL_AEAD_CTX_seal evp rand (get_write_aead s ue) (out_p + 13) (max_out - 13) ty (wire_version s) (seal_number s ue) in_p inp = Some c"
    "rec = ty # ucast (drop_bit 8 (wire_version s)) # ucast (wire_version s) # seal_number s ue @
       of_nat (length c div 256) # of_nat (length c) # c"
    "length c < 2 ^ 16"
    "sequence_inc (drop 2 (seal_seq s ue)) = (True, q)"
    "s' = (if ue = dtls1_use_previous_epoch then s\<lparr>last_write_sequence := take 2 (seal_seq s ue) @ q\<rparr>
           else s\<lparr>write_sequence := take 2 (seal_seq s ue) @ q\<rparr>)"
proof -
  define aliased where "aliased \<longleftrightarrow> buffers_alias in_p (length inp) out_p max_out \<and>
     (max_out < dtls_seal_prefix_len s ue \<or> out_p + dtls_seal_prefix_len s ue \<noteq> in_p)"
  define sealed where "sealed = SSL_AEAD_CTX_seal evp rand (get_write_aead s ue) (out_p + 13) (max_out - 13) ty
     (wire_version s) (seal_number s ue) in_p inp"
  obtain ok q where q: "sequence_inc (drop 2 (seal_seq s ue)) = (ok, q)" by fastforce
  have upd: "ssl_record_sequence_update (drop 2 (seal_seq s ue)) 6 = (ok, q)"
    using q assms(2) by (simp add: ssl_record_sequence_update_def)
  define s1 where "s1 = (if ue = dtls1_use_previous_epoch then s\<lparr>last_write_sequence := take 2 (seal_seq s ue) @ q\<rparr>
           else s\<lparr>write_sequence := take 2 (seal_seq s ue) @ q\<rparr>)"
  have "dtls_seal_record evp rand s out_p max_out ty in_p inp ue =
    (if aliased then (None, s) else if max_out < 13 then (None, s)
     else case sealed of None \<Rightarrow> (None, s)
       | Some c \<Rightarrow> if \<not> ok then (None, s1) else if length c \<ge> 2 ^ 16 then (None, s1)
           else (Some (ty # ucast (drop_bit 8 (wire_version s)) # ucast (wire_version s) # seal_number s ue @
                  of_nat (length c div 256) # of_nat (length c) # c), s1))"
    using upd
    by (cases ue) (simp_all add: dtls_seal_record_def Let_def aliased_def sealed_def seal_number_def seal_epoch_def
      DTLS1_RT_HEADER_LENGTH_def get_write_aead_def s1_def seal_seq_def flip: wire_version_def cong: if_cong option.case_cong)
  then have run: "(if aliased then (None, s) else if max_out < 13 then (None, s)
     else case sealed of None \<Rightarrow> (None, s)
       | Some c \<Rightarrow> if \<not> ok then (None, s1) else if length c \<ge> 2 ^ 16 then (None, s1)
           else (Some (ty # ucast (drop_bit 8 (wire_version s)) # ucast (wire_version s) # seal_number s ue @
                  of_nat (length c div 256) # of_nat (length c) # c), s1)) = (Some rec, s')"
    using assms(1) by simp
  then obtain c where c: "sealed = Some c" "ok" "length c < 2 ^ 16" "s' = s1"
      "rec = ty # ucast (drop_bit 8 (wire_version s)) # ucast (wire_version s) # seal_number s ue @
                  of_nat (length c div 256) # of_nat (length c) # c"
    by (auto split: if_splits option.splits)
  show thesis using that [of c q] c q unfolding sealed_def s1_def by simp
qed

lemma length_seal_number: "length (seal_seq s ue) = 8 \<Longrightarrow> length (seal_number s ue) = 8"
  by (simp add: seal_number_def)

text \<open>The parser reads back what the sender wrote, with anything after it in the packet.\<close>

lemma dtls_parse_sealed:
  assumes "length sq = 8" "length c < 2 ^ 16"
  shows "dtls_parse_record (CBS_init ((ty # ucast (drop_bit 8 v) # ucast (v :: u16) # sq @
       of_nat (length c div 256) # of_nat (length c) # c) @ beyond) (13 + length c + length beyond)) =
     (Some (ty, v, sq, CBS_of c beyond), CBS_of beyond [])"
proof -
  have "CBS_init ((ty # ucast (drop_bit 8 v) # ucast v # sq @ of_nat (length c div 256) # of_nat (length c) # c) @ beyond) (13 + length c + length beyond) =
    CBS_of (ty # ucast (drop_bit 8 v) # ucast v # sq @ of_nat (length c div 256) # of_nat (length c) # (c @ beyond)) []"
    using CBS_init_of [of "13 + length c + length beyond"
      "(ty # ucast (drop_bit 8 v) # ucast v # sq @ of_nat (length c div 256) # of_nat (length c) # c) @ beyond"] assms(1)
    by simp
  then show ?thesis
    using u16_length [OF assms(2)] by (simp only: dtls_parse_record_of [OF assms(1)] Let_def) (simp add: u16_bytes)
qed

text \<open>A record that the sender writes in the current epoch, at a receiver with the same version, epoch and
  cipher, that has not seen its number.\<close>

lemma dtls_open_sealed:
  assumes "dtls_seal_record evp rand s out_p max_out ty in_p inp dtls1_use_current_epoch = (Some rec, s')"
    "length (write_sequence s) = 8" "\<forall>a. aead_write_ctx s = Some a \<longrightarrow> aead_ok evp a" "\<forall>n v. rand n = Some v \<longrightarrow> length v = n"
    "aead_read_ctx r = aead_write_ctx s" "r_epoch r = w_epoch s"
    "have_version r \<longrightarrow> version r = wire_version s" "drop_bit 8 (wire_version s) = DTLS1_VERSION_MAJOR"
    "length inp \<le> SSL3_RT_MAX_PLAIN_LENGTH" "SSL_AEAD_CTX_max_overhead evp (aead_write_ctx s) \<le> 320"
    "\<not> dtls1_bitmap_should_discard (bitmap r) (seal_number s dtls1_use_current_epoch)" "ty \<noteq> SSL3_RT_ALERT"
  shows "dtls_open_record evp r (rec @ beyond) (length (rec @ beyond)) =
    (\<lparr>result = ssl_open_record_success, consumed = length rec, out_type = ty, out = inp, out_alert = None\<rparr>,
     r\<lparr>bitmap := dtls1_bitmap_record (bitmap r) (seal_number s dtls1_use_current_epoch), warning_alert_count := 0\<rparr>)"
    "header_seq (rec @ beyond) = to_u64_be (seal_number s dtls1_use_current_epoch)"
proof -
  let ?sq = "seal_number s dtls1_use_current_epoch"
  have l8: "length (seal_seq s dtls1_use_current_epoch) = 8" using assms(2) by (simp add: seal_seq_def)
  obtain c q where c: "SSL_AEAD_CTX_seal evp rand (aead_write_ctx s) (out_p + 13) (max_out - 13) ty (wire_version s) ?sq in_p inp = Some c"
    and rc: "rec = ty # ucast (drop_bit 8 (wire_version s)) # ucast (wire_version s) # ?sq @ of_nat (length c div 256) # of_nat (length c) # c"
    and lc: "length c < 2 ^ 16"
    using dtls_seal_record_Some [OF assms(1) l8] by (auto simp: get_write_aead_def)
  have sq8: "length ?sq = 8" by (rule length_seal_number [OF l8])
  have len: "length (rec @ beyond) = 13 + length c + length beyond" "length rec = 13 + length c" unfolding rc using sq8 by simp_all
  have parse: "dtls_parse_record (CBS_init (rec @ beyond) (length (rec @ beyond))) =
      (Some (ty, wire_version s, ?sq, CBS_of c beyond), CBS_of beyond [])"
    unfolding len(1) unfolding rc by (rule dtls_parse_sealed [OF sq8 lc])
  show "header_seq (rec @ beyond) = to_u64_be ?sq" unfolding header_seq_def parse by simp
  note rt = record_protection.unseal_seal [OF aead_protects [OF assms(3,4)] sq8 c]
  have hd: "?sq ! 0 = ucast (drop_bit 8 (w_epoch s))" "?sq ! 1 = ucast (w_epoch s)"
    by (simp_all add: seal_number_def seal_epoch_def)
  have ep: "push_bit 8 (ucast (?sq ! 0)) OR ucast (?sq ! 1) = w_epoch s"
    unfolding hd by (rule u16_bytes)
  have short: "length c \<le> SSL3_RT_MAX_ENCRYPTED_LENGTH"
    using rt assms(9,10) by (simp add: SSL3_RT_MAX_ENCRYPTED_LENGTH_def SSL3_RT_MAX_PLAIN_LENGTH_def)
  have fine: "\<not> (have_version r \<and> wire_version s \<noteq> version r \<or> drop_bit 8 (wire_version s) \<noteq> DTLS1_VERSION_MAJOR \<or>
      CBS_len (CBS_of c beyond) > SSL3_RT_MAX_ENCRYPTED_LENGTH)"
    using assms(7,8) short by (simp add: view_simps)
  have fresh: "\<not> (w_epoch s \<noteq> r_epoch r \<or> dtls1_bitmap_should_discard (bitmap r) ?sq)" using assms(6,11) by simp
  have opened: "SSL_AEAD_CTX_open evp (aead_read_ctx r) ty (wire_version s) ?sq (take (CBS_len (CBS_of c beyond)) (CBS_data (CBS_of c beyond))) = Some inp"
    using rt assms(5) by (simp add: view_simps)
  have n: "length (rec @ beyond) - CBS_len (CBS_of beyond []) = length rec" by (simp add: view_simps)
  have plain: "\<not> length inp > SSL3_RT_MAX_PLAIN_LENGTH" using assms(9) by simp
  show "dtls_open_record evp r (rec @ beyond) (length (rec @ beyond)) =
    (\<lparr>result = ssl_open_record_success, consumed = length rec, out_type = ty, out = inp, out_alert = None\<rparr>,
     r\<lparr>bitmap := dtls1_bitmap_record (bitmap r) ?sq, warning_alert_count := 0\<rparr>)"
    unfolding dtls_open_record_def parse prod.case option.case if_not_P [OF fine] Let_def ep if_not_P [OF fresh] opened n
      if_not_P [OF plain] if_not_P [OF assms(12)]
    by simp
qed

section \<open>Runs of the sender\<close>

text \<open>A sender seals records and changes its cipher; it stops at the first call that fails, as the
  connection does. The previous epoch may be used only while the current one is 1, which the code asserts.
  The numbers in the headers of the records are collected.\<close>

datatype 'k send_event = Seal dtls1_use_epoch_t nat nat u8 nat bytes | New_write "'k SSL_AEAD_CTX option"

fun send_allowed :: "'k ssl \<Rightarrow> 'k send_event \<Rightarrow> bool" where
  "send_allowed s (Seal use_epoch out_p max_out ty in_p inp) \<longleftrightarrow> (use_epoch = dtls1_use_previous_epoch \<longrightarrow> w_epoch s = 1)"
| "send_allowed s (New_write aead) \<longleftrightarrow> w_epoch s \<noteq> - 1"

fun send_run :: "'k evp \<Rightarrow> (nat \<Rightarrow> bytes option) \<Rightarrow> 'k send_event list \<Rightarrow> 'k ssl \<Rightarrow> u64 list" where
  "send_run evp rand [] s = []"
| "send_run evp rand (ev # evs) s =
     (if \<not> send_allowed s ev then []
      else case ev of
        New_write aead \<Rightarrow> send_run evp rand evs (snd (dtls1_set_write_state s aead))
      | Seal use_epoch out_p max_out ty in_p inp \<Rightarrow>
          (case dtls_seal_record evp rand s out_p max_out ty in_p inp use_epoch of
             (None, s') \<Rightarrow> []
           | (Some rec, s') \<Rightarrow> header_seq rec # send_run evp rand evs s'))"

definition counter_of :: "u64 \<Rightarrow> nat" where
  "counter_of n = unat n mod 2 ^ 48"

text \<open>Numbers that a sender in this state may still use.\<close>

definition unused :: "'k ssl \<Rightarrow> u64 \<Rightarrow> bool" where
  "unused s n \<longleftrightarrow> epoch_of n > unat (w_epoch s) \<or>
     epoch_of n = unat (w_epoch s) \<and> be_nat 0 (drop 2 (write_sequence s)) \<le> counter_of n \<or>
     w_epoch s = 1 \<and> epoch_of n = 0 \<and> be_nat 0 (drop 2 (last_write_sequence s)) \<le> counter_of n"

definition counters_ok :: "'k ssl \<Rightarrow> bool" where
  "counters_ok s \<longleftrightarrow> length (write_sequence s) = 8 \<and> length (last_write_sequence s) = 8"

lemma seal_number_parts:
  assumes "counters_ok s"
  shows "epoch_of (to_u64_be (seal_number s ue)) = unat (seal_epoch s ue)"
    "counter_of (to_u64_be (seal_number s ue)) = be_nat 0 (drop 2 (seal_seq s ue))"
proof -
  have l8: "length (seal_seq s ue) = 8" using assms by (simp add: counters_ok_def seal_seq_def)
  have sq8: "length (seal_number s ue) = 8" by (rule length_seal_number [OF l8])
  show "epoch_of (to_u64_be (seal_number s ue)) = unat (seal_epoch s ue)"
    unfolding epoch_of_def to_u64_be_epoch [OF sq8] by (simp add: seal_number_def u16_bytes)
  define r where "r = drop 2 (seal_seq s ue)"
  have r: "length r = 6" using l8 by (simp add: r_def)
  have sq: "seal_number s ue = ucast (drop_bit 8 (seal_epoch s ue)) # ucast (seal_epoch s ue) # r"
    using r unfolding r_def by (simp add: seal_number_def)
  define x where "x = 256 * unat (ucast (drop_bit 8 (seal_epoch s ue)) :: u8) + unat (ucast (seal_epoch s ue) :: u8)"
  have "be_nat 0 (seal_number s ue) < 256 ^ 8" by (rule be_nat_zero_bound) (simp add: sq8)
  then have "unat (to_u64_be (seal_number s ue)) = be_nat 0 (seal_number s ue)"
    using sq8 by (simp add: to_u64_be_def unat_be_word)
  also have "\<dots> = x * 256 ^ 6 + be_nat 0 r"
    unfolding sq using be_nat_acc [of x r] r by (simp add: x_def)
  finally show "counter_of (to_u64_be (seal_number s ue)) = be_nat 0 (drop 2 (seal_seq s ue))"
    using be_nat_bound [of r] r unfolding counter_of_def r_def [symmetric] by simp
qed

text \<open>Sealing uses an unused number, and what is unused afterwards was so before and differs from it.\<close>

lemma seal_uses:
  assumes "dtls_seal_record evp rand s out_p max_out ty in_p inp ue = (Some rec, s')" "counters_ok s"
    "ue = dtls1_use_previous_epoch \<longrightarrow> w_epoch s = 1"
  shows "counters_ok s'" "header_seq rec = to_u64_be (seal_number s ue)" "unused s (header_seq rec)"
    "\<not> unused s' (header_seq rec)" "unused s' n \<Longrightarrow> unused s n"
proof -
  have l8: "length (seal_seq s ue) = 8" using assms(2) by (simp add: counters_ok_def seal_seq_def)
  have sq8: "length (seal_number s ue) = 8" by (rule length_seal_number [OF l8])
  obtain c q where rc: "rec = ty # ucast (drop_bit 8 (wire_version s)) # ucast (wire_version s) # seal_number s ue @
       of_nat (length c div 256) # of_nat (length c) # c" and lc: "length c < 2 ^ 16"
    and q: "sequence_inc (drop 2 (seal_seq s ue)) = (True, q)"
    and s': "s' = (if ue = dtls1_use_previous_epoch then s\<lparr>last_write_sequence := take 2 (seal_seq s ue) @ q\<rparr>
           else s\<lparr>write_sequence := take 2 (seal_seq s ue) @ q\<rparr>)"
    using dtls_seal_record_Some [OF assms(1) l8] by blast
  have "length (rec @ []) = 13 + length c + length ([] :: bytes)" unfolding rc using sq8 by simp
  then have len: "length rec = 13 + length c + length ([] :: bytes)" by simp
  have "dtls_parse_record (CBS_init (rec @ []) (13 + length c + length ([] :: bytes))) =
      (Some (ty, wire_version s, seal_number s ue, CBS_of c []), CBS_of [] [])"
    unfolding rc by (rule dtls_parse_sealed [OF sq8 lc])
  then show hd: "header_seq rec = to_u64_be (seal_number s ue)" using len by (simp add: header_seq_def)
  note inc = sequence_inc_nat [OF q]
  have q6: "length q = 6" "be_nat 0 q = be_nat 0 (drop 2 (seal_seq s ue)) + 1" using inc l8 by auto
  show "counters_ok s'" using assms(2) s' q6 l8 by (auto simp: counters_ok_def)
  note parts = seal_number_parts [OF assms(2), of ue]
  have one: "unat (1 :: u16) = 1" by simp
  show "unused s (header_seq rec)" unfolding hd unused_def parts using assms(3) by (cases ue) (simp_all add: seal_epoch_def seal_seq_def)
  have nums: "w_epoch s' = w_epoch s"
    "be_nat 0 (drop 2 (write_sequence s')) = (if ue = dtls1_use_previous_epoch then be_nat 0 (drop 2 (write_sequence s))
       else be_nat 0 (drop 2 (write_sequence s)) + 1)"
    "be_nat 0 (drop 2 (last_write_sequence s')) = (if ue = dtls1_use_previous_epoch then be_nat 0 (drop 2 (last_write_sequence s)) + 1
       else be_nat 0 (drop 2 (last_write_sequence s)))"
    using s' q6 l8 by (auto simp: seal_seq_def split: if_splits)
  show "\<not> unused s' (header_seq rec)"
    unfolding hd unused_def parts nums using assms(3) by (cases ue) (auto simp: seal_epoch_def seal_seq_def)
  show "unused s' n \<Longrightarrow> unused s n" unfolding unused_def nums by (auto split: if_splits)
qed

lemma new_write_uses:
  assumes "counters_ok s" "w_epoch s \<noteq> - 1"
  shows "counters_ok (snd (dtls1_set_write_state s a))" "unused (snd (dtls1_set_write_state s a)) n \<Longrightarrow> unused s n"
proof -
  have e: "unat (w_epoch s + 1) = unat (w_epoch s) + 1"
    using assms(2) by (metis Suc_eq_plus1 add.commute eq_neg_iff_add_eq_0 unatSuc)
  have one: "w_epoch s + 1 = 1 \<longleftrightarrow> unat (w_epoch s) = 0"
    by (metis add_cancel_left_left unat_0_iff unat_eq_zero)
  show "counters_ok (snd (dtls1_set_write_state s a))"
    using assms(1) by (simp add: counters_ok_def dtls1_set_write_state_def)
  show "unused (snd (dtls1_set_write_state s a)) n \<Longrightarrow> unused s n"
    using e one by (auto simp: unused_def dtls1_set_write_state_def)
qed

lemma send_run_unused:
  "counters_ok s \<Longrightarrow> distinct (send_run evp rand evs s) \<and> (\<forall>n\<in>set (send_run evp rand evs s). unused s n)"
proof (induction evs arbitrary: s)
  case (Cons ev evs)
  show ?case
  proof (cases "send_allowed s ev")
    case True
    show ?thesis
    proof (cases ev)
      case (New_write a)
      have e: "w_epoch s \<noteq> - 1" using True New_write by simp
      show ?thesis
        using Cons.IH [OF new_write_uses(1) [OF Cons.prems e, of a]] new_write_uses(2) [OF Cons.prems e, of a] True New_write
        by auto
    next
      case (Seal ue out_p max_out ty in_p inp)
      obtain r s' where r: "dtls_seal_record evp rand s out_p max_out ty in_p inp ue = (r, s')" by fastforce
      show ?thesis
      proof (cases r)
        case None
        then show ?thesis using Seal r True by simp
      next
        case (Some rec)
        have ue: "ue = dtls1_use_previous_epoch \<longrightarrow> w_epoch s = 1" using True Seal by simp
        note use = seal_uses [OF r [unfolded Some] Cons.prems ue]
        have run: "send_run evp rand (ev # evs) s = header_seq rec # send_run evp rand evs s'" using Seal r Some True by simp
        show ?thesis using Cons.IH [OF use(1)] use(3-5) unfolding run by auto
      qed
    qed
  qed simp
qed simp

section \<open>Properties\<close>

text \<open>C34: no replay. Whatever packets arrive, from a peer or an attacker, and whenever the handshake changes
  the cipher, no sequence number is delivered twice: the window of 64 bits never forgets a number it would
  still accept, and a new epoch starts a new window.\<close>

theorem dtls_no_replay:
  assumes "bitmap s = \<lparr>window = 0, max_seq_num = 0\<rparr>" "unat (r_epoch s) + ciphers evs < 2 ^ 16"
  shows "distinct (fst (receive evp evs ([], s)))"
proof -
  have "no_replay ([], s)" using seen_by_empty by (auto simp: no_replay_def assms(1))
  then show ?thesis
    using receive_no_replay [of "[]" s evs evp] assms(2) by (auto simp: no_replay_def split: prod.splits)
qed

text \<open>C35: records survive the wire. A record that \<open>dtls_seal_record\<close> writes is opened by a peer with the
  same version, epoch and cipher that has not seen its number: \<open>dtls_open_record\<close> gives back the type and
  the data, consumes the record and nothing of what follows it in the packet, and records the number.\<close>

theorem dtls_record_roundtrip:
  assumes "dtls_seal_record evp rand s out_p max_out ty in_p inp dtls1_use_current_epoch = (Some rec, s')"
    "length (write_sequence s) = 8" "\<forall>a. aead_write_ctx s = Some a \<longrightarrow> aead_ok evp a" "\<forall>n v. rand n = Some v \<longrightarrow> length v = n"
    "aead_read_ctx r = aead_write_ctx s" "r_epoch r = w_epoch s"
    "have_version r \<longrightarrow> version r = wire_version s" "drop_bit 8 (wire_version s) = DTLS1_VERSION_MAJOR"
    "length inp \<le> SSL3_RT_MAX_PLAIN_LENGTH" "SSL_AEAD_CTX_max_overhead evp (aead_write_ctx s) \<le> 320"
    "\<not> dtls1_bitmap_should_discard (bitmap r) (seal_number s dtls1_use_current_epoch)" "ty \<noteq> SSL3_RT_ALERT"
  shows "dtls_open_record evp r (rec @ beyond) (length (rec @ beyond)) =
    (\<lparr>result = ssl_open_record_success, consumed = length rec, out_type = ty, out = inp, out_alert = None\<rparr>,
     r\<lparr>bitmap := dtls1_bitmap_record (bitmap r) (seal_number s dtls1_use_current_epoch), warning_alert_count := 0\<rparr>)"
  by (rule dtls_open_sealed(1) [OF assms])


text \<open>C37: after a cipher change \<open>SSL_get_read_sequence\<close> cannot be called before the first record of the new
  epoch: its assertion, that the window holds a number of the read epoch, fails, because
  \<open>dtls1_set_read_state\<close> clears the window. \<open>SSL_get_write_sequence\<close> may be called.\<close>

theorem dtls_read_sequence_fails:
  assumes "r_epoch s + 1 \<noteq> 0" "\<not> incoming s"
  shows "dtls1_set_read_state s a = (True, snd (dtls1_set_read_state s a)) \<and>
    SSL_get_read_sequence (snd (dtls1_set_read_state s a)) = None \<and>
    SSL_get_write_sequence (snd (dtls1_set_write_state s a)) = Some (push_bit 48 (ucast (w_epoch s + 1)))"
proof -
  define e where "e = r_epoch s + 1"
  have "unat e < 2 ^ 16" using unsigned_less [of e] by simp
  then have "unat (ucast e :: u64) = unat e" by (simp add: unsigned_ucast_eq take_bit_nat_eq_self)
  moreover have "unat e \<noteq> 0" using assms(1) unfolding e_def [symmetric] by (simp add: unat_eq_0)
  ultimately have "(ucast e :: u64) \<noteq> 0" by fastforce
  then show ?thesis
    using assms(2) unfolding e_def
    by (simp add: dtls1_set_read_state_def dtls1_set_write_state_def SSL_get_read_sequence_def SSL_get_write_sequence_def
        be_to_u64_def Let_def)
qed


section \<open>Concrete runs\<close>

text \<open>An end of a DTLS 1.2 connection in its first encrypted epoch, with the cipher of \<open>SslAead\<close>.\<close>

definition sample_ssl :: "u8 ssl" where
  "sample_ssl = \<lparr>is_dtls = True, version = DTLS1_2_VERSION, have_version = True, r_epoch = 1, w_epoch = 1,
     bitmap = \<lparr>window = 0, max_seq_num = 0\<rparr>, read_sequence = replicate 8 0, write_sequence = replicate 8 0,
     last_write_sequence = [0, 0, 0, 0, 0, 0, 0, 5], warning_alert_count = 0, empty_record_count = 0,
     skip_early_data = False, early_data_skipped = 0, short_header = False, record_splitting = False,
     write_cipher = \<lparr>algorithm_enc = 8, algorithm_mac = 8\<rparr>, recv_shutdown = ssl_shutdown_none,
     aead_read_ctx = Some gcm_ctx, aead_write_ctx = Some gcm_ctx, incoming = False\<rparr>"

definition sample_sealed :: "bytes option" where
  "sample_sealed = fst (dtls_seal_record toy_evp (\<lambda>n. None) sample_ssl 0 100 23 200 [10, 11] dtls1_use_current_epoch)"

definition sample_record :: bytes where
  "sample_record = [23, 254, 253, 0, 1, 0, 0, 0, 0, 0, 0, 0, 26, 0, 1, 0, 0, 0, 0, 0, 0, 13, 12,
     1, 2, 3, 4, 0, 1, 0, 0, 0, 0, 0, 0, 0, 0, 0, 0]"

lemma sample_sealed: "sample_sealed = Some sample_record"
  by code_simp

lemma dtls_no_replay_witness:
  "let ds = fst (receive toy_evp [Packet sample_record, Packet sample_record, Cipher None, Packet sample_record] ([], sample_ssl))
   in ds = [0x0001000000000000] \<and> distinct ds"
proof -
  have "fst (receive toy_evp [Packet sample_record, Packet sample_record, Cipher None, Packet sample_record] ([], sample_ssl)) =
      [0x0001000000000000]"
    by code_simp
  moreover have "distinct (fst (receive toy_evp [Packet sample_record, Packet sample_record, Cipher None, Packet sample_record]
      ([], sample_ssl)))"
    by (rule dtls_no_replay) (simp_all add: sample_ssl_def ciphers_def)
  ultimately show ?thesis unfolding Let_def by simp
qed

lemma dtls_record_roundtrip_witness:
  "case sample_sealed of None \<Rightarrow> False
   | Some rec \<Rightarrow> length rec = 39 \<and>
       fst (dtls_open_record toy_evp sample_ssl (rec @ [1, 2, 3]) (length (rec @ [1, 2, 3]))) =
         \<lparr>result = ssl_open_record_success, consumed = 39, out_type = 23, out = [10, 11], out_alert = None\<rparr>"
proof -
  obtain rec s' where r: "dtls_seal_record toy_evp (\<lambda>n. None) sample_ssl 0 100 23 200 [10, 11] dtls1_use_current_epoch = (Some rec, s')"
    and len: "length rec = 39"
  proof -
    have "case dtls_seal_record toy_evp (\<lambda>n. None) sample_ssl 0 100 23 200 [10, 11] dtls1_use_current_epoch of
        (None, s') \<Rightarrow> False | (Some rec, s') \<Rightarrow> length rec = 39" by code_simp
    then show thesis using that by (auto split: prod.splits option.splits)
  qed
  have "dtls_open_record toy_evp sample_ssl (rec @ [1, 2, 3]) (length (rec @ [1, 2, 3])) =
    (\<lparr>result = ssl_open_record_success, consumed = length rec, out_type = 23, out = [10, 11], out_alert = None\<rparr>,
     sample_ssl\<lparr>bitmap := dtls1_bitmap_record (bitmap sample_ssl) (seal_number sample_ssl dtls1_use_current_epoch), warning_alert_count := 0\<rparr>)"
  proof (rule dtls_record_roundtrip [OF r])
    show "\<forall>a. aead_write_ctx sample_ssl = Some a \<longrightarrow> aead_ok toy_evp a" using gcm_ctx_ok by (simp add: sample_ssl_def)
    show "\<not> dtls1_bitmap_should_discard (bitmap sample_ssl) (seal_number sample_ssl dtls1_use_current_epoch)" by code_simp
    show "SSL_AEAD_CTX_max_overhead toy_evp (aead_write_ctx sample_ssl) \<le> 320" by code_simp
    show "drop_bit 8 (wire_version sample_ssl) = DTLS1_VERSION_MAJOR" by code_simp
    show "have_version sample_ssl \<longrightarrow> version sample_ssl = wire_version sample_ssl" by code_simp
  qed (simp_all add: sample_ssl_def SSL3_RT_MAX_PLAIN_LENGTH_def SSL3_RT_ALERT_def)
  then show ?thesis using r len by (simp add: sample_sealed_def)
qed


lemma dtls_read_sequence_fails_witness:
  "SSL_get_read_sequence (snd (dtls1_set_read_state sample_ssl None)) = None"
  using dtls_read_sequence_fails [of sample_ssl None] by (simp add: sample_ssl_def)

end
