(* ===== verification/TlsRecord.thy ===== *)
theory TlsRecord
  imports SslState DtlsRecord
begin

text \<open>
  The TLS record layer: \<open>ssl/tls_record.c\<close>. Records are opened with the header of five bytes or the short
  header of two, the type is hidden in the ciphertext from TLS 1.3 on, and application data of more than a
  byte is split in two records for block ciphers before TLS 1.1. The state is that of \<open>SslState\<close>, the AEAD
  the parameter \<open>evp\<close> of \<open>SslAead\<close>, and a view what remains of the packet.
\<close>

section \<open>Header lengths\<close>

definition kMaxEmptyRecords :: u8 where
  "kMaxEmptyRecords = 32"

definition kMaxEarlyDataSkipped :: nat where
  "kMaxEarlyDataSkipped = 16384"

definition ssl_needs_record_splitting :: "'k ssl \<Rightarrow> bool" where
  "ssl_needs_record_splitting ssl \<longleftrightarrow>
     aead_write_ctx ssl \<noteq> None \<and> ssl3_protocol_version ssl < TLS1_1_VERSION \<and> record_splitting ssl \<and>
     SSL_CIPHER_is_block_cipher (write_cipher ssl)"

datatype evp_aead_direction_t = evp_aead_open | evp_aead_seal

definition ssl_uses_short_header :: "'k ssl \<Rightarrow> evp_aead_direction_t \<Rightarrow> bool" where
  "ssl_uses_short_header ssl dir =
     (if \<not> short_header ssl then False
      else if dir = evp_aead_open then aead_read_ctx ssl \<noteq> None
      else aead_write_ctx ssl \<noteq> None)"

definition ssl_record_prefix_len :: "'k ssl \<Rightarrow> nat" where
  "ssl_record_prefix_len ssl =
     (if is_dtls ssl then DTLS1_RT_HEADER_LENGTH
      else if ssl_uses_short_header ssl evp_aead_open then 2
      else SSL3_RT_HEADER_LENGTH) + SSL_AEAD_CTX_explicit_nonce_len (aead_read_ctx ssl)"

definition ssl_seal_align_prefix_len :: "'k ssl \<Rightarrow> nat" where
  "ssl_seal_align_prefix_len ssl =
     (if is_dtls ssl then DTLS1_RT_HEADER_LENGTH + SSL_AEAD_CTX_explicit_nonce_len (aead_write_ctx ssl)
      else
        let header_len = (if ssl_uses_short_header ssl evp_aead_seal then 2 else SSL3_RT_HEADER_LENGTH);
            ret = header_len + SSL_AEAD_CTX_explicit_nonce_len (aead_write_ctx ssl)
        in if ssl_needs_record_splitting ssl
           then ret + header_len + ssl_cipher_get_record_split_len (write_cipher ssl) else ret)"

text \<open>From TLS 1.3 on, with a cipher, the record type is part of the plaintext.\<close>

definition hides_type :: "'k ssl \<Rightarrow> 'k SSL_AEAD_CTX option \<Rightarrow> bool" where
  "hides_type ssl aead \<longleftrightarrow> have_version ssl \<and> ssl3_protocol_version ssl \<ge> TLS1_3_VERSION \<and> aead \<noteq> None"

definition SSL_max_seal_overhead :: "'k evp \<Rightarrow> 'k ssl \<Rightarrow> nat" where
  "SSL_max_seal_overhead evp ssl =
     (if is_dtls ssl then dtls_max_seal_overhead evp ssl dtls1_use_current_epoch
      else
        let ret = (if ssl_uses_short_header ssl evp_aead_seal then 2 else SSL3_RT_HEADER_LENGTH) +
                  SSL_AEAD_CTX_max_overhead evp (aead_write_ctx ssl);
            ret1 = (if have_version ssl \<and> ssl3_protocol_version ssl \<ge> TLS1_3_VERSION then ret + 1 else ret)
        in if ssl_needs_record_splitting ssl then ret1 * 2 else ret1)"

section \<open>Opening records\<close>

text \<open>The header: type, version, ciphertext length and header length. \<open>Inl\<close> is the early return with its
  \<open>*out_consumed\<close> and alert.\<close>

definition tls_parse_header :: "'k ssl \<Rightarrow> (CBS, (open_record \<times> nat \<times> u8 option) + (u8 \<times> u16 \<times> u16 \<times> nat)) op" where
  "tls_parse_header ssl cbs =
     (if ssl_uses_short_header ssl evp_aead_open then
        (case CBS_get_u16 cbs of
           (None, cbs1) \<Rightarrow> (Some (Inl (ssl_open_record_partial, 2, None)), cbs1)
         | (Some n, cbs1) \<Rightarrow>
             if n AND 0x8000 = 0 then (Some (Inl (ssl_open_record_error, 0, Some SSL_AD_DECODE_ERROR)), cbs1)
             else (Some (Inr (SSL3_RT_APPLICATION_DATA, TLS1_VERSION, n AND 0x7fff, 2)), cbs1))
      else
        (case op_bind CBS_get_u8 (\<lambda>type. op_bind CBS_get_u16 (\<lambda>ver. op_bind CBS_get_u16 (\<lambda>n.
                op_ret (type, ver, n, SSL3_RT_HEADER_LENGTH)))) cbs of
           (None, cbs1) \<Rightarrow> (Some (Inl (ssl_open_record_partial, SSL3_RT_HEADER_LENGTH, None)), cbs1)
         | (Some h, cbs1) \<Rightarrow> (Some (Inr h), cbs1)))"

definition tls_version_ok :: "'k ssl \<Rightarrow> u16 \<Rightarrow> bool" where
  "tls_version_ok ssl ver \<longleftrightarrow>
     (if aead_read_ctx ssl = None then drop_bit 8 ver = SSL3_VERSION_MAJOR
      else if ssl3_protocol_version ssl < TLS1_3_VERSION then ver = version ssl
      else ver = TLS1_VERSION)"

text \<open>\<open>goto skipped_data\<close>: \<open>early_data_skipped\<close> has 16 bits.\<close>

definition skip_data :: "'k ssl \<Rightarrow> nat \<Rightarrow> opened \<times> 'k ssl" where
  "skip_data ssl n =
     (let sum = early_data_skipped ssl + of_nat n;
          sum1 = (if unat sum < n then of_nat (kMaxEarlyDataSkipped + 1) else sum);
          ssl1 = ssl\<lparr>early_data_skipped := sum1\<rparr>
      in if unat sum1 > kMaxEarlyDataSkipped
         then ((dropped n)\<lparr>result := ssl_open_record_error, out_alert := Some SSL_AD_UNEXPECTED_MESSAGE\<rparr>, ssl1)
         else (dropped n, ssl1))"

text \<open>The loop that strips the zeros and the type from the end of a TLS 1.3 plaintext.\<close>

function strip_type :: "bytes \<Rightarrow> (u8 \<times> bytes) option" where
  "strip_type bs =
     (if bs = [] then None
      else if last bs = 0 then strip_type (butlast bs)
      else Some (last bs, butlast bs))"
  by pat_completeness auto
termination by (relation "measure length") auto

declare strip_type.simps [simp del]

text \<open>What follows the decryption: the type, the limits, alerts.\<close>

definition tls_accept :: "'k ssl \<Rightarrow> u8 \<Rightarrow> bytes \<Rightarrow> nat \<Rightarrow> opened \<times> 'k ssl" where
  "tls_accept ssl type plain n =
     (let fail = (\<lambda>s a. ((dropped n)\<lparr>result := ssl_open_record_error, out_alert := Some a\<rparr>, s)) in
      if length plain > SSL3_RT_MAX_PLAIN_LENGTH then fail ssl SSL_AD_RECORD_OVERFLOW
      else
        let ssl1 = ssl\<lparr>empty_record_count := (if plain = [] then empty_record_count ssl + 1 else 0)\<rparr> in
        if plain = [] \<and> empty_record_count ssl1 > kMaxEmptyRecords then fail ssl1 SSL_AD_UNEXPECTED_MESSAGE
        else if type = SSL3_RT_ALERT then
          (case ssl_process_alert ssl1 plain of ((r, a), ssl2) \<Rightarrow> ((dropped n)\<lparr>result := r, out_alert := a\<rparr>, ssl2))
        else
          (\<lparr>result = ssl_open_record_success, consumed = n, out_type = type, out = plain, out_alert = None\<rparr>,
           ssl1\<lparr>warning_alert_count := 0\<rparr>))"

definition tls_decrypted :: "'k ssl \<Rightarrow> u8 \<Rightarrow> bytes \<Rightarrow> nat \<Rightarrow> opened \<times> 'k ssl" where
  "tls_decrypted ssl0 type plain n =
     (let fail = (\<lambda>s a. ((dropped n)\<lparr>result := ssl_open_record_error, out_alert := Some a\<rparr>, s)) in
      case ssl_record_sequence_update (read_sequence ssl0) 8 of
        (ok, seq) \<Rightarrow>
          let ssl = ssl0\<lparr>skip_early_data := False, read_sequence := seq\<rparr> in
          if \<not> ok then fail ssl SSL_AD_INTERNAL_ERROR
          else if hides_type ssl (aead_read_ctx ssl) then
            (if type \<noteq> SSL3_RT_APPLICATION_DATA then fail ssl SSL_AD_DECODE_ERROR
             else (case strip_type plain of
                     None \<Rightarrow> fail ssl SSL_AD_DECRYPT_ERROR
                   | Some (type', plain') \<Rightarrow> tls_accept ssl type' plain' n))
          else tls_accept ssl type plain n)"

definition tls_open_record :: "'k evp \<Rightarrow> 'k ssl \<Rightarrow> bytes \<Rightarrow> nat \<Rightarrow> opened \<times> 'k ssl" where
  "tls_open_record evp ssl inp in_len =
     (let fail = (\<lambda>n a. ((dropped n)\<lparr>result := ssl_open_record_error, out_alert := Some a\<rparr>, ssl)) in
      case tls_parse_header ssl (CBS_init inp in_len) of
        (None, cbs) \<Rightarrow> (dropped 0, ssl)
      | (Some (Inl (r, n, a)), cbs) \<Rightarrow> ((dropped n)\<lparr>result := r, out_alert := a\<rparr>, ssl)
      | (Some (Inr (type, ver, ciphertext_len, header_len)), cbs) \<Rightarrow>
          if \<not> tls_version_ok ssl ver then fail 0 SSL_AD_PROTOCOL_VERSION
          else if unat ciphertext_len > SSL3_RT_MAX_ENCRYPTED_LENGTH then fail 0 SSL_AD_RECORD_OVERFLOW
          else
            (case CBS_get_bytes (unat ciphertext_len) cbs of
               (None, cbs1) \<Rightarrow> ((dropped (header_len + unat ciphertext_len))\<lparr>result := ssl_open_record_partial\<rparr>, ssl)
             | (Some body, cbs1) \<Rightarrow>
                 let n = in_len - CBS_len cbs1 in
                 if skip_early_data ssl \<and> aead_read_ctx ssl = None \<and> type = SSL3_RT_APPLICATION_DATA then skip_data ssl n
                 else
                   (case SSL_AEAD_CTX_open evp (aead_read_ctx ssl) type ver (read_sequence ssl)
                           (take (CBS_len body) (CBS_data body)) of
                      None \<Rightarrow>
                        if skip_early_data ssl \<and> aead_read_ctx ssl \<noteq> None then skip_data ssl n
                        else fail n SSL_AD_BAD_RECORD_MAC
                    | Some plain \<Rightarrow> tls_decrypted ssl type plain n)))"

section \<open>Sealing records\<close>

text \<open>\<open>in_p\<close> and \<open>out_p\<close> are the addresses of the buffers. In TLS 1.3 the data and its type are first
  copied to where the ciphertext will be.\<close>

definition do_seal_record ::
  "'k evp \<Rightarrow> (nat \<Rightarrow> bytes option) \<Rightarrow> 'k ssl \<Rightarrow> nat \<Rightarrow> nat \<Rightarrow> u8 \<Rightarrow> nat \<Rightarrow> bytes \<Rightarrow> bytes option \<times> 'k ssl"
where
  "do_seal_record evp rand ssl out_p max_out type in_p inp =
     (let short_hdr = ssl_uses_short_header ssl evp_aead_seal;
          header_len = (if short_hdr then 2 else SSL3_RT_HEADER_LENGTH);
          hide = hides_type ssl (aead_write_ctx ssl)
      in if hide \<and> (size_add (size_add (length inp) header_len) 1 < length inp \<or>
                    max_out < size_add (size_add (length inp) header_len) 1) then (None, ssl)
         else
           let in_p1 = (if hide then out_p + header_len else in_p);
               inp1 = (if hide then inp @ [type] else inp);
               type1 = (if hide then SSL3_RT_APPLICATION_DATA else type)
           in if max_out < header_len then (None, ssl)
              else
                let wire_version =
                      (if version ssl = SSL3_VERSION \<or> have_version ssl \<and> ssl3_protocol_version ssl < TLS1_3_VERSION
                       then version ssl else TLS1_VERSION);
                    hdr = (if short_hdr then []
                           else [type1, ucast (drop_bit 8 wire_version), ucast wire_version])
                in (case SSL_AEAD_CTX_seal evp rand (aead_write_ctx ssl) (out_p + length hdr + 2)
                           (max_out - length hdr - 2) type1 wire_version (write_sequence ssl) in_p1 inp1 of
                      None \<Rightarrow> (None, ssl)
                    | Some c \<Rightarrow>
                        (case ssl_record_sequence_update (write_sequence ssl) 8 of
                           (ok, seq) \<Rightarrow>
                             let ssl1 = ssl\<lparr>write_sequence := seq\<rparr> in
                             if \<not> ok then (None, ssl1)
                             else if length c \<ge> 2 ^ 15 then (None, ssl1)
                             else
                               let hi = of_nat (length c div 256) :: u8
                               in (Some (hdr @ [if short_hdr then hi OR 0x80 else hi, of_nat (length c)] @ c), ssl1))))"

definition tls_seal_record ::
  "'k evp \<Rightarrow> (nat \<Rightarrow> bytes option) \<Rightarrow> 'k ssl \<Rightarrow> nat \<Rightarrow> nat \<Rightarrow> u8 \<Rightarrow> nat \<Rightarrow> bytes \<Rightarrow> bytes option \<times> 'k ssl"
where
  "tls_seal_record evp rand ssl out_p max_out type in_p inp =
     (if buffers_alias in_p (length inp) out_p max_out then (None, ssl)
      else if type = SSL3_RT_APPLICATION_DATA \<and> length inp > 1 \<and> ssl_needs_record_splitting ssl then
        (case do_seal_record evp rand ssl out_p max_out type in_p (take 1 inp) of
           (None, ssl1) \<Rightarrow> (None, ssl1)
         | (Some frag, ssl1) \<Rightarrow>
             (case do_seal_record evp rand ssl1 (out_p + length frag) (max_out - length frag) type (in_p + 1) (drop 1 inp) of
                (None, ssl2) \<Rightarrow> (None, ssl2)
              | (Some rest, ssl2) \<Rightarrow> (Some (frag @ rest), ssl2)))
      else do_seal_record evp rand ssl out_p max_out type in_p inp)"

section \<open>What a sealed record looks like\<close>

definition wire_version_tls :: "'k ssl \<Rightarrow> u16" where
  "wire_version_tls ssl =
     (if version ssl = SSL3_VERSION \<or> have_version ssl \<and> ssl3_protocol_version ssl < TLS1_3_VERSION
      then version ssl else TLS1_VERSION)"

text \<open>The type and the plaintext that are sealed, and the header in front of the ciphertext.\<close>

definition inner :: "'k ssl \<Rightarrow> u8 \<Rightarrow> bytes \<Rightarrow> u8 \<times> bytes" where
  "inner ssl type inp = (if hides_type ssl (aead_write_ctx ssl) then (SSL3_RT_APPLICATION_DATA, inp @ [type]) else (type, inp))"

definition tls_header :: "bool \<Rightarrow> u8 \<Rightarrow> u16 \<Rightarrow> nat \<Rightarrow> bytes" where
  "tls_header short_hdr type ver n =
     (if short_hdr then [of_nat (n div 256) OR 0x80, of_nat n]
      else [type, ucast (drop_bit 8 ver), ucast ver, of_nat (n div 256), of_nat n])"

lemma length_tls_header: "length (tls_header sh type ver n) = (if sh then 2 else 5)"
  by (simp add: tls_header_def)

lemma do_seal_record_Some:
  assumes "do_seal_record evp rand s out_p max_out type in_p inp = (Some rec, s')" "length (write_sequence s) = 8"
  obtains c out_q max_q in_q seq where
    "SSL_AEAD_CTX_seal evp rand (aead_write_ctx s) out_q max_q (fst (inner s type inp)) (wire_version_tls s)
       (write_sequence s) in_q (snd (inner s type inp)) = Some c"
    "rec = tls_header (ssl_uses_short_header s evp_aead_seal) (fst (inner s type inp)) (wire_version_tls s) (length c) @ c"
    "length c < 2 ^ 15" "sequence_inc (write_sequence s) = (True, seq)" "s' = s\<lparr>write_sequence := seq\<rparr>"
    "(if ssl_uses_short_header s evp_aead_seal then 2 else 5) + max_q = max_out"
proof -
  obtain ok seq where upd: "sequence_inc (write_sequence s) = (ok, seq)" by fastforce
  then have upd': "ssl_record_sequence_update (write_sequence s) 8 = (ok, seq)"
    using assms(2) by (simp add: ssl_record_sequence_update_def)
  let ?sh = "ssl_uses_short_header s evp_aead_seal"
  define hl where "hl = (if ?sh then 0 else 3 :: nat)"
  define in_q where "in_q = (if hides_type s (aead_write_ctx s) then out_p + (if ?sh then 2 else SSL3_RT_HEADER_LENGTH) else in_p)"
  define sealed where "sealed = SSL_AEAD_CTX_seal evp rand (aead_write_ctx s) (out_p + hl + 2) (max_out - hl - 2)
     (fst (inner s type inp)) (wire_version_tls s) (write_sequence s) in_q (snd (inner s type inp))"
  define bad where "bad \<longleftrightarrow> hides_type s (aead_write_ctx s) \<and>
     (size_add (size_add (length inp) (if ?sh then 2 else SSL3_RT_HEADER_LENGTH)) 1 < length inp \<or>
      max_out < size_add (size_add (length inp) (if ?sh then 2 else SSL3_RT_HEADER_LENGTH)) 1)"
  have fst_inner: "fst (inner s type inp) = (if hides_type s (aead_write_ctx s) then SSL3_RT_APPLICATION_DATA else type)"
    and snd_inner: "snd (inner s type inp) = (if hides_type s (aead_write_ctx s) then inp @ [type] else inp)"
    by (simp_all add: inner_def)
  have hdr: "length (if ?sh then [] else [t, ucast (drop_bit 8 v), ucast (v :: u16)] :: bytes) = hl" for t v
    by (simp add: hl_def)
  have run: "do_seal_record evp rand s out_p max_out type in_p inp =
    (if bad then (None, s) else if max_out < (if ?sh then 2 else SSL3_RT_HEADER_LENGTH) then (None, s)
     else case sealed of None \<Rightarrow> (None, s)
      | Some c \<Rightarrow> if \<not> ok then (None, s\<lparr>write_sequence := seq\<rparr>) else if length c \<ge> 2 ^ 15 then (None, s\<lparr>write_sequence := seq\<rparr>)
         else (Some ((if ?sh then [] else [fst (inner s type inp), ucast (drop_bit 8 (wire_version_tls s)), ucast (wire_version_tls s)]) @
            [if ?sh then of_nat (length c div 256) OR 0x80 else of_nat (length c div 256), of_nat (length c)] @ c), s\<lparr>write_sequence := seq\<rparr>))"
    unfolding do_seal_record_def Let_def upd' prod.case hdr bad_def sealed_def in_q_def fst_inner snd_inner wire_version_tls_def
    by (rule refl)
  then obtain c where c: "sealed = Some c" "ok" "length c < 2 ^ 15" "s' = s\<lparr>write_sequence := seq\<rparr>"
    "rec = (if ?sh then [] else [fst (inner s type inp), ucast (drop_bit 8 (wire_version_tls s)), ucast (wire_version_tls s)]) @
            [if ?sh then of_nat (length c div 256) OR 0x80 else of_nat (length c div 256), of_nat (length c)] @ c"
    using assms(1) by (auto split: if_splits option.splits)
  have "\<not> max_out < (if ?sh then 2 else SSL3_RT_HEADER_LENGTH)"
    using assms(1) unfolding run by (auto split: if_splits)
  then have room: "(if ?sh then 2 else 5) + (max_out - hl - 2) = max_out"
    by (auto simp: hl_def SSL3_RT_HEADER_LENGTH_def split: if_splits)
  have "rec = tls_header ?sh (fst (inner s type inp)) (wire_version_tls s) (length c) @ c"
    using c(5) by (simp add: tls_header_def)
  then show thesis using that [OF c(1) [unfolded sealed_def] _ c(3) _ c(4) room] upd c(2) by simp
qed

text \<open>Reading the header back, whole or cut.\<close>

lemma or_0x80: "k < 128 \<Longrightarrow> unat (of_nat k OR 0x80 :: u8) = k + 128"
proof -
  have "list_all (\<lambda>k. unat (of_nat k OR 0x80 :: u8) = k + 128) [0..<128]" by code_simp
  then show "k < 128 \<Longrightarrow> unat (of_nat k OR 0x80 :: u8) = k + 128" by (simp add: list_all_iff)
qed

lemma u16_of_bytes: "unat (push_bit 8 (ucast a) OR ucast b :: u16) = 256 * unat a + unat b" for a b :: u8
  using unat_shift_or_byte [of "ucast a :: u16" b] unat_u8_less [of a] unat_u8_less [of b] by (simp add: unat_ucast_u8)

lemma short_length:
  assumes "n < 2 ^ 15"
  shows "(push_bit 8 (ucast (of_nat (n div 256) OR 0x80 :: u8)) OR ucast (of_nat n :: u8) :: u16) AND 0x8000 \<noteq> 0"
    "unat ((push_bit 8 (ucast (of_nat (n div 256) OR 0x80 :: u8)) OR ucast (of_nat n :: u8) :: u16) AND 0x7fff) = n"
proof -
  define w where "w = (push_bit 8 (ucast (of_nat (n div 256) OR 0x80 :: u8)) OR ucast (of_nat n :: u8) :: u16)"
  have "n div 256 < 128" using assms by simp
  then have w: "unat w = 32768 + n"
    unfolding w_def u16_of_bytes by (simp add: or_0x80 unsigned_of_nat take_bit_nat_def)
  have "(32768 + n) div 32768 = 1" using assms by simp
  then have "bit (unat w) 15" unfolding w bit_iff_odd by simp
  then have "bit w 15" by (simp add: bit_unsigned_iff)
  then have "w AND push_bit 15 1 \<noteq> 0" unfolding bit_iff_and_push_bit_not_eq_0 .
  then show "w AND 0x8000 \<noteq> 0" by simp
  have "w AND 0x7fff = take_bit 15 w" by (simp add: take_bit_eq_mask mask_eq_exp_minus_1)
  then have "unat (w AND 0x7fff) = take_bit 15 (unat w)" by (simp add: unsigned_take_bit_eq)
  then show "unat (w AND 0x7fff) = n" unfolding w using assms by (simp add: take_bit_nat_def)
qed


text \<open>The length in a header of two bytes.\<close>

definition header_word :: "bool \<Rightarrow> nat \<Rightarrow> u16" where
  "header_word short_hdr n =
     (let w = push_bit 8 (ucast (if short_hdr then of_nat (n div 256) OR 0x80 else of_nat (n div 256) :: u8)) OR ucast (of_nat n :: u8)
      in if short_hdr then w AND 0x7fff else w)"

lemma header_word: "n < 2 ^ 15 \<Longrightarrow> unat (header_word short_hdr n) = n"
  using short_length(2) [of n] u16_length [of n] by (simp add: header_word_def u16_of_bytes)

lemma tls_parse_header_of:
  assumes "n < 2 ^ 15"
  shows "tls_parse_header r (CBS_of (tls_header (ssl_uses_short_header r evp_aead_open) ty ver n @ rest) t) =
    (Some (Inr (if ssl_uses_short_header r evp_aead_open then (SSL3_RT_APPLICATION_DATA, TLS1_VERSION, header_word True n, 2)
                else (ty, ver, header_word False n, 5))), CBS_of rest t)"
proof (cases "ssl_uses_short_header r evp_aead_open")
  case True
  show ?thesis
    using True short_length(1) [OF assms]
    by (simp add: tls_parse_header_def tls_header_def CBS_get_u16_def op_bind_def view_simps numeral_2_eq_2 u16_word
        header_word_def Let_def)
next
  case False
  show ?thesis
    using False
    by (simp add: tls_parse_header_def tls_header_def CBS_get_u16_def op_bind_def view_simps numeral_2_eq_2 u16_word
        header_word_def Let_def u16_bytes SSL3_RT_HEADER_LENGTH_def)
qed

lemma tls_parse_header_short:
  assumes "length bs < (if ssl_uses_short_header r evp_aead_open then 2 else 5)"
  shows "fst (tls_parse_header r (CBS_of bs t)) =
    Some (Inl (ssl_open_record_partial, if ssl_uses_short_header r evp_aead_open then 2 else 5, None))"
proof (cases "ssl_uses_short_header r evp_aead_open")
  case True
  then have "length bs < 2" using assms by simp
  then show ?thesis using True
    by (simp add: tls_parse_header_def CBS_get_u16_def op_bind_def view_simps split: prod.splits)
next
  case False
  then have l: "length bs < 5" using assms by simp
  show ?thesis
  proof (cases bs)
    case Nil
    then show ?thesis using False by (simp add: tls_parse_header_def op_bind_def view_simps SSL3_RT_HEADER_LENGTH_def)
  next
    case (Cons b bs1)
    then have "length bs1 < 4" using l by simp
    then show ?thesis using False unfolding Cons
      by (auto simp: tls_parse_header_def CBS_get_u16_def op_bind_def view_simps SSL3_RT_HEADER_LENGTH_def split: prod.splits option.splits)
  qed
qed


section \<open>Sealing and opening\<close>

text \<open>A receiver in step with a sender: the same protocol and cipher, and the sequence number of the next
  record.\<close>

definition in_step :: "'k evp \<Rightarrow> 'k ssl \<Rightarrow> 'k ssl \<Rightarrow> bool" where
  "in_step evp s r \<longleftrightarrow>
     \<not> is_dtls s \<and> \<not> is_dtls r \<and> version r = version s \<and> have_version r = have_version s \<and>
     short_header r = short_header s \<and> aead_read_ctx r = aead_write_ctx s \<and> read_sequence r = write_sequence s \<and>
     length (write_sequence s) = 8 \<and> ssl3_version_from_wire (version s) \<noteq> None \<and>
     (aead_write_ctx s \<noteq> None \<longrightarrow> have_version s) \<and> (\<forall>a. aead_write_ctx s = Some a \<longrightarrow> aead_ok evp a) \<and>
     SSL_AEAD_CTX_max_overhead evp (aead_write_ctx s) < 320 \<and> \<not> skip_early_data r \<and>
     (short_header s \<longrightarrow> version s = TLS1_3_DRAFT_VERSION)"

text \<open>The data that a record can carry: no alert, no type 0 in TLS 1.3.\<close>

definition sendable :: "'k ssl \<Rightarrow> u8 \<Rightarrow> bytes \<Rightarrow> bool" where
  "sendable s ty inp \<longleftrightarrow>
     ty \<noteq> SSL3_RT_ALERT \<and> (hides_type s (aead_write_ctx s) \<longrightarrow> ty \<noteq> 0) \<and> length inp \<le> SSL3_RT_MAX_PLAIN_LENGTH"

text \<open>The receiver after a record.\<close>

definition received :: "bytes \<Rightarrow> bytes \<Rightarrow> 'k ssl \<Rightarrow> 'k ssl" where
  "received seq inp r =
     r\<lparr>read_sequence := seq, empty_record_count := (if inp = [] then empty_record_count r + 1 else 0), warning_alert_count := 0\<rparr>"

lemma in_stepD:
  assumes "in_step evp s r"
  shows "ssl_uses_short_header r evp_aead_open = ssl_uses_short_header s evp_aead_seal"
    "hides_type (r\<lparr>skip_early_data := False, read_sequence := q\<rparr>) (aead_read_ctx (r\<lparr>skip_early_data := False, read_sequence := q\<rparr>)) =
      hides_type s (aead_write_ctx s)"
    "tls_version_ok r (wire_version_tls s)" "short_header s \<Longrightarrow> wire_version_tls s = TLS1_VERSION"
proof -
  have same: "ssl3_protocol_version r = ssl3_protocol_version s"
    "ssl3_protocol_version (r\<lparr>skip_early_data := False, read_sequence := q\<rparr>) = ssl3_protocol_version s"
    using assms by (simp_all add: in_step_def ssl3_protocol_version_def)
  show "ssl_uses_short_header r evp_aead_open = ssl_uses_short_header s evp_aead_seal"
    using assms by (simp add: in_step_def ssl_uses_short_header_def)
  show "hides_type (r\<lparr>skip_early_data := False, read_sequence := q\<rparr>) (aead_read_ctx (r\<lparr>skip_early_data := False, read_sequence := q\<rparr>)) =
      hides_type s (aead_write_ctx s)"
    using assms same by (simp add: hides_type_def in_step_def)
  have v: "version s \<in> {SSL3_VERSION, TLS1_VERSION, TLS1_1_VERSION, TLS1_2_VERSION, TLS1_3_DRAFT_VERSION}"
    using assms by (auto simp: in_step_def ssl3_version_from_wire_def split: if_splits)
  have p: "ssl3_protocol_version s = (if version s = TLS1_3_DRAFT_VERSION then TLS1_3_VERSION else version s)"
    using assms v by (auto simp: in_step_def ssl3_protocol_version_def ssl3_version_from_wire_def
        SSL3_VERSION_def TLS1_VERSION_def TLS1_1_VERSION_def TLS1_2_VERSION_def TLS1_3_DRAFT_VERSION_def)
  show "tls_version_ok r (wire_version_tls s)"
    using assms v p same
    by (auto simp: tls_version_ok_def wire_version_tls_def in_step_def SSL3_VERSION_MAJOR_def
        SSL3_VERSION_def TLS1_VERSION_def TLS1_1_VERSION_def TLS1_2_VERSION_def TLS1_3_DRAFT_VERSION_def TLS1_3_VERSION_def)
  show "short_header s \<Longrightarrow> wire_version_tls s = TLS1_VERSION"
    using assms p
    by (simp add: wire_version_tls_def in_step_def SSL3_VERSION_def TLS1_3_DRAFT_VERSION_def TLS1_3_VERSION_def)
qed


lemma strip_type_snoc: "ty \<noteq> 0 \<Longrightarrow> strip_type (bs @ [ty]) = Some (ty, bs)"
  by (subst strip_type.simps) simp

lemma tls_accept_ok:
  assumes "length inp \<le> SSL3_RT_MAX_PLAIN_LENGTH" "ty \<noteq> SSL3_RT_ALERT" "inp = [] \<longrightarrow> empty_record_count r < kMaxEmptyRecords"
  shows "tls_accept r ty inp n =
    (\<lparr>result = ssl_open_record_success, consumed = n, out_type = ty, out = inp, out_alert = None\<rparr>,
     r\<lparr>empty_record_count := (if inp = [] then empty_record_count r + 1 else 0), warning_alert_count := 0\<rparr>)"
proof -
  have "empty_record_count r + 1 \<le> kMaxEmptyRecords" if "inp = []"
    using assms(3) that inc_le by blast
  then show ?thesis using assms(1,2) by (auto simp: tls_accept_def Let_def not_less)
qed

lemma tls_decrypted_ok:
  assumes "in_step evp s r" "sendable s ty inp" "inp = [] \<longrightarrow> empty_record_count r < kMaxEmptyRecords"
    "sequence_inc (write_sequence s) = (True, seq)"
  shows "tls_decrypted r (fst (inner s ty inp)) (snd (inner s ty inp)) n =
    (\<lparr>result = ssl_open_record_success, consumed = n, out_type = ty, out = inp, out_alert = None\<rparr>, received seq inp r)"
proof -
  have upd: "ssl_record_sequence_update (read_sequence r) 8 = (True, seq)"
    using assms(1,4) by (simp add: in_step_def ssl_record_sequence_update_def)
  let ?r = "r\<lparr>skip_early_data := False, read_sequence := seq\<rparr>"
  have skip: "?r = r\<lparr>read_sequence := seq\<rparr>" using assms(1) by (simp add: in_step_def)
  have acc: "tls_accept ?r ty inp n =
    (\<lparr>result = ssl_open_record_success, consumed = n, out_type = ty, out = inp, out_alert = None\<rparr>, received seq inp r)"
    using tls_accept_ok [of inp ty ?r n] assms(2,3) unfolding skip by (simp add: sendable_def received_def)
  show ?thesis
  proof (cases "hides_type s (aead_write_ctx s)")
    case True
    then have "ty \<noteq> 0" using assms(2) by (simp add: sendable_def)
    then show ?thesis
      using True acc strip_type_snoc [of ty inp] in_stepD(2) [OF assms(1), of seq]
      by (simp add: tls_decrypted_def upd Let_def inner_def)
  next
    case False
    then show ?thesis using acc in_stepD(2) [OF assms(1), of seq] by (simp add: tls_decrypted_def upd Let_def inner_def)
  qed
qed

lemma tls_open_sealed:
  assumes "do_seal_record evp rand s out_p max_out ty in_p inp = (Some rec, s')" "in_step evp s r" "sendable s ty inp"
    "inp = [] \<longrightarrow> empty_record_count r < kMaxEmptyRecords" "\<forall>n v. rand n = Some v \<longrightarrow> length v = n"
  shows "tls_open_record evp r (rec @ beyond) (length (rec @ beyond)) =
    (\<lparr>result = ssl_open_record_success, consumed = length rec, out_type = ty, out = inp, out_alert = None\<rparr>,
     received (write_sequence s') inp r)" "in_step evp s' (received (write_sequence s') inp r)" "s' = s\<lparr>write_sequence := write_sequence s'\<rparr>"
proof -
  have len8: "length (write_sequence s) = 8" and aead: "aead_read_ctx r = aead_write_ctx s" "\<forall>a. aead_write_ctx s = Some a \<longrightarrow> aead_ok evp a"
    and over: "SSL_AEAD_CTX_max_overhead evp (aead_write_ctx s) < 320" and seqs: "read_sequence r = write_sequence s"
    using assms(2) by (auto simp: in_step_def)
  obtain c out_q max_q in_q seq where
    c: "SSL_AEAD_CTX_seal evp rand (aead_write_ctx s) out_q max_q (fst (inner s ty inp)) (wire_version_tls s)
       (write_sequence s) in_q (snd (inner s ty inp)) = Some c"
    and rc: "rec = tls_header (ssl_uses_short_header s evp_aead_seal) (fst (inner s ty inp)) (wire_version_tls s) (length c) @ c"
    and lc: "length c < 2 ^ 15" and q: "sequence_inc (write_sequence s) = (True, seq)" and s': "s' = s\<lparr>write_sequence := seq\<rparr>"
    and "(if ssl_uses_short_header s evp_aead_seal then 2 else 5) + max_q = max_out"
    by (rule do_seal_record_Some [OF assms(1) len8])
  note D = in_stepD [OF assms(2)]
  note rt = record_protection.unseal_seal [OF aead_protects [OF aead(2) assms(5)] len8 c]
  let ?sh = "ssl_uses_short_header r evp_aead_open"
  define ver where "ver = (if ?sh then TLS1_VERSION else wire_version_tls s)"
  define ty1 where "ty1 = (if ?sh then SSL3_RT_APPLICATION_DATA else fst (inner s ty inp))"
  define w where "w = header_word ?sh (length c)"
  define hl where "hl = (if ?sh then 2 else 5 :: nat)"
  have w: "unat w = length c" unfolding w_def by (rule header_word [OF lc])
  have short: "?sh \<Longrightarrow> short_header s \<and> hides_type s (aead_write_ctx s)"
  proof -
    assume "?sh"
    then have h: "short_header s" "aead_write_ctx s \<noteq> None" using D(1) by (auto simp: ssl_uses_short_header_def split: if_splits)
    then have "version s = TLS1_3_DRAFT_VERSION" "have_version s" "\<not> is_dtls s" using assms(2) by (auto simp: in_step_def)
    then have "ssl3_protocol_version s = TLS1_3_VERSION"
      by (simp add: ssl3_protocol_version_def ssl3_version_from_wire_def TLS1_3_DRAFT_VERSION_def SSL3_VERSION_def
          TLS1_VERSION_def TLS1_1_VERSION_def TLS1_2_VERSION_def)
    then show "short_header s \<and> hides_type s (aead_write_ctx s)" using h \<open>have_version s\<close> by (simp add: hides_type_def)
  qed
  have ver: "ver = wire_version_tls s" using D(4) short by (auto simp: ver_def)
  have ty1: "ty1 = fst (inner s ty inp)" using short by (auto simp: ty1_def inner_def)
  have "rec @ beyond = tls_header ?sh (fst (inner s ty inp)) (wire_version_tls s) (length c) @ (c @ beyond)"
    by (simp add: rc D(1))
  moreover have "length (rec @ beyond) = hl + length c + length beyond" "length rec = hl + length c"
    unfolding rc by (simp_all add: length_tls_header D(1) hl_def)
  ultimately have init: "CBS_init (rec @ beyond) (length (rec @ beyond)) =
      CBS_of (tls_header ?sh (fst (inner s ty inp)) (wire_version_tls s) (length c) @ (c @ beyond)) []"
    and lens: "length (rec @ beyond) = hl + length c + length beyond" "length rec = hl + length c"
    using CBS_init_of [of "length (rec @ beyond)" "rec @ beyond"] by simp_all
  have parse: "tls_parse_header r (CBS_init (rec @ beyond) (length (rec @ beyond))) =
      (Some (Inr (ty1, ver, w, hl)), CBS_of (c @ beyond) [])"
    unfolding init tls_parse_header_of [OF lc] by (simp add: ty1_def ver_def w_def hl_def)
  have vok: "\<not> \<not> tls_version_ok r ver" unfolding ver using D(3) by simp
  have "length (snd (inner s ty inp)) \<le> 16385"
    using assms(3) by (simp add: inner_def sendable_def SSL3_RT_MAX_PLAIN_LENGTH_def)
  then have fits: "\<not> unat w > SSL3_RT_MAX_ENCRYPTED_LENGTH"
    unfolding w using rt over by (simp add: SSL3_RT_MAX_ENCRYPTED_LENGTH_def)
  have body: "CBS_get_bytes (unat w) (CBS_of (c @ beyond) []) = (Some (CBS_of c (beyond @ [])), CBS_of beyond [])"
    unfolding w by (simp add: view_simps)
  have no_skip: "\<not> (skip_early_data r \<and> aead_read_ctx r = None \<and> ty1 = SSL3_RT_APPLICATION_DATA)"
    using assms(2) by (simp add: in_step_def)
  have opened: "SSL_AEAD_CTX_open evp (aead_read_ctx r) ty1 ver (read_sequence r)
      (take (CBS_len (CBS_of c (beyond @ []))) (CBS_data (CBS_of c (beyond @ [])))) = Some (snd (inner s ty inp))"
    unfolding aead(1) ty1 ver seqs using rt by (simp add: view_simps)
  have n: "length (rec @ beyond) - CBS_len (CBS_of beyond []) = length rec" by (simp add: view_simps)
  have seq': "write_sequence s' = seq" by (simp add: s')
  show "tls_open_record evp r (rec @ beyond) (length (rec @ beyond)) =
    (\<lparr>result = ssl_open_record_success, consumed = length rec, out_type = ty, out = inp, out_alert = None\<rparr>,
     received (write_sequence s') inp r)"
    unfolding tls_open_record_def parse prod.case option.case sum.case Let_def if_not_P [OF vok] if_not_P [OF fits] body n
      if_not_P [OF no_skip] opened seq'
    unfolding ty1 by (rule tls_decrypted_ok [OF assms(2,3,4) q])
  have "length seq = 8" using sequence_inc_nat [OF q] len8 by simp
  then show "in_step evp s' (received (write_sequence s') inp r)"
    using assms(2) by (simp add: in_step_def received_def s')
  show "s' = s\<lparr>write_sequence := write_sequence s'\<rparr>" by (simp add: s')
qed

text \<open>A record that has not arrived whole.\<close>

lemma tls_open_prefix:
  assumes "do_seal_record evp rand s out_p max_out ty in_p inp = (Some rec, s')" "in_step evp s r" "sendable s ty inp"
    "\<forall>n v. rand n = Some v \<longrightarrow> length v = n" "k < length rec"
  shows "\<exists>m. tls_open_record evp r (take k rec) k = ((dropped m)\<lparr>result := ssl_open_record_partial\<rparr>, r) \<and> k < m \<and> m \<le> length rec"
proof -
  have len8: "length (write_sequence s) = 8" and aead: "\<forall>a. aead_write_ctx s = Some a \<longrightarrow> aead_ok evp a"
    and over: "SSL_AEAD_CTX_max_overhead evp (aead_write_ctx s) < 320"
    using assms(2) by (auto simp: in_step_def)
  obtain c out_q max_q in_q seq where
    c: "SSL_AEAD_CTX_seal evp rand (aead_write_ctx s) out_q max_q (fst (inner s ty inp)) (wire_version_tls s)
       (write_sequence s) in_q (snd (inner s ty inp)) = Some c"
    and rc: "rec = tls_header (ssl_uses_short_header s evp_aead_seal) (fst (inner s ty inp)) (wire_version_tls s) (length c) @ c"
    and lc: "length c < 2 ^ 15" and "sequence_inc (write_sequence s) = (True, seq)" and "s' = s\<lparr>write_sequence := seq\<rparr>"
    and "(if ssl_uses_short_header s evp_aead_seal then 2 else 5) + max_q = max_out"
    by (rule do_seal_record_Some [OF assms(1) len8])
  note D = in_stepD [OF assms(2)]
  note rt = record_protection.unseal_seal [OF aead_protects [OF aead assms(4)] len8 c]
  let ?sh = "ssl_uses_short_header r evp_aead_open"
  define h where "h = tls_header ?sh (fst (inner s ty inp)) (wire_version_tls s) (length c)"
  have rc: "rec = h @ c" unfolding rc h_def D(1) ..
  define hl where "hl = (if ?sh then 2 else 5 :: nat)"
  have hl: "length h = hl" by (simp add: h_def hl_def length_tls_header)
  have init: "CBS_init (take k rec) k = CBS_of (take k rec) []"
    using CBS_init_of [of k "take k rec"] assms(5) by simp
  show ?thesis
  proof (cases "k < hl")
    case True
    then have "length (take k rec) < (if ?sh then 2 else 5)" using assms(5) by (simp add: hl_def)
    from tls_parse_header_short [OF this, of "[]"]
    obtain cbs where "tls_parse_header r (CBS_init (take k rec) k) = (Some (Inl (ssl_open_record_partial, hl, None)), cbs)"
      unfolding init hl_def by (metis prod.collapse)
    then have "tls_open_record evp r (take k rec) k = ((dropped hl)\<lparr>result := ssl_open_record_partial\<rparr>, r)"
      by (simp add: tls_open_record_def dropped_def)
    then show ?thesis using True hl rc by (intro exI [of _ hl]) simp
  next
    case False
    then have tk: "take k rec = h @ take (k - hl) c" using hl by (simp add: rc)
    define ver where "ver = (if ?sh then TLS1_VERSION else wire_version_tls s)"
    define ty1 where "ty1 = (if ?sh then SSL3_RT_APPLICATION_DATA else fst (inner s ty inp))"
    define w where "w = header_word ?sh (length c)"
    have w: "unat w = length c" unfolding w_def by (rule header_word [OF lc])
    have parse: "tls_parse_header r (CBS_init (take k rec) k) = (Some (Inr (ty1, ver, w, hl)), CBS_of (take (k - hl) c) [])"
      unfolding init unfolding tk h_def tls_parse_header_of [OF lc] by (simp add: ty1_def ver_def w_def hl_def)
    have "?sh \<Longrightarrow> short_header s" using assms(2) by (auto simp: ssl_uses_short_header_def in_step_def split: if_splits)
    then have ver: "ver = wire_version_tls s" using D(4) by (auto simp: ver_def)
    have vok: "\<not> \<not> tls_version_ok r ver" unfolding ver using D(3) by simp
    have "length (snd (inner s ty inp)) \<le> 16385"
      using assms(3) by (simp add: inner_def sendable_def SSL3_RT_MAX_PLAIN_LENGTH_def)
    then have fits: "\<not> unat w > SSL3_RT_MAX_ENCRYPTED_LENGTH"
      unfolding w using rt over by (simp add: SSL3_RT_MAX_ENCRYPTED_LENGTH_def)
    have "k - hl < length c" using assms(5) False hl rc by simp
    then have body: "CBS_get_bytes (unat w) (CBS_of (take (k - hl) c) []) = (None, CBS_of (take (k - hl) c) [])"
      unfolding w by (simp add: view_simps)
    have "tls_open_record evp r (take k rec) k = ((dropped (hl + length c))\<lparr>result := ssl_open_record_partial\<rparr>, r)"
      unfolding tls_open_record_def parse prod.case option.case sum.case Let_def if_not_P [OF vok] if_not_P [OF fits] body
      unfolding w ..
    then show ?thesis using assms(5) rc hl by (intro exI [of _ "hl + length c"]) simp
  qed
qed

section \<open>Streams of records\<close>

text \<open>The calls of a writer: buffer, type and data of each; it stops at the first call that fails. The
  records follow each other on the wire.\<close>

type_synonym seal_call = "nat \<times> nat \<times> u8 \<times> nat \<times> bytes"

fun tls_send :: "'k evp \<Rightarrow> (nat \<Rightarrow> bytes option) \<Rightarrow> seal_call list \<Rightarrow> 'k ssl \<Rightarrow> (bytes \<times> 'k ssl) option" where
  "tls_send evp rand [] s = Some ([], s)"
| "tls_send evp rand ((out_p, max_out, ty, in_p, inp) # calls) s =
     (case tls_seal_record evp rand s out_p max_out ty in_p inp of
        (None, s') \<Rightarrow> None
      | (Some rec, s') \<Rightarrow> map_option (\<lambda>(bs, s''). (rec @ bs, s'')) (tls_send evp rand calls s'))"

text \<open>A reader that opens \<open>n\<close> records from the front of the stream, and what it has not read.\<close>

fun tls_receive :: "nat \<Rightarrow> 'k evp \<Rightarrow> 'k ssl \<Rightarrow> bytes \<Rightarrow> (u8 \<times> bytes) list \<times> bytes \<times> 'k ssl" where
  "tls_receive 0 evp r bs = ([], bs, r)"
| "tls_receive (Suc n) evp r bs =
     (case tls_open_record evp r bs (length bs) of
        (rc, r') \<Rightarrow>
          if result rc = ssl_open_record_success then
            (case tls_receive n evp r' (drop (consumed rc) bs) of (xs, rest, r'') \<Rightarrow> ((out_type rc, out rc) # xs, rest, r''))
          else ([], bs, r'))"

text \<open>What is sent for a call: one record, or two of which the first has one byte.\<close>

fun fragments :: "'k ssl \<Rightarrow> seal_call \<Rightarrow> (u8 \<times> bytes) list" where
  "fragments s (out_p, max_out, ty, in_p, inp) =
     (if ty = SSL3_RT_APPLICATION_DATA \<and> length inp > 1 \<and> ssl_needs_record_splitting s
      then [(ty, take 1 inp), (ty, drop 1 inp)] else [(ty, inp)])"

fun call_ok :: "'k ssl \<Rightarrow> seal_call \<Rightarrow> bool" where
  "call_ok s (out_p, max_out, ty, in_p, inp) \<longleftrightarrow> sendable s ty inp \<and> inp \<noteq> []"

lemma write_sequence_only:
  "ssl_needs_record_splitting (s\<lparr>write_sequence := q\<rparr>) = ssl_needs_record_splitting s"
  "fragments (s\<lparr>write_sequence := q\<rparr>) c = fragments s c" "call_ok (s\<lparr>write_sequence := q\<rparr>) c = call_ok s c"
  by (cases c; simp add: ssl_needs_record_splitting_def ssl3_protocol_version_def sendable_def hides_type_def)+

lemma receive_one:
  assumes "do_seal_record evp rand s out_p max_out ty in_p inp = (Some rec, s')" "in_step evp s r" "sendable s ty inp"
    "inp \<noteq> []" "\<forall>n v. rand n = Some v \<longrightarrow> length v = n"
  shows "tls_receive (Suc n) evp r (rec @ beyond) =
      (case tls_receive n evp (received (write_sequence s') inp r) beyond of (xs, rest, r'') \<Rightarrow> ((ty, inp) # xs, rest, r''))"
    "in_step evp s' (received (write_sequence s') inp r)" "s' = s\<lparr>write_sequence := write_sequence s'\<rparr>"
  using tls_open_sealed [OF assms(1-3) _ assms(5)] assms(4) by simp_all

lemma receive_call:
  assumes "tls_seal_record evp rand s out_p max_out ty in_p inp = (Some rec, s')" "in_step evp s r"
    "call_ok s (out_p, max_out, ty, in_p, inp)" "\<forall>n v. rand n = Some v \<longrightarrow> length v = n"
  obtains r' where "\<forall>n. tls_receive (length (fragments s (out_p, max_out, ty, in_p, inp)) + n) evp r (rec @ beyond) =
      (case tls_receive n evp r' beyond of (xs, rest, r'') \<Rightarrow> (fragments s (out_p, max_out, ty, in_p, inp) @ xs, rest, r''))"
    "in_step evp s' r'" "s' = s\<lparr>write_sequence := write_sequence s'\<rparr>"
proof (cases "ty = SSL3_RT_APPLICATION_DATA \<and> length inp > 1 \<and> ssl_needs_record_splitting s")
  case False
  then have one: "do_seal_record evp rand s out_p max_out ty in_p inp = (Some rec, s')"
    using assms(1) by (auto simp: tls_seal_record_def split: if_splits)
  have ok: "sendable s ty inp" "inp \<noteq> []" using assms(3) by simp_all
  note o = receive_one [OF one assms(2) ok assms(4)]
  have fr: "fragments s (out_p, max_out, ty, in_p, inp) = [(ty, inp)]" using False by (simp only: fragments.simps if_False)
  show thesis
  proof (rule that [OF _ o(2,3)], rule allI)
    fix n
    show "tls_receive (length (fragments s (out_p, max_out, ty, in_p, inp)) + n) evp r (rec @ beyond) =
      (case tls_receive n evp (received (write_sequence s') inp r) beyond of
         (xs, rest, r'') \<Rightarrow> (fragments s (out_p, max_out, ty, in_p, inp) @ xs, rest, r''))"
      using o(1) [of n beyond] unfolding fr by simp
  qed
next
  case True
  obtain f s1 rest where f: "do_seal_record evp rand s out_p max_out ty in_p (take 1 inp) = (Some f, s1)"
    and g: "do_seal_record evp rand s1 (out_p + length f) (max_out - length f) ty (in_p + 1) (drop 1 inp) = (Some rest, s')"
    and rc: "rec = f @ rest"
    using assms(1) True by (auto simp: tls_seal_record_def split: if_splits prod.splits option.splits)
  have ok: "sendable s ty (take 1 inp)" "take 1 inp \<noteq> []" "drop 1 inp \<noteq> []" "sendable s ty (drop 1 inp)"
    using assms(3) True by (auto simp: sendable_def)
  note o1 = receive_one [OF f assms(2) ok(1,2) assms(4)]
  define q1 where "q1 = write_sequence s1"
  have s1: "s1 = s\<lparr>write_sequence := q1\<rparr>" using o1(3) unfolding q1_def .
  have "sendable s1 ty (drop 1 inp)" using ok(4) by (simp add: s1 sendable_def hides_type_def ssl3_protocol_version_def)
  note o2 = receive_one [OF g o1(2) this ok(3) assms(4)]
  define q2 where "q2 = write_sequence s'"
  have "s' = s1\<lparr>write_sequence := q2\<rparr>" using o2(3) unfolding q2_def .
  then have s': "s' = s\<lparr>write_sequence := write_sequence s'\<rparr>" by (simp add: s1)
  have fr: "fragments s (out_p, max_out, ty, in_p, inp) = [(ty, take 1 inp), (ty, drop 1 inp)]"
    using True by (simp only: fragments.simps if_True simp_thms)
  show thesis
  proof (rule that [OF _ o2(2) s'], rule allI)
    fix n
    have two: "length (fragments s (out_p, max_out, ty, in_p, inp)) + n = Suc (Suc n)" unfolding fr by simp
    show "tls_receive (length (fragments s (out_p, max_out, ty, in_p, inp)) + n) evp r (rec @ beyond) =
      (case tls_receive n evp (received (write_sequence s') (drop 1 inp) (received (write_sequence s1) (take 1 inp) r)) beyond of
         (xs, rest, r'') \<Rightarrow> (fragments s (out_p, max_out, ty, in_p, inp) @ xs, rest, r''))"
      unfolding two rc append_assoc o1(1) o2(1) unfolding fr by (simp split: prod.splits)
  qed
qed

lemma tls_receive_send:
  assumes "tls_send evp rand calls s = Some (wire, s')" "in_step evp s r" "list_all (call_ok s) calls"
    "\<forall>n v. rand n = Some v \<longrightarrow> length v = n"
  shows "\<exists>r'. tls_receive (length (concat (map (fragments s) calls))) evp r (wire @ beyond) =
      (concat (map (fragments s) calls), beyond, r') \<and> in_step evp s' r'"
  using assms(1-3)
proof (induction calls arbitrary: s r wire)
  case Nil
  then show ?case by simp
next
  case (Cons c calls)
  obtain out_p max_out ty in_p inp where c: "c = (out_p, max_out, ty, in_p, inp)" by (cases c)
  obtain rec s1 w1 where seal: "tls_seal_record evp rand s out_p max_out ty in_p inp = (Some rec, s1)"
    and more: "tls_send evp rand calls s1 = Some (w1, s')" and wire: "wire = rec @ w1"
    using Cons.prems(1) by (auto simp: c split: prod.splits option.splits)
  have ok: "call_ok s (out_p, max_out, ty, in_p, inp)" using Cons.prems(3) by (simp add: c)
  obtain r1 where r1: "\<forall>n. tls_receive (length (fragments s (out_p, max_out, ty, in_p, inp)) + n) evp r (rec @ (w1 @ beyond)) =
      (case tls_receive n evp r1 (w1 @ beyond) of (xs, rest, r'') \<Rightarrow> (fragments s (out_p, max_out, ty, in_p, inp) @ xs, rest, r''))"
    "in_step evp s1 r1" "s1 = s\<lparr>write_sequence := write_sequence s1\<rparr>"
    by (rule receive_call [OF seal Cons.prems(2) ok assms(4), of "w1 @ beyond"])
  have same: "fragments s1 = fragments s" "call_ok s1 = call_ok s"
    by (subst r1(3), rule ext, rule write_sequence_only)+
  have "list_all (call_ok s1) calls" using Cons.prems(3) by (simp add: same)
  from Cons.IH [OF more r1(2) this]
  obtain r' where r': "tls_receive (length (concat (map (fragments s) calls))) evp r1 (w1 @ beyond) =
      (concat (map (fragments s) calls), beyond, r')" "in_step evp s' r'"
    unfolding same by blast
  have "tls_receive (length (concat (map (fragments s) (c # calls)))) evp r (wire @ beyond) =
      (concat (map (fragments s) (c # calls)), beyond, r')"
    using r1(1) [THEN spec, of "length (concat (map (fragments s) calls))"] unfolding r'(1) by (simp add: wire c del: fragments.simps)
  with r'(2) show ?case by blast
qed

section \<open>Bounds\<close>

lemma do_seal_record_bound:
  assumes "do_seal_record evp rand s out_p max_out ty in_p inp = (Some rec, s')" "length (write_sequence s) = 8"
    "\<forall>a. aead_write_ctx s = Some a \<longrightarrow> aead_ok evp a" "\<forall>n v. rand n = Some v \<longrightarrow> length v = n"
  shows "length rec \<le> max_out \<and> s' = s\<lparr>write_sequence := write_sequence s'\<rparr> \<and> length (write_sequence s') = 8 \<and>
    length rec \<le> length inp + (if ssl_uses_short_header s evp_aead_seal then 2 else SSL3_RT_HEADER_LENGTH) +
      SSL_AEAD_CTX_max_overhead evp (aead_write_ctx s) + (if have_version s \<and> ssl3_protocol_version s \<ge> TLS1_3_VERSION then 1 else 0)"
proof -
  obtain c out_q max_q in_q seq where
    c: "SSL_AEAD_CTX_seal evp rand (aead_write_ctx s) out_q max_q (fst (inner s ty inp)) (wire_version_tls s)
       (write_sequence s) in_q (snd (inner s ty inp)) = Some c"
    and rc: "rec = tls_header (ssl_uses_short_header s evp_aead_seal) (fst (inner s ty inp)) (wire_version_tls s) (length c) @ c"
    and "length c < 2 ^ 15" and q: "sequence_inc (write_sequence s) = (True, seq)" and s': "s' = s\<lparr>write_sequence := seq\<rparr>"
    and room: "(if ssl_uses_short_header s evp_aead_seal then 2 else 5) + max_q = max_out"
    by (rule do_seal_record_Some [OF assms(1,2)])
  note rt = record_protection.unseal_seal [OF aead_protects [OF assms(3,4)] assms(2) c]
  have len: "length rec = (if ssl_uses_short_header s evp_aead_seal then 2 else 5) + length c"
    by (simp add: rc length_tls_header)
  have "length (snd (inner s ty inp)) \<le> length inp + (if have_version s \<and> ssl3_protocol_version s \<ge> TLS1_3_VERSION then 1 else 0)"
    by (auto simp: inner_def hides_type_def)
  then have "length rec \<le> length inp + (if ssl_uses_short_header s evp_aead_seal then 2 else SSL3_RT_HEADER_LENGTH) +
      SSL_AEAD_CTX_max_overhead evp (aead_write_ctx s) + (if have_version s \<and> ssl3_protocol_version s \<ge> TLS1_3_VERSION then 1 else 0)"
    using rt len unfolding SSL3_RT_HEADER_LENGTH_def by linarith
  moreover have "length rec \<le> max_out" using rt len room by linarith
  moreover have "length seq = 8" using sequence_inc_nat [OF q] assms(2) by simp
  ultimately show ?thesis by (simp add: s')
qed

lemma tls_seal_record_bound:
  assumes "tls_seal_record evp rand s out_p max_out ty in_p inp = (Some rec, s')" "length (write_sequence s) = 8"
    "\<forall>a. aead_write_ctx s = Some a \<longrightarrow> aead_ok evp a" "\<forall>n v. rand n = Some v \<longrightarrow> length v = n" "\<not> is_dtls s"
  shows "length rec \<le> max_out \<and> length rec \<le> length inp + SSL_max_seal_overhead evp s"
proof -
  define h where "h = (if ssl_uses_short_header s evp_aead_seal then 2 else SSL3_RT_HEADER_LENGTH)"
  define a where "a = SSL_AEAD_CTX_max_overhead evp (aead_write_ctx s)"
  define t where "t = (if have_version s \<and> ssl3_protocol_version s \<ge> TLS1_3_VERSION then 1 else 0 :: nat)"
  have over: "SSL_max_seal_overhead evp s = (if ssl_needs_record_splitting s then (h + a + t) * 2 else h + a + t)"
    using assms(5) by (simp add: SSL_max_seal_overhead_def Let_def h_def a_def t_def)
  show ?thesis
  proof (cases "ty = SSL3_RT_APPLICATION_DATA \<and> length inp > 1 \<and> ssl_needs_record_splitting s")
    case False
    then have "do_seal_record evp rand s out_p max_out ty in_p inp = (Some rec, s')"
      using assms(1) by (auto simp: tls_seal_record_def split: if_splits)
    note b = do_seal_record_bound [OF this assms(2-4), folded h_def a_def t_def]
    have "h + a + t \<le> SSL_max_seal_overhead evp s" unfolding over by simp
    moreover have "length rec \<le> max_out" "length rec \<le> length inp + h + a + t" using b by blast+
    ultimately show ?thesis by (intro conjI) linarith+
  next
    case True
    obtain f s1 rest where f: "do_seal_record evp rand s out_p max_out ty in_p (take 1 inp) = (Some f, s1)"
      and g: "do_seal_record evp rand s1 (out_p + length f) (max_out - length f) ty (in_p + 1) (drop 1 inp) = (Some rest, s')"
      and rc: "rec = f @ rest"
      using assms(1) True by (auto simp: tls_seal_record_def split: if_splits prod.splits option.splits)
    note b1 = do_seal_record_bound [OF f assms(2-4), folded h_def a_def t_def]
    define q1 where "q1 = write_sequence s1"
    have s1: "s1 = s\<lparr>write_sequence := q1\<rparr>" using b1 unfolding q1_def by blast
    have len8: "length (write_sequence s1) = 8" using b1 by blast
    have same: "aead_write_ctx s1 = aead_write_ctx s" "have_version s1 = have_version s"
      "ssl_uses_short_header s1 evp_aead_seal = ssl_uses_short_header s evp_aead_seal"
      "ssl3_protocol_version s1 = ssl3_protocol_version s"
      by (simp_all add: s1 ssl_uses_short_header_def ssl3_protocol_version_def)
    have "\<forall>a. aead_write_ctx s1 = Some a \<longrightarrow> aead_ok evp a" using assms(3) same(1) by simp
    note b2 = do_seal_record_bound [OF g len8 this assms(4), unfolded same, folded h_def a_def t_def]
    define x where "x = length (take 1 inp)"
    define y where "y = length (drop 1 inp)"
    have xy: "x + y = length inp" using True by (auto simp: x_def y_def)
    have "length f \<le> x + (h + a + t)" "length rest \<le> y + (h + a + t)"
      using b1 b2 unfolding x_def y_def add.assoc by blast+
    then have "length rec \<le> length inp + (h + a + t) * 2"
      unfolding rc length_append xy [symmetric] by presburger
    moreover have "length rec \<le> max_out"
    proof -
      have "length f \<le> max_out" "length rest \<le> max_out - length f" using b1 b2 by blast+
      then show ?thesis unfolding rc length_append by linarith
    qed
    ultimately show ?thesis using True unfolding over by simp
  qed
qed

section \<open>Any input\<close>

lemma tls_parse_header_cases:
  assumes "tls_parse_header r (CBS_of bs t) = (h, cbs)"
  shows "case h of None \<Rightarrow> False
    | Some (Inl (res, n, a)) \<Rightarrow> res = ssl_open_record_partial \<and> length bs < n \<and> n \<le> 5 \<or> res = ssl_open_record_error \<and> n = 0
    | Some (Inr (ty, ver, n, hl)) \<Rightarrow> hl \<le> length bs \<and> hl \<le> 5 \<and> cbs = CBS_of (drop hl bs) t"
proof (cases "length bs < (if ssl_uses_short_header r evp_aead_open then 2 else 5)")
  case True
  then show ?thesis using tls_parse_header_short [OF True, of t] assms by auto
next
  case False
  show ?thesis
  proof (cases "ssl_uses_short_header r evp_aead_open")
    case True
    then obtain a b rest where "bs = a # b # rest" using False by (auto simp: neq_Nil_conv Suc_le_length_iff not_less numeral_eq_Suc)
    then show ?thesis using True assms
      by (auto simp: tls_parse_header_def CBS_get_u16_def op_bind_def view_simps numeral_2_eq_2 split: if_splits)
  next
    case short: False
    then obtain a b c d e rest where "bs = a # b # c # d # e # rest"
      using False by (auto simp: Suc_le_length_iff not_less numeral_eq_Suc)
    then show ?thesis using short assms
      by (auto simp: tls_parse_header_def CBS_get_u16_def op_bind_def view_simps numeral_2_eq_2 SSL3_RT_HEADER_LENGTH_def split: if_splits)
  qed
qed

text \<open>The limits on records that deliver nothing.\<close>

definition within_limits :: "'k ssl \<Rightarrow> bool" where
  "within_limits s \<longleftrightarrow> empty_record_count s \<le> kMaxEmptyRecords \<and> warning_alert_count s \<le> kMaxWarningAlerts \<and>
     unat (early_data_skipped s) \<le> kMaxEarlyDataSkipped"

text \<open>What holds of every call on an input of \<open>k\<close> bytes.\<close>

definition opens_safely :: "nat \<Rightarrow> 'k ssl \<Rightarrow> opened \<times> 'k ssl \<Rightarrow> bool" where
  "opens_safely k s x \<longleftrightarrow> (case x of (r, s') \<Rightarrow>
     (if result r = ssl_open_record_partial then k < consumed r \<and> consumed r \<le> 5 + SSL3_RT_MAX_ENCRYPTED_LENGTH \<and> s' = s
      else consumed r \<le> k) \<and>
     (result r \<noteq> ssl_open_record_error \<longrightarrow> within_limits s') \<and>
     (result r = ssl_open_record_success \<longrightarrow> length (out r) \<le> SSL3_RT_MAX_PLAIN_LENGTH \<and> out_type r \<noteq> SSL3_RT_ALERT))"

lemma ssl_process_alert_limits:
  assumes "ssl_process_alert s inp = ((r, a), s')" "within_limits s"
  shows "r \<noteq> ssl_open_record_error \<longrightarrow> within_limits s'" "r \<noteq> ssl_open_record_partial" "r \<noteq> ssl_open_record_success"
  using assms by (auto simp: ssl_process_alert_def within_limits_def Let_def split: if_splits)

lemma tls_accept_safe:
  assumes "within_limits s" "n \<le> k"
  shows "opens_safely k s0 (tls_accept s ty plain n)"
proof (cases "length plain > SSL3_RT_MAX_PLAIN_LENGTH")
  case True
  then show ?thesis using assms by (simp add: tls_accept_def opens_safely_def dropped_def)
next
  case False
  define s1 where "s1 = s\<lparr>empty_record_count := (if plain = [] then empty_record_count s + 1 else 0)\<rparr>"
  have run: "tls_accept s ty plain n =
      (if plain = [] \<and> empty_record_count s1 > kMaxEmptyRecords
       then ((dropped n)\<lparr>result := ssl_open_record_error, out_alert := Some SSL_AD_UNEXPECTED_MESSAGE\<rparr>, s1)
       else if ty = SSL3_RT_ALERT then
         (case ssl_process_alert s1 plain of ((r, a), ssl2) \<Rightarrow> ((dropped n)\<lparr>result := r, out_alert := a\<rparr>, ssl2))
       else (\<lparr>result = ssl_open_record_success, consumed = n, out_type = ty, out = plain, out_alert = None\<rparr>,
         s1\<lparr>warning_alert_count := 0\<rparr>))"
    using False by (simp add: tls_accept_def s1_def)
  have lim: "\<not> (plain = [] \<and> empty_record_count s1 > kMaxEmptyRecords) \<Longrightarrow> within_limits s1"
    using assms(1) by (auto simp: within_limits_def s1_def not_less)
  show ?thesis
  proof (cases "plain = [] \<and> empty_record_count s1 > kMaxEmptyRecords")
    case True
    then show ?thesis using assms(2) unfolding run by (simp add: opens_safely_def dropped_def)
  next
    case keep: False
    obtain r a s2 where al: "ssl_process_alert s1 plain = ((r, a), s2)" by (metis prod.collapse)
    show ?thesis
      using ssl_process_alert_limits [OF al lim [OF keep]] lim [OF keep] assms(2) False
      unfolding run if_not_P [OF keep] al by (simp add: opens_safely_def dropped_def within_limits_def)
  qed
qed

lemma tls_decrypted_safe:
  assumes "within_limits s" "n \<le> k"
  shows "opens_safely k s0 (tls_decrypted s ty plain n)"
proof -
  obtain ok seq where upd: "ssl_record_sequence_update (read_sequence s) 8 = (ok, seq)" by fastforce
  define s1 where "s1 = s\<lparr>skip_early_data := False, read_sequence := seq\<rparr>"
  have lim: "within_limits s1" using assms(1) by (simp add: s1_def within_limits_def)
  have run: "tls_decrypted s ty plain n =
     (if \<not> ok then ((dropped n)\<lparr>result := ssl_open_record_error, out_alert := Some SSL_AD_INTERNAL_ERROR\<rparr>, s1)
      else if hides_type s1 (aead_read_ctx s1) then
        (if ty \<noteq> SSL3_RT_APPLICATION_DATA then ((dropped n)\<lparr>result := ssl_open_record_error, out_alert := Some SSL_AD_DECODE_ERROR\<rparr>, s1)
         else (case strip_type plain of
                 None \<Rightarrow> ((dropped n)\<lparr>result := ssl_open_record_error, out_alert := Some SSL_AD_DECRYPT_ERROR\<rparr>, s1)
               | Some (type', plain') \<Rightarrow> tls_accept s1 type' plain' n))
      else tls_accept s1 ty plain n)"
    unfolding tls_decrypted_def upd prod.case Let_def s1_def ..
  have err: "opens_safely k s0 ((dropped n)\<lparr>result := ssl_open_record_error, out_alert := a\<rparr>, s1)" for a
    using assms(2) by (simp add: opens_safely_def dropped_def)
  show ?thesis
    unfolding run using err tls_accept_safe [OF lim assms(2)] by (auto split: option.splits prod.splits)
qed

lemma skip_data_safe: "within_limits s \<Longrightarrow> n \<le> k \<Longrightarrow> opens_safely k s0 (skip_data s n)"
  by (auto simp: skip_data_def opens_safely_def dropped_def within_limits_def Let_def)

lemma tls_open_record_opens_safely:
  assumes "within_limits s"
  shows "opens_safely (length inp) s (tls_open_record evp s inp (length inp))"
proof -
  define k where "k = length inp"
  have init: "CBS_init inp (length inp) = CBS_of inp []" using CBS_init_of [of k inp] by (simp add: k_def)
  have err: "n \<le> k \<Longrightarrow> opens_safely k s ((dropped n)\<lparr>result := ssl_open_record_error, out_alert := a\<rparr>, s)" for n a
    by (simp add: opens_safely_def dropped_def)
  obtain h cbs where h: "tls_parse_header s (CBS_of inp []) = (h, cbs)" by fastforce
  note parse = tls_parse_header_cases [OF h]
  show ?thesis
  proof (cases h)
    case None
    then show ?thesis using parse by simp
  next
    case (Some x)
    show ?thesis
    proof (cases x)
      case (Inl y)
      obtain res n a where y: "y = (res, n, a)" by (cases y)
      then show ?thesis using parse assms
        by (auto simp: tls_open_record_def init h Some Inl y opens_safely_def dropped_def k_def SSL3_RT_MAX_ENCRYPTED_LENGTH_def)
    next
      case (Inr y)
      obtain ty ver w hl where y: "y = (ty, ver, w, hl)" by (cases y)
      have hl: "hl \<le> k" "hl \<le> 5" and cbs: "cbs = CBS_of (drop hl inp) []" using parse by (simp_all add: Some Inr y k_def)
      note run = tls_open_record_def [of evp s inp "length inp", unfolded init h Some Inr y prod.case option.case sum.case Let_def]
      show ?thesis
      proof (cases "\<not> tls_version_ok s ver")
        case True
        show ?thesis unfolding run if_P [OF True] using err [of 0] by (simp add: k_def)
      next
        case vok: False
        show ?thesis
        proof (cases "unat w > SSL3_RT_MAX_ENCRYPTED_LENGTH")
          case True
          show ?thesis unfolding run if_not_P [OF vok] if_P [OF True] using err [of 0] by (simp add: k_def)
        next
          case fits: False
          note run = run [unfolded if_not_P [OF vok] if_not_P [OF fits]]
          show ?thesis
          proof (cases "length (drop hl inp) < unat w")
            case True
            then have "CBS_get_bytes (unat w) cbs = (None, cbs)" unfolding cbs by (simp add: view_simps)
            then show ?thesis unfolding run using True hl fits assms
              by (auto simp: opens_safely_def dropped_def k_def)
          next
            case False
            then have body: "CBS_get_bytes (unat w) cbs =
                (Some (CBS_of (take (unat w) (drop hl inp)) (drop (unat w) (drop hl inp) @ [])), CBS_of (drop (unat w) (drop hl inp)) [])"
              unfolding cbs by (simp add: view_simps)
            define n where "n = length inp - CBS_len (CBS_of (drop (unat w) (drop hl inp)) [])"
            have n: "n \<le> k" by (simp add: n_def k_def)
            show ?thesis
              unfolding run body prod.case option.case n_def [symmetric]
              using skip_data_safe [OF assms n] tls_decrypted_safe [OF assms n] err [OF n]
              by (auto simp: k_def split: option.splits)
          qed
        qed
      qed
    qed
  qed
qed

section \<open>Properties\<close>


text \<open>A record that has not arrived whole changes nothing: of any proper prefix of a sealed record
  \<open>tls_open_record\<close> says that it is partial, and asks for more bytes than there are and at most for the record.\<close>

theorem tls_record_partial:
  assumes "do_seal_record evp rand s out_p max_out ty in_p inp = (Some rec, s')" "in_step evp s r" "sendable s ty inp"
    "\<forall>n v. rand n = Some v \<longrightarrow> length v = n" "k < length rec"
  shows "\<exists>m. tls_open_record evp r (take k rec) k = ((dropped m)\<lparr>result := ssl_open_record_partial\<rparr>, r) \<and> k < m \<and> m \<le> length rec"
  by (rule tls_open_prefix [OF assms])

text \<open>C28: \<open>tls_seal_record\<close> writes no more than \<open>max_out\<close> bytes, and no more than \<open>SSL_max_seal_overhead\<close>
  says, for every version, header, cipher and splitting of records.\<close>

theorem tls_seal_bounded:
  assumes "tls_seal_record evp rand s out_p max_out ty in_p inp = (Some rec, s')" "length (write_sequence s) = 8"
    "\<forall>a. aead_write_ctx s = Some a \<longrightarrow> aead_ok evp a" "\<forall>n v. rand n = Some v \<longrightarrow> length v = n" "\<not> is_dtls s"
  shows "length rec \<le> max_out \<and> length rec \<le> length inp + SSL_max_seal_overhead evp s"
  by (rule tls_seal_record_bound [OF assms])

text \<open>C27: an attacker who writes any bytes to the wire gets neither a read beyond them nor unbounded work.
  \<open>tls_open_record\<close> consumes at most the input, or says that a record of at most the maximal length is
  partial and changes nothing; what it delivers is no alert and has at most 2^14 bytes; and unless it fails,
  the records that deliver nothing - empty ones, warnings, skipped early data - have stayed below their limits.\<close>

theorem tls_open_record_safe:
  assumes "tls_open_record evp s inp (length inp) = (r, s')" "within_limits s"
  shows "(if result r = ssl_open_record_partial
          then length inp < consumed r \<and> consumed r \<le> 5 + SSL3_RT_MAX_ENCRYPTED_LENGTH \<and> s' = s
          else consumed r \<le> length inp) \<and>
    (result r \<noteq> ssl_open_record_error \<longrightarrow> within_limits s') \<and>
    (result r = ssl_open_record_success \<longrightarrow> length (out r) \<le> SSL3_RT_MAX_PLAIN_LENGTH \<and> out_type r \<noteq> SSL3_RT_ALERT)"
  using tls_open_record_opens_safely [OF assms(2), of inp evp] unfolding assms(1) opens_safely_def prod.case .

section \<open>Concrete runs\<close>

text \<open>The two ends of a TLS 1.0 connection with a block cipher and record splitting, with the AEAD of \<open>SslAead\<close>.\<close>

definition sample_tls :: "u8 ssl" where
  "sample_tls = sample_ssl\<lparr>is_dtls := False, version := TLS1_VERSION, record_splitting := True,
     write_cipher := \<lparr>algorithm_enc = 2, algorithm_mac = 2\<rparr>\<rparr>"

definition sample_calls :: "seal_call list" where
  "sample_calls = [(0, 200, 23, 300, [10, 11, 12]), (0, 200, 22, 300, [13])]"

lemma sample_in_step: "in_step toy_evp sample_tls sample_tls"
  using gcm_ctx_ok
  by (simp add: in_step_def sample_tls_def sample_ssl_def ssl3_version_from_wire_def TLS1_VERSION_def SSL3_VERSION_def
      SSL_AEAD_CTX_max_overhead_def SSL_AEAD_CTX_explicit_nonce_len_def toy_evp_def gcm_ctx_def blank_ctx_def)


lemma tls_record_partial_witness:
  "case do_seal_record toy_evp (\<lambda>n. None) sample_tls 0 200 22 300 [13] of
     (None, s') \<Rightarrow> False
   | (Some rec, s') \<Rightarrow> \<exists>m > 7. tls_open_record toy_evp sample_tls (take 7 rec) 7 =
       ((dropped m)\<lparr>result := ssl_open_record_partial\<rparr>, sample_tls)"
proof -
  obtain rec s' where r: "do_seal_record toy_evp (\<lambda>n. None) sample_tls 0 200 22 300 [13] = (Some rec, s')" and "length rec = 30"
  proof -
    have "case do_seal_record toy_evp (\<lambda>n. None) sample_tls 0 200 22 300 [13] of
        (None, s') \<Rightarrow> False | (Some rec, s') \<Rightarrow> length rec = 30" by code_simp
    then show thesis using that by (auto split: prod.splits option.splits)
  qed
  moreover have "sendable sample_tls 22 [13]" by code_simp
  ultimately show ?thesis
    using tls_record_partial [OF r sample_in_step, of 7] unfolding r by auto
qed

lemma tls_seal_bounded_witness:
  "case tls_seal_record toy_evp (\<lambda>n. None) sample_tls 0 200 23 300 [10, 11, 12] of
     (None, s') \<Rightarrow> False
   | (Some rec, s') \<Rightarrow> length rec = 61 \<and> length rec \<le> 3 + SSL_max_seal_overhead toy_evp sample_tls"
proof -
  obtain rec s' where r: "tls_seal_record toy_evp (\<lambda>n. None) sample_tls 0 200 23 300 [10, 11, 12] = (Some rec, s')" "length rec = 61"
  proof -
    have "case tls_seal_record toy_evp (\<lambda>n. None) sample_tls 0 200 23 300 [10, 11, 12] of
        (None, s') \<Rightarrow> False | (Some rec, s') \<Rightarrow> length rec = 61" by code_simp
    then show thesis using that by (auto split: prod.splits option.splits)
  qed
  have "length rec \<le> length [10, 11, 12 :: u8] + SSL_max_seal_overhead toy_evp sample_tls"
    using tls_seal_bounded [OF r(1)] sample_in_step by (simp add: in_step_def)
  then show ?thesis using r by simp
qed

lemma tls_open_record_safe_witness:
  "case tls_open_record toy_evp sample_tls [22, 3, 1, 0, 0, 9] 6 of
     (r, s') \<Rightarrow> result r = ssl_open_record_error \<and> consumed r \<le> 6"
proof -
  obtain r s' where r: "tls_open_record toy_evp sample_tls [22, 3, 1, 0, 0, 9] (length [22, 3, 1, 0, 0, 9 :: u8]) = (r, s')"
    and err: "result r = ssl_open_record_error"
  proof -
    have "case tls_open_record toy_evp sample_tls [22, 3, 1, 0, 0, 9] (length [22, 3, 1, 0, 0, 9 :: u8]) of
        (r, s') \<Rightarrow> result r = ssl_open_record_error" by code_simp
    then show thesis using that by (auto split: prod.splits)
  qed
  have "within_limits sample_tls" by code_simp
  note safe = tls_open_record_safe [OF r this]
  have six: "length [22, 3, 1, 0, 0, 9 :: u8] = 6" by simp
  from r safe err show ?thesis unfolding six by simp
qed

end
