(* ===== verification/BioPair.thy ===== *)
theory BioPair
  imports Prelude
begin

text \<open>
  The in-memory pairs of \<open>crypto/bio/pair.c\<close>: two BIOs, each with a ring buffer for what is
  written to it and read from its peer; and the part of \<open>crypto/bio/bio.c\<close> through which they are
  called. The BIOs live in a heap, a pointer is an address. BIOs have no callbacks here and no next BIO.
  The \<open>assert\<close>s of the code are not part of the operations; they follow from the invariants \<open>ring_ok\<close>
  and \<open>pair_ok\<close>. The copying loops are partial functions: \<open>None\<close> is a loop that does not end.
\<close>

section \<open>State\<close>

record bio_bio_st =
  peer :: "nat option"
  closed :: bool
  len :: nat
  offset :: nat
  size :: nat
  buf :: "bytes option"
  request :: nat

record bio =
  init :: bool
  shutdown :: int
  flags :: u32
  retry_reason :: int
  references :: u32
  ptr :: "bio_bio_st option"
  num_read :: nat
  num_write :: nat

type_synonym heap = "nat \<rightharpoonup> bio"

definition bio_at :: "heap \<Rightarrow> nat \<Rightarrow> bio" where
  "bio_at h a = the (h a)"

definition st_at :: "heap \<Rightarrow> nat \<Rightarrow> bio_bio_st" where
  "st_at h a = the (ptr (bio_at h a))"

definition upd_bio :: "nat \<Rightarrow> (bio \<Rightarrow> bio) \<Rightarrow> heap \<Rightarrow> heap" where
  "upd_bio a f h = h(a \<mapsto> f (bio_at h a))"

definition upd_st :: "nat \<Rightarrow> (bio_bio_st \<Rightarrow> bio_bio_st) \<Rightarrow> heap \<Rightarrow> heap" where
  "upd_st a f = upd_bio a (\<lambda>x. x\<lparr>ptr := Some (f (the (ptr x)))\<rparr>)"

section \<open>Flags of a BIO\<close>

definition BIO_FLAGS_READ :: u32 where "BIO_FLAGS_READ = 0x01"
definition BIO_FLAGS_WRITE :: u32 where "BIO_FLAGS_WRITE = 0x02"
definition BIO_FLAGS_IO_SPECIAL :: u32 where "BIO_FLAGS_IO_SPECIAL = 0x04"
definition BIO_FLAGS_SHOULD_RETRY :: u32 where "BIO_FLAGS_SHOULD_RETRY = 0x08"

definition BIO_set_flags :: "u32 \<Rightarrow> bio \<Rightarrow> bio" where
  "BIO_set_flags f b = b\<lparr>flags := flags b OR f\<rparr>"

definition BIO_test_flags :: "bio \<Rightarrow> u32 \<Rightarrow> u32" where
  "BIO_test_flags b f = flags b AND f"

definition BIO_should_read :: "bio \<Rightarrow> bool" where
  "BIO_should_read b \<longleftrightarrow> BIO_test_flags b BIO_FLAGS_READ \<noteq> 0"

definition BIO_should_write :: "bio \<Rightarrow> bool" where
  "BIO_should_write b \<longleftrightarrow> BIO_test_flags b BIO_FLAGS_WRITE \<noteq> 0"

definition BIO_should_retry :: "bio \<Rightarrow> bool" where
  "BIO_should_retry b \<longleftrightarrow> BIO_test_flags b BIO_FLAGS_SHOULD_RETRY \<noteq> 0"

definition BIO_clear_flags :: "u32 \<Rightarrow> bio \<Rightarrow> bio" where
  "BIO_clear_flags f b = b\<lparr>flags := flags b AND NOT f\<rparr>"

definition BIO_set_retry_read :: "bio \<Rightarrow> bio" where
  "BIO_set_retry_read b = b\<lparr>flags := flags b OR (BIO_FLAGS_READ OR BIO_FLAGS_SHOULD_RETRY)\<rparr>"

definition BIO_set_retry_write :: "bio \<Rightarrow> bio" where
  "BIO_set_retry_write b = b\<lparr>flags := flags b OR (BIO_FLAGS_WRITE OR BIO_FLAGS_SHOULD_RETRY)\<rparr>"

definition kRetryFlags :: u32 where
  "kRetryFlags = (BIO_FLAGS_READ OR BIO_FLAGS_WRITE OR BIO_FLAGS_IO_SPECIAL) OR BIO_FLAGS_SHOULD_RETRY"

definition BIO_get_retry_flags :: "bio \<Rightarrow> u32" where
  "BIO_get_retry_flags b = flags b AND kRetryFlags"

definition BIO_clear_retry_flags :: "bio \<Rightarrow> bio" where
  "BIO_clear_retry_flags b = b\<lparr>flags := flags b AND NOT kRetryFlags, retry_reason := 0\<rparr>"

section \<open>The ring buffer\<close>

text \<open>One round of the loop of \<open>bio_read\<close>, and the loop: what it copies out, and the buffer after it.\<close>

definition read_chunk :: "bio_bio_st \<Rightarrow> nat \<Rightarrow> nat" where
  "read_chunk b rest = (if size_add (offset b) rest \<le> size b then rest else size b - offset b)"

definition read_step :: "bio_bio_st \<Rightarrow> nat \<Rightarrow> bytes \<times> bio_bio_st" where
  "read_step b chunk =
     (take chunk (drop (offset b) (the (buf b))),
      let n = len b - chunk in
      if n \<noteq> 0 then
        (let off = size_add (offset b) chunk in b\<lparr>len := n, offset := (if off = size b then 0 else off)\<rparr>)
      else b\<lparr>len := n, offset := 0\<rparr>)"

partial_function (option) read_loop :: "bio_bio_st \<Rightarrow> nat \<Rightarrow> (bytes \<times> bio_bio_st) option" where
  "read_loop b rest =
     (let chunk = read_chunk b rest; (out, b') = read_step b chunk
      in if rest - chunk = 0 then Some (out, b')
         else Option.bind (read_loop b' (rest - chunk)) (\<lambda>(out', b''). Some (out @ out', b'')))"

definition write_at :: "bio_bio_st \<Rightarrow> nat" where
  "write_at b =
     (let w = size_add (offset b) (len b) in if w \<ge> size b then w - size b else w)"

definition write_chunk :: "bio_bio_st \<Rightarrow> nat \<Rightarrow> nat" where
  "write_chunk b rest = (if size_add (write_at b) rest \<le> size b then rest else size b - write_at b)"

definition write_step :: "bio_bio_st \<Rightarrow> bytes \<Rightarrow> bio_bio_st" where
  "write_step b xs = b\<lparr>buf := Some (blit (the (buf b)) (write_at b) xs), len := len b + length xs\<rparr>"

partial_function (option) write_loop :: "bio_bio_st \<Rightarrow> bytes \<Rightarrow> bio_bio_st option" where
  "write_loop b xs =
     (let chunk = write_chunk b (length xs); b' = write_step b (take chunk xs)
      in if length xs - chunk = 0 then Some b' else write_loop b' (drop chunk xs))"

section \<open>The operations\<close>

text \<open>An \<open>int\<close> as a \<open>size_t\<close>, and a \<open>size_t\<close> as a \<open>long\<close>.\<close>

definition to_size :: "int \<Rightarrow> nat" where
  "to_size n = nat (n mod 2 ^ 64)"

definition to_long :: "nat \<Rightarrow> int" where
  "to_long n = sint (of_nat n :: 64 word)"

definition bio_new :: "bio \<Rightarrow> env \<Rightarrow> bio option \<times> env" where
  "bio_new b e =
     (if \<not> malloc_ok e then (None, tick e)
      else (Some (b\<lparr>ptr := Some \<lparr>peer = None, closed = False, len = 0, offset = 0, size = 17 * 1024,
                                 buf = None, request = 0\<rparr>\<rparr>), tick e))"

definition bio_destroy_pair :: "nat \<Rightarrow> heap \<Rightarrow> heap" where
  "bio_destroy_pair a h =
     (case ptr (bio_at h a) of
        None \<Rightarrow> h
      | Some b \<Rightarrow>
          (case peer b of
             None \<Rightarrow> h
           | Some p \<Rightarrow>
               (upd_bio a (\<lambda>x. x\<lparr>init := False\<rparr>) \<circ> upd_st a (\<lambda>b. b\<lparr>peer := None, len := 0, offset := 0\<rparr>) \<circ>
                upd_bio p (\<lambda>x. x\<lparr>init := False\<rparr>) \<circ> upd_st p (\<lambda>b. b\<lparr>peer := None, len := 0, offset := 0\<rparr>)) h))"

definition bio_free :: "nat option \<Rightarrow> heap \<Rightarrow> int \<times> heap" where
  "bio_free oa h =
     (case oa of
        None \<Rightarrow> (0, h)
      | Some a \<Rightarrow>
          let h1 = (if peer (st_at h a) \<noteq> None then bio_destroy_pair a h else h)
          in (1, upd_bio a (\<lambda>x. x\<lparr>ptr := None\<rparr>) h1))"

text \<open>\<open>has_buf\<close> says that the caller's buffer is not \<open>NULL\<close>; the second component is what is written to it.\<close>

definition bio_read :: "nat \<Rightarrow> bool \<Rightarrow> int \<Rightarrow> heap \<Rightarrow> ((int \<times> bytes) \<times> heap) option" where
  "bio_read a has_buf size0 h0 =
     (let n = to_size size0; h = upd_bio a BIO_clear_retry_flags h0 in
      if \<not> init (bio_at h a) then Some ((0, []), h)
      else
        let p = the (peer (st_at h a)); h = upd_st p (\<lambda>b. b\<lparr>request := 0\<rparr>) h; pb = st_at h p in
        if \<not> has_buf \<or> n = 0 then Some ((0, []), h)
        else if len pb = 0 then
          (if closed pb then Some ((0, []), h)
           else Some ((- 1, []), upd_st p (\<lambda>b. b\<lparr>request := (if n \<le> size b then n else size b)\<rparr>)
                                 (upd_bio a BIO_set_retry_read h)))
        else
          let n = (if len pb < n then len pb else n) in
          Option.bind (read_loop pb n) (\<lambda>(out, pb'). Some ((int n, out), upd_st p (\<lambda>_. pb') h)))"

definition bio_write :: "nat \<Rightarrow> bytes option \<Rightarrow> int \<Rightarrow> heap \<Rightarrow> (int \<times> heap) option" where
  "bio_write a src num0 h0 =
     (let num = to_size num0; h = upd_bio a BIO_clear_retry_flags h0 in
      if \<not> init (bio_at h a) \<or> src = None \<or> num = 0 then Some (0, h)
      else
        let h = upd_st a (\<lambda>b. b\<lparr>request := 0\<rparr>) h; b = st_at h a in
        if closed b then Some (- 1, h)
        else if len b = size b then Some (- 1, upd_bio a BIO_set_retry_write h)
        else
          let num = (if num > size b - len b then size b - len b else num) in
          Option.bind (write_loop b (take num (the src))) (\<lambda>b'. Some (int num, upd_st a (\<lambda>_. b') h)))"

text \<open>\<open>bio_make_pair\<close>, first the allocation of the buffer of one side.\<close>

definition alloc_ring :: "nat \<Rightarrow> nat \<Rightarrow> heap \<Rightarrow> env \<Rightarrow> bool \<times> heap \<times> env" where
  "alloc_ring a writebuf_len h e =
     (let b = st_at h a in
      if buf b \<noteq> None then (True, h, e)
      else
        let n = (if writebuf_len \<noteq> 0 then writebuf_len else size b); h1 = upd_st a (\<lambda>b. b\<lparr>size := n\<rparr>) h in
        (case libc_malloc n e of
           (None, e') \<Rightarrow> (False, h1, e')
         | (Some p, e') \<Rightarrow> (True, upd_st a (\<lambda>b. b\<lparr>buf := Some p, len := 0, offset := 0\<rparr>) h1, e')))"

definition bio_make_pair :: "nat \<Rightarrow> nat \<Rightarrow> nat \<Rightarrow> nat \<Rightarrow> heap \<Rightarrow> env \<Rightarrow> bool \<times> heap \<times> env" where
  "bio_make_pair a1 a2 writebuf1_len writebuf2_len h e =
     (if peer (st_at h a1) \<noteq> None \<or> peer (st_at h a2) \<noteq> None then (False, h, e)
      else
        (case alloc_ring a1 writebuf1_len h e of
           (False, h1, e1) \<Rightarrow> (False, h1, e1)
         | (True, h1, e1) \<Rightarrow>
             (case alloc_ring a2 writebuf2_len h1 e1 of
                (False, h2, e2) \<Rightarrow> (False, h2, e2)
              | (True, h2, e2) \<Rightarrow>
                  (True,
                   (upd_bio a2 (\<lambda>x. x\<lparr>init := True\<rparr>) \<circ> upd_bio a1 (\<lambda>x. x\<lparr>init := True\<rparr>) \<circ>
                    upd_st a2 (\<lambda>b. b\<lparr>peer := Some a1, closed := False, request := 0\<rparr>) \<circ>
                    upd_st a1 (\<lambda>b. b\<lparr>peer := Some a2, closed := False, request := 0\<rparr>)) h2, e2))))"

datatype ctrl =
    GET_WRITE_BUF_SIZE | GET_WRITE_GUARANTEE | GET_READ_REQUEST | RESET_READ_REQUEST | SHUTDOWN_WR
  | GET_CLOSE | SET_CLOSE | PENDING | WPENDING | FLUSH | EOF | OTHER

definition bio_ctrl :: "nat \<Rightarrow> ctrl \<Rightarrow> int \<Rightarrow> nat option \<Rightarrow> heap \<Rightarrow> int \<times> heap" where
  "bio_ctrl a cmd n p h =
     (let b = st_at h a in
      case cmd of
        GET_WRITE_BUF_SIZE \<Rightarrow> (to_long (size b), h)
      | GET_WRITE_GUARANTEE \<Rightarrow> (if peer b = None \<or> closed b then 0 else to_long (size b - len b), h)
      | GET_READ_REQUEST \<Rightarrow> (to_long (request b), h)
      | RESET_READ_REQUEST \<Rightarrow> (1, upd_st a (\<lambda>b. b\<lparr>request := 0\<rparr>) h)
      | SHUTDOWN_WR \<Rightarrow> (1, upd_st a (\<lambda>b. b\<lparr>closed := True\<rparr>) h)
      | GET_CLOSE \<Rightarrow> (shutdown (bio_at h a), h)
      | SET_CLOSE \<Rightarrow> (1, upd_bio a (\<lambda>x. x\<lparr>shutdown := n\<rparr>) h)
      | PENDING \<Rightarrow> ((case peer b of None \<Rightarrow> 0 | Some q \<Rightarrow> to_long (len (st_at h q))), h)
      | WPENDING \<Rightarrow> (if buf b \<noteq> None then to_long (len b) else 0, h)
      | FLUSH \<Rightarrow> (1, h)
      | EOF \<Rightarrow> ((case p of None \<Rightarrow> 1 | Some q \<Rightarrow> if len (st_at h q) = 0 \<and> closed (st_at h q) then 1 else 0), h)
      | OTHER \<Rightarrow> (0, h))"

text \<open>\<open>BIO_new(bio_s_bio())\<close>: the object before it is stored.\<close>

definition BIO_new :: "env \<Rightarrow> bio option \<times> env" where
  "BIO_new e =
     (if \<not> malloc_ok e then (None, tick e)
      else bio_new \<lparr>init = False, shutdown = 1, flags = 0, retry_reason = 0, references = 1, ptr = None,
                    num_read = 0, num_write = 0\<rparr> (tick e))"

text \<open>The new BIOs get the free addresses \<open>a1\<close> and \<open>a2\<close>; on failure nothing of them is left.\<close>

definition BIO_new_bio_pair :: "nat \<Rightarrow> nat \<Rightarrow> nat \<Rightarrow> nat \<Rightarrow> heap \<Rightarrow> env \<Rightarrow> bool \<times> heap \<times> env" where
  "BIO_new_bio_pair a1 a2 writebuf1_len writebuf2_len h e =
     (case BIO_new e of (x1, e1) \<Rightarrow> (case BIO_new e1 of (x2, e2) \<Rightarrow>
        (case (x1, x2) of
           (Some b1, Some b2) \<Rightarrow>
             (case bio_make_pair a1 a2 writebuf1_len writebuf2_len (h(a1 \<mapsto> b1, a2 \<mapsto> b2)) e2 of
                (True, h', e') \<Rightarrow> (True, h', e')
              | (False, h', e') \<Rightarrow> (False, h, e'))
         | _ \<Rightarrow> (False, h, e2))))"

definition BIO_read :: "nat \<Rightarrow> bool \<Rightarrow> int \<Rightarrow> heap \<Rightarrow> ((int \<times> bytes) \<times> heap) option" where
  "BIO_read a has_buf n h =
     (if \<not> init (bio_at h a) then Some ((- 2, []), h)
      else if \<not> (has_buf \<and> n > 0) then Some ((0, []), h)
      else Option.bind (bio_read a has_buf n h) (\<lambda>((i, out), h').
             Some ((i, out), if i > 0 then upd_bio a (\<lambda>x. x\<lparr>num_read := num_read x + nat i\<rparr>) h' else h')))"

definition BIO_write :: "nat \<Rightarrow> bytes option \<Rightarrow> int \<Rightarrow> heap \<Rightarrow> (int \<times> heap) option" where
  "BIO_write a src n h =
     (if \<not> init (bio_at h a) then Some (- 2, h)
      else if \<not> (src \<noteq> None \<and> n > 0) then Some (0, h)
      else Option.bind (bio_write a src n h) (\<lambda>(i, h').
             Some (i, if i > 0 then upd_bio a (\<lambda>x. x\<lparr>num_write := num_write x + nat i\<rparr>) h' else h')))"

definition BIO_ctrl_get_read_request :: "nat \<Rightarrow> heap \<Rightarrow> int \<times> heap" where
  "BIO_ctrl_get_read_request a = bio_ctrl a GET_READ_REQUEST 0 None"

definition BIO_ctrl_get_write_guarantee :: "nat \<Rightarrow> heap \<Rightarrow> int \<times> heap" where
  "BIO_ctrl_get_write_guarantee a = bio_ctrl a GET_WRITE_GUARANTEE 0 None"

definition BIO_shutdown_wr :: "nat \<Rightarrow> heap \<Rightarrow> int \<times> heap" where
  "BIO_shutdown_wr a = bio_ctrl a SHUTDOWN_WR 0 None"

section \<open>The ring buffer as a queue\<close>

text \<open>The cell \<open>n\<close> places after the start of the block, around its end.\<close>

definition wrap :: "nat \<Rightarrow> nat \<Rightarrow> nat" where
  "wrap s n = (if n < s then n else n - s)"

definition ring :: "bio_bio_st \<Rightarrow> bytes" where
  "ring b = map (\<lambda>i. the (buf b) ! wrap (size b) (offset b + i)) [0..<len b]"

definition ring_ok :: "bio_bio_st \<Rightarrow> bool" where
  "ring_ok b \<longleftrightarrow>
     (\<exists>bs. buf b = Some bs \<and> length bs = size b) \<and> 0 < size b \<and> size b < 2 ^ 63 \<and> len b \<le> size b \<and> offset b < size b"

lemma ring_okE:
  assumes "ring_ok b"
  obtains bs where "buf b = Some bs" "length bs = size b" "0 < size b" "size b < 2 ^ 63" "len b \<le> size b" "offset b < size b"
  using assms by (auto simp: ring_ok_def)

lemma length_ring [simp]: "length (ring b) = len b"
  by (simp add: ring_def)

lemma ring_nth: "i < len b \<Longrightarrow> ring b ! i = the (buf b) ! wrap (size b) (offset b + i)"
  by (simp add: ring_def)

lemma read_chunk_eq:
  assumes "ring_ok b" "rest \<le> len b"
  shows "read_chunk b rest = min rest (size b - offset b)"
proof -
  have "offset b + rest \<le> SIZE_MAX" using assms by (auto elim!: ring_okE)
  then show ?thesis by (auto simp: read_chunk_def)
qed

text \<open>One round copies the bytes at the front of the queue and takes them off it.\<close>

lemma read_step_ring:
  assumes "ring_ok b" "c \<le> len b" "offset b + c \<le> size b" "read_step b c = (out, b')"
  shows "out = take c (ring b)" "ring b' = drop c (ring b)" "ring_ok b'" "len b' = len b - c"
    "b' = b\<lparr>len := len b', offset := offset b'\<rparr>" "len b' \<noteq> 0 \<Longrightarrow> offset b + c = size b \<Longrightarrow> offset b' = 0"
proof -
  obtain bs where bs: "buf b = Some bs" "length bs = size b" "0 < size b" "size b < 2 ^ 63" "len b \<le> size b" "offset b < size b"
    by (rule ring_okE [OF assms(1)])
  have off: "size_add (offset b) c = offset b + c" using bs assms(3) by simp
  have b': "len b' = len b - c" "buf b' = buf b" "size b' = size b"
    "offset b' = (if len b - c = 0 then 0 else if offset b + c = size b then 0 else offset b + c)"
    using assms(4) by (auto simp: read_step_def off Let_def)
  show "out = take c (ring b)"
  proof (rule nth_equalityI)
    show "length out = length (take c (ring b))" using assms bs by (auto simp: read_step_def)
    fix i
    assume "i < length out"
    then have "i < c" using assms by (auto simp: read_step_def)
    then show "out ! i = take c (ring b) ! i"
      using assms bs by (auto simp: read_step_def ring_nth wrap_def)
  qed
  show "ring b' = drop c (ring b)"
  proof (rule nth_equalityI)
    fix i
    assume "i < length (ring b')"
    then have i: "i < len b - c" using b' by simp
    then have "wrap (size b) (offset b' + i) = wrap (size b) (offset b + (c + i))"
      using b'(4) bs assms(2,3) by (auto simp: wrap_def)
    then show "ring b' ! i = drop c (ring b) ! i"
      using i b' assms(2) by (simp add: ring_nth)
  qed (use b' in simp)
  show "ring_ok b'" using b' bs assms(2,3) by (auto simp: ring_ok_def)
  show "len b' = len b - c" by (rule b'(1))
  show "b' = b\<lparr>len := len b', offset := offset b'\<rparr>"
    using assms(4) by (auto simp: read_step_def off Let_def)
  show "len b' \<noteq> 0 \<Longrightarrow> offset b + c = size b \<Longrightarrow> offset b' = 0" using b' by simp
qed

lemma read_loop_once:
  assumes "read_chunk b rest = rest" "read_step b rest = (out, b')"
  shows "read_loop b rest = Some (out, b')"
  using assms by (subst read_loop.simps) simp

text \<open>The loop reads from the front, in one or two rounds.\<close>

lemma read_loop_ring:
  assumes "ring_ok b" "0 < n" "n \<le> len b"
  obtains b' where "read_loop b n = Some (take n (ring b), b')" "ring_ok b'" "ring b' = drop n (ring b)"
    "b' = b\<lparr>len := len b - n, offset := offset b'\<rparr>"
proof -
  define c where "c = min n (size b - offset b)"
  have chunk: "read_chunk b n = c" unfolding c_def by (rule read_chunk_eq [OF assms(1,3)])
  obtain out b1 where step: "read_step b c = (out, b1)" by fastforce
  have c: "c \<le> len b" "offset b + c \<le> size b" using assms by (auto simp: c_def elim!: ring_okE)
  note s = read_step_ring [OF assms(1) c step]
  show thesis
  proof (cases "c = n")
    case True
    then show thesis using that read_loop_once [of b n out b1] chunk step s by metis
  next
    case False
    then have less: "c < n" "c = size b - offset b" by (auto simp: c_def)
    have full: "offset b + c = size b" using less(2) assms(1) by (auto elim!: ring_okE)
    then have b1: "offset b1 = 0" "n - c \<le> len b1" using s less assms(3) by auto
    have "size b1 = size b" by (subst s(5)) simp
    moreover have "n - c \<le> size b" using assms(1,3) by (auto elim!: ring_okE)
    ultimately have "read_chunk b1 (n - c) = n - c"
      using read_chunk_eq [OF s(3) b1(2)] b1(1) by simp
    moreover obtain out2 b2 where step2: "read_step b1 (n - c) = (out2, b2)" by fastforce
    ultimately have once: "read_loop b1 (n - c) = Some (out2, b2)" by (rule read_loop_once)
    have fit: "offset b1 + (n - c) \<le> size b1"
      using b1 s(3) by (auto elim!: ring_okE)
    note s2 = read_step_ring [OF s(3) b1(2) fit step2]
    have "read_loop b n = Some (out @ out2, b2)"
      using once less(1) chunk step by (subst read_loop.simps) simp
    moreover have "out @ out2 = take n (ring b)"
      using s(1,2) s2(1) less(1) by (metis add_diff_inverse_nat less_imp_le not_less take_add)
    moreover have "ring b2 = drop n (ring b)" using s(2) s2(2) less(1) by simp
    moreover have "b2 = b\<lparr>len := len b - n, offset := offset b2\<rparr>"
    proof -
      obtain l1 o1 where e1: "b1 = b\<lparr>len := l1, offset := o1\<rparr>" using s(5) by blast
      obtain l2 o2 where e2: "b2 = b1\<lparr>len := l2, offset := o2\<rparr>" using s2(5) by blast
      have "len b2 = len b - n" using s(4) s2(4) less(1) by simp
      then show ?thesis by (simp add: e1 e2)
    qed
    ultimately show thesis using that s2(3) by metis
  qed
qed

lemma write_at_eq: "ring_ok b \<Longrightarrow> write_at b = wrap (size b) (offset b + len b)"
  by (auto simp: write_at_def wrap_def Let_def elim!: ring_okE)

lemma write_step_ring:
  assumes "ring_ok b" "len b + length xs \<le> size b" "write_at b + length xs \<le> size b"
  shows "ring (write_step b xs) = ring b @ xs" "ring_ok (write_step b xs)"
    "write_step b xs = b\<lparr>len := len b + length xs, buf := buf (write_step b xs)\<rparr>"
proof -
  obtain bs where bs: "buf b = Some bs" "length bs = size b" "0 < size b" "size b < 2 ^ 63" "len b \<le> size b" "offset b < size b"
    by (rule ring_okE [OF assms(1)])
  have w: "write_at b = wrap (size b) (offset b + len b)" by (rule write_at_eq [OF assms(1)])
  show "ring (write_step b xs) = ring b @ xs"
  proof (rule nth_equalityI)
    fix i
    assume "i < length (ring (write_step b xs))"
    then have i: "i < len b + length xs" by (simp add: write_step_def)
    have "ring (write_step b xs) ! i = blit bs (write_at b) xs ! wrap (size b) (offset b + i)"
      using i bs by (subst ring_nth) (simp_all add: write_step_def)
    also have "\<dots> = (if i < len b then bs ! wrap (size b) (offset b + i) else xs ! (i - len b))"
      using i bs assms(2,3) by (subst nth_blit) (auto simp: w wrap_def split: if_splits)
    also have "\<dots> = (ring b @ xs) ! i" using bs by (simp add: nth_append ring_nth)
    finally show "ring (write_step b xs) ! i = (ring b @ xs) ! i" .
  qed (simp add: write_step_def)
  show "ring_ok (write_step b xs)" using bs assms(2,3) by (simp add: ring_ok_def write_step_def)
  show "write_step b xs = b\<lparr>len := len b + length xs, buf := buf (write_step b xs)\<rparr>"
    by (simp add: write_step_def)
qed

lemma write_loop_once:
  assumes "write_chunk b (length xs) = length xs"
  shows "write_loop b xs = Some (write_step b xs)"
  using assms by (subst write_loop.simps) simp

text \<open>The loop appends at the end, in one or two rounds.\<close>

lemma write_loop_ring:
  assumes "ring_ok b" "xs \<noteq> []" "len b + length xs \<le> size b"
  obtains b' where "write_loop b xs = Some b'" "ring_ok b'" "ring b' = ring b @ xs"
    "b' = b\<lparr>len := len b + length xs, buf := buf b'\<rparr>"
proof -
  have w: "write_at b = wrap (size b) (offset b + len b)" by (rule write_at_eq [OF assms(1)])
  have room: "write_at b < size b" using assms(1) by (auto simp: w wrap_def elim!: ring_okE)
  have big: "write_at b + length xs \<le> SIZE_MAX" using room assms(1,3) by (auto elim!: ring_okE)
  define c where "c = min (length xs) (size b - write_at b)"
  have chunk: "write_chunk b (length xs) = c" using big by (auto simp: write_chunk_def c_def)
  show thesis
  proof (cases "c = length xs")
    case True
    then have "write_at b + length xs \<le> size b" using room by (auto simp: c_def)
    then show thesis
      using that [of "write_step b xs"] write_step_ring [OF assms(1,3)] write_loop_once [of b xs] chunk True by simp
  next
    case False
    then have less: "c < length xs" "c = size b - write_at b" by (auto simp: c_def)
    define b1 where "b1 = write_step b (take c xs)"
    have len: "length (take c xs) = c" using less by simp
    have "len b + length (take c xs) \<le> size b" "write_at b + length (take c xs) \<le> size b"
      using assms(3) less room by simp_all
    note s = write_step_ring [OF assms(1) this, folded b1_def, unfolded len]
    have b1: "len b1 = len b + c" "size b1 = size b" "offset b1 = offset b" by (subst s(3), simp)+
    have "offset b < size b" "len b \<le> size b" using assms(1) by (auto elim!: ring_okE)
    then have w1: "write_at b1 = 0"
      unfolding write_at_eq [OF s(2)] b1 using less room assms(3) w by (auto simp: wrap_def split: if_splits)
    have "length (drop c xs) \<le> size b" using assms(3) by simp
    then have "write_chunk b1 (length (drop c xs)) = length (drop c xs)"
      using w1 b1(2) big less by (simp add: write_chunk_def)
    note once = write_loop_once [OF this]
    have "len b1 + length (drop c xs) \<le> size b1" "write_at b1 + length (drop c xs) \<le> size b1"
      using assms(3) less b1 w1 by simp_all
    note s2 = write_step_ring [OF s(2) this]
    have "write_loop b xs = Some (write_step b1 (drop c xs))"
      using once less(1) chunk by (subst write_loop.simps) (simp add: b1_def)
    moreover have "ring (write_step b1 (drop c xs)) = ring b @ xs" using s(1) s2(1) by simp
    moreover have "write_step b1 (drop c xs) = b\<lparr>len := len b + length xs, buf := buf (write_step b1 (drop c xs))\<rparr>"
      using less(1) by (simp add: b1_def write_step_def)
    ultimately show thesis using that s2(2) by metis
  qed
qed

section \<open>Byte channels\<close>

text \<open>
  What a reader and a writer rely on: of what is offered a prefix is accepted and goes to the end, and
  what is delivered comes from the front. The bytes delivered are then those accepted, in order, and
  what is left is the rest.
\<close>

locale byte_channel =
  fixes ok :: "'q \<Rightarrow> bool" and contents :: "'q \<Rightarrow> bytes"
    and offer :: "bytes \<Rightarrow> 'q \<Rightarrow> (nat \<times> 'q) option" and fetch :: "nat \<Rightarrow> 'q \<Rightarrow> (bytes \<times> 'q) option"
  assumes offer: "ok q \<Longrightarrow> \<exists>n q'. offer xs q = Some (n, q') \<and> ok q' \<and> n \<le> length xs \<and> contents q' = contents q @ take n xs"
    and fetch: "ok q \<Longrightarrow> \<exists>ys q'. fetch k q = Some (ys, q') \<and> ok q' \<and> length ys \<le> k \<and> contents q = ys @ contents q'"
begin

text \<open>A session of offers (\<open>Inl\<close>) and fetches (\<open>Inr\<close>): all bytes accepted, all bytes delivered.\<close>

fun transfer :: "(bytes + nat) list \<Rightarrow> 'q \<Rightarrow> ((bytes \<times> bytes) \<times> 'q) option" where
  "transfer [] q = Some (([], []), q)"
| "transfer (Inl xs # cs) q =
     Option.bind (offer xs q) (\<lambda>(n, q'). Option.bind (transfer cs q') (\<lambda>((i, d), q''). Some ((take n xs @ i, d), q'')))"
| "transfer (Inr k # cs) q =
     Option.bind (fetch k q) (\<lambda>(ys, q'). Option.bind (transfer cs q') (\<lambda>((i, d), q''). Some ((i, ys @ d), q'')))"

lemma transfer_fifo:
  "ok q \<Longrightarrow> \<exists>i d q'. transfer cs q = Some ((i, d), q') \<and> ok q' \<and> contents q @ i = d @ contents q'"
proof (induction cs arbitrary: q)
  case (Cons c cs)
  show ?case
  proof (cases c)
    case (Inl xs)
    obtain n q1 where o: "offer xs q = Some (n, q1)" "ok q1" "contents q1 = contents q @ take n xs"
      using offer [OF Cons.prems] by blast
    obtain i d q2 where t: "transfer cs q1 = Some ((i, d), q2)" "ok q2" "contents q1 @ i = d @ contents q2"
      using Cons.IH [OF o(2)] by blast
    then show ?thesis using Inl o by simp
  next
    case (Inr k)
    obtain ys q1 where f: "fetch k q = Some (ys, q1)" "ok q1" "contents q = ys @ contents q1"
      using fetch [OF Cons.prems] by blast
    obtain i d q2 where t: "transfer cs q1 = Some ((i, d), q2)" "ok q2" "contents q1 @ i = d @ contents q2"
      using Cons.IH [OF f(2)] by blast
    then show ?thesis using Inr f by simp
  qed
qed simp

end

section \<open>A pair as two bounded queues\<close>

text \<open>Two BIOs that are connected to each other.\<close>

definition has_st :: "heap \<Rightarrow> nat \<Rightarrow> bool" where
  "has_st h a \<longleftrightarrow> ptr (bio_at h a) \<noteq> None"

definition side_ok :: "heap \<Rightarrow> nat \<Rightarrow> nat \<Rightarrow> bool" where
  "side_ok h a b \<longleftrightarrow>
     init (bio_at h a) \<and> has_st h a \<and> peer (st_at h a) = Some b \<and> ring_ok (st_at h a)"

definition pair_ok :: "heap \<Rightarrow> nat \<Rightarrow> nat \<Rightarrow> bool" where
  "pair_ok h a b \<longleftrightarrow> a \<noteq> b \<and> side_ok h a b \<and> side_ok h b a"

lemma pair_ok_sym: "pair_ok h a b \<longleftrightarrow> pair_ok h b a"
  by (auto simp: pair_ok_def)

text \<open>What has been written to a side and not read: a queue with a capacity, shut or not, and how much the
  reader asked for in vain.\<close>

record pipe =
  queue :: bytes
  capacity :: nat
  shut :: bool
  wanted :: nat

definition pipe_of :: "heap \<Rightarrow> nat \<Rightarrow> pipe" where
  "pipe_of h a = \<lparr>queue = ring (st_at h a), capacity = size (st_at h a), shut = closed (st_at h a), wanted = request (st_at h a)\<rparr>"

definition pipe_write :: "bytes \<Rightarrow> pipe \<Rightarrow> int \<times> pipe" where
  "pipe_write xs p =
     (if xs = [] then (0, p)
      else if shut p \<or> length (queue p) = capacity p then (- 1, p\<lparr>wanted := 0\<rparr>)
      else let n = min (length xs) (capacity p - length (queue p))
           in (int n, p\<lparr>queue := queue p @ take n xs, wanted := 0\<rparr>))"

definition pipe_read :: "nat \<Rightarrow> pipe \<Rightarrow> (int \<times> bytes) \<times> pipe" where
  "pipe_read n p =
     (if n = 0 then ((0, []), p)
      else if queue p = [] then
        (if shut p then ((0, []), p\<lparr>wanted := 0\<rparr>) else ((- 1, []), p\<lparr>wanted := min n (capacity p)\<rparr>))
      else ((int (min n (length (queue p))), take n (queue p)), p\<lparr>queue := drop n (queue p), wanted := 0\<rparr>))"

lemma bio_at_upd [simp]: "bio_at (upd_bio a f h) c = (if c = a then f (bio_at h a) else bio_at h c)"
  by (simp add: upd_bio_def bio_at_def)

lemma st_at_upd_st [simp]: "st_at (upd_st a f h) c = (if c = a then f (st_at h a) else st_at h c)"
  by (simp add: upd_st_def st_at_def)

lemma st_at_upd_bio [simp]: "ptr (f (bio_at h a)) = ptr (bio_at h a) \<Longrightarrow> st_at (upd_bio a f h) c = st_at h c"
  by (simp add: st_at_def)

lemma init_upd_st [simp]: "init (bio_at (upd_st a f h) c) = init (bio_at h c)"
  by (simp add: upd_st_def)

lemma has_st_upd_st [simp]: "has_st (upd_st a f h) c \<longleftrightarrow> c = a \<or> has_st h c"
  by (simp add: upd_st_def has_st_def)

lemma has_st_upd_bio [simp]: "ptr (f (bio_at h a)) = ptr (bio_at h a) \<Longrightarrow> has_st (upd_bio a f h) c = has_st h c"
  by (simp add: has_st_def)

lemma retry_simps [simp]:
  "ptr (BIO_clear_retry_flags x) = ptr x" "init (BIO_clear_retry_flags x) = init x"
  "ptr (BIO_set_retry_read x) = ptr x" "init (BIO_set_retry_read x) = init x"
  "ptr (BIO_set_retry_write x) = ptr x" "init (BIO_set_retry_write x) = init x"
  by (simp_all add: BIO_clear_retry_flags_def BIO_set_retry_read_def BIO_set_retry_write_def)

lemma ring_update [simp]:
  "ring (b\<lparr>request := n\<rparr>) = ring b" "ring_ok (b\<lparr>request := n\<rparr>) = ring_ok b"
  "ring (b\<lparr>closed := c\<rparr>) = ring b" "ring_ok (b\<lparr>closed := c\<rparr>) = ring_ok b"
  by (simp_all add: ring_def ring_ok_def)

lemma to_size_int: "n < 2 ^ 64 \<Longrightarrow> to_size (int n) = n"
  by (simp add: to_size_def nat_mod_as_int [symmetric])

lemma to_long_small: "n < 2 ^ 63 \<Longrightarrow> to_long n = int n"
  unfolding to_long_def by (simp add: signed_of_nat signed_take_bit_int_eq_self)

text \<open>Writing to one side is writing to its queue.\<close>

lemma bio_write_pipe:
  assumes "pair_ok h a b" "to_size n \<le> length xs"
  obtains i h' where "bio_write a (Some xs) n h = Some (i, h')" "pair_ok h' a b"
    "(i, pipe_of h' a) = pipe_write (take (to_size n) xs) (pipe_of h a)" "pipe_of h' b = pipe_of h b"
proof (cases "to_size n = 0")
  case True
  show ?thesis
    by (rule that [of 0 "upd_bio a BIO_clear_retry_flags h"])
      (use assms True in \<open>auto simp: bio_write_def pair_ok_def side_ok_def pipe_of_def pipe_write_def\<close>)
next
  case False
  have ok: "a \<noteq> b" "init (bio_at h a)" "ring_ok (st_at h a)" "peer (st_at h a) = Some b" "side_ok h b a"
    using assms(1) by (auto simp: pair_ok_def side_ok_def)
  have ne: "take (to_size n) xs \<noteq> []" using False assms(2) by auto
  have full: "len (st_at h a) \<le> size (st_at h a)" using ok(3) by (auto elim!: ring_okE)
  show ?thesis
  proof (cases "closed (st_at h a) \<or> len (st_at h a) = size (st_at h a)")
    case True
    obtain h' where "bio_write a (Some xs) n h = Some (- 1, h')" "pair_ok h' a b" "pipe_of h' b = pipe_of h b"
      "pipe_of h' a = (pipe_of h a)\<lparr>wanted := 0\<rparr>"
      using True False ok assms(1)
      by (cases "closed (st_at h a)") (auto simp: bio_write_def Let_def pair_ok_def side_ok_def pipe_of_def)
    then show ?thesis using that ne True by (simp add: pipe_write_def pipe_of_def)
  next
    case go: False
    define m where "m = min (to_size n) (size (st_at h a) - len (st_at h a))"
    define b0 where "b0 = (st_at h a)\<lparr>request := 0\<rparr>"
    have m: "0 < m" "len b0 + length (take m xs) \<le> size b0" "length (take m xs) = m" "take m xs \<noteq> []"
      using go False full assms(2) by (auto simp: m_def b0_def)
    have "ring_ok b0" using ok(3) by (simp add: b0_def)
    from write_loop_ring [OF this m(4,2)] obtain b' where w: "write_loop b0 (take m xs) = Some b'" "ring_ok b'"
      "ring b' = ring b0 @ take m xs" "b' = b0\<lparr>len := len b0 + length (take m xs), buf := buf b'\<rparr>" by blast
    have b': "size b' = size b0" "closed b' = closed b0" "request b' = 0" "peer b' = peer b0"
      by (subst w(4), simp add: b0_def)+
    define h1 where "h1 = upd_st a (\<lambda>_. b') (upd_st a (\<lambda>b. b\<lparr>request := 0\<rparr>) (upd_bio a BIO_clear_retry_flags h))"
    have "bio_write a (Some xs) n h = Some (int m, h1)"
    proof (cases "to_size n > size (st_at h a) - len (st_at h a)")
      case True
      then have "size (st_at h a) - len (st_at h a) = m" by (simp add: m_def)
      then show ?thesis
        using True go False ok w(1) [unfolded b0_def] by (simp add: bio_write_def Let_def h1_def)
    next
      case le: False
      then have "to_size n = m" by (simp add: m_def)
      then show ?thesis
        using le go False ok w(1) [unfolded b0_def] by (simp add: bio_write_def Let_def h1_def)
    qed
    moreover have "pair_ok h1 a b"
      using ok w(2) b' by (auto simp: h1_def pair_ok_def side_ok_def b0_def)
    moreover have "pipe_of h1 b = pipe_of h b" using ok(1) by (simp add: h1_def pipe_of_def)
    moreover have "(int m, pipe_of h1 a) = pipe_write (take (to_size n) xs) (pipe_of h a)"
      using ne go b' w(3) assms(2) by (simp add: h1_def pipe_of_def pipe_write_def b0_def m_def Let_def min_def)
    ultimately show ?thesis using that by blast
  qed
qed

text \<open>Reading from the other side is reading from that queue.\<close>

lemma bio_read_pipe:
  assumes "pair_ok h b a"
  obtains i ys h' where "bio_read b True n h = Some ((i, ys), h')" "pair_ok h' b a"
    "((i, ys), pipe_of h' a) = (if to_size n = 0 then ((0, []), (pipe_of h a)\<lparr>wanted := 0\<rparr>) else pipe_read (to_size n) (pipe_of h a))"
    "pipe_of h' b = pipe_of h b"
proof -
  have ok: "a \<noteq> b" "init (bio_at h b)" "ring_ok (st_at h a)" "peer (st_at h b) = Some a" "side_ok h b a" "side_ok h a b"
    using assms by (auto simp: pair_ok_def side_ok_def)
  define pb where "pb = (st_at h a)\<lparr>request := 0\<rparr>"
  define h1 where "h1 = upd_st a (\<lambda>b. b\<lparr>request := 0\<rparr>) (upd_bio b BIO_clear_retry_flags h)"
  have h1: "st_at h1 a = pb" "st_at h1 b = st_at h b" "init (bio_at h1 a)" "init (bio_at h1 b)" "pair_ok h1 b a"
    "pipe_of h1 b = pipe_of h b" "pipe_of h1 a = (pipe_of h a)\<lparr>wanted := 0\<rparr>"
    using ok by (auto simp: h1_def pb_def pair_ok_def side_ok_def pipe_of_def)
  have empty: "queue (pipe_of h a) = [] \<longleftrightarrow> len pb = 0" "closed pb = closed (st_at h a)"
    by (auto simp: pipe_of_def pb_def simp flip: length_0_conv)
  have run: "bio_read b True n h =
      (if to_size n = 0 then Some ((0, []), h1)
       else if len pb = 0 then
         (if closed pb then Some ((0, []), h1)
          else Some ((- 1, []), upd_st a (\<lambda>b. b\<lparr>request := (if to_size n \<le> size b then to_size n else size b)\<rparr>)
                                 (upd_bio b BIO_set_retry_read h1)))
       else Option.bind (read_loop pb (min (to_size n) (len pb)))
         (\<lambda>(out, pb'). Some ((int (min (to_size n) (len pb)), out), upd_st a (\<lambda>_. pb') h1)))"
    using ok(1,2,4) by (simp add: bio_read_def Let_def h1_def pb_def min_def)
  show ?thesis
  proof (cases "to_size n = 0 \<or> len pb = 0")
    case True
    show ?thesis
    proof (cases "to_size n = 0 \<or> closed pb")
      case z: True
      then have "bio_read b True n h = Some ((0, []), h1)" using run True by auto
      then show ?thesis using that h1 True z empty by (auto simp: pipe_read_def pipe_of_def)
    next
      case z: False
      define h2 where "h2 = upd_st a (\<lambda>b. b\<lparr>request := (if to_size n \<le> size b then to_size n else size b)\<rparr>) (upd_bio b BIO_set_retry_read h1)"
      have "bio_read b True n h = Some ((- 1, []), h2)" using run True z by (simp add: h2_def)
      moreover have "pair_ok h2 b a" "pipe_of h2 b = pipe_of h b"
        using h1(5) h1(6) by (auto simp: h2_def pair_ok_def side_ok_def pipe_of_def)
      moreover have "pipe_of h2 a = (pipe_of h a)\<lparr>wanted := min (to_size n) (capacity (pipe_of h a))\<rparr>"
        using ok(1) h1(1) by (simp add: h2_def pipe_of_def pb_def min_def)
      ultimately show ?thesis using that True z empty by (simp add: pipe_read_def pipe_of_def)
    qed
  next
    case False
    define m where "m = min (to_size n) (len pb)"
    have m: "0 < m" "m \<le> len pb" "ring_ok pb" using False ok(3) by (auto simp: m_def pb_def)
    from read_loop_ring [OF m(3,1,2)] obtain pb' where r: "read_loop pb m = Some (take m (ring pb), pb')" "ring_ok pb'"
      "ring pb' = drop m (ring pb)" "pb' = pb\<lparr>len := len pb - m, offset := offset pb'\<rparr>" by blast
    have pb': "size pb' = size pb" "closed pb' = closed pb" "request pb' = 0" "peer pb' = peer pb"
      by (subst r(4), simp add: pb_def)+
    define h2 where "h2 = upd_st a (\<lambda>_. pb') h1"
    have "bio_read b True n h = Some ((int m, take m (ring pb)), h2)"
      using run False r(1) by (simp add: h2_def m_def)
    moreover have "pair_ok h2 b a" "pipe_of h2 b = pipe_of h b"
      using h1(1,5,6) r(2) pb' by (auto simp: h2_def pair_ok_def side_ok_def pipe_of_def pb_def)
    moreover have "take m (ring pb) = take (to_size n) (ring (st_at h a))" "drop m (ring pb) = drop (to_size n) (ring (st_at h a))"
      by (auto simp: m_def pb_def min_def)
    then have "((int m, take m (ring pb)), pipe_of h2 a) = pipe_read (to_size n) (pipe_of h a)"
      using False pb' r(3) empty by (auto simp: h2_def pipe_of_def pipe_read_def pb_def m_def)
    ultimately show ?thesis using that False by simp
  qed
qed

text \<open>The counters of bytes are no part of the pipes.\<close>

lemma count_simps [simp]:
  "pair_ok (upd_bio c (\<lambda>x. x\<lparr>num_read := f x\<rparr>) h) a b = pair_ok h a b"
  "pair_ok (upd_bio c (\<lambda>x. x\<lparr>num_write := f x\<rparr>) h) a b = pair_ok h a b"
  "pipe_of (upd_bio c (\<lambda>x. x\<lparr>num_read := f x\<rparr>) h) a = pipe_of h a"
  "pipe_of (upd_bio c (\<lambda>x. x\<lparr>num_write := f x\<rparr>) h) a = pipe_of h a"
  by (auto simp: pair_ok_def side_ok_def pipe_of_def)

lemma BIO_write_pipe:
  assumes "pair_ok h a b" "to_size n \<le> length xs"
  obtains i h' where "BIO_write a (Some xs) n h = Some (i, h')" "pair_ok h' a b"
    "(i, pipe_of h' a) = (if n > 0 then pipe_write (take (to_size n) xs) (pipe_of h a) else (0, pipe_of h a))"
    "pipe_of h' b = pipe_of h b"
proof (cases "n > 0")
  case True
  have "init (bio_at h a)" using assms(1) by (simp add: pair_ok_def side_ok_def)
  obtain i h' where "bio_write a (Some xs) n h = Some (i, h')" "pair_ok h' a b"
    "(i, pipe_of h' a) = pipe_write (take (to_size n) xs) (pipe_of h a)" "pipe_of h' b = pipe_of h b"
    by (rule bio_write_pipe [OF assms])
  then show ?thesis
    using that [of i "if i > 0 then upd_bio a (\<lambda>x. x\<lparr>num_write := num_write x + nat i\<rparr>) h' else h'"] True
      \<open>init (bio_at h a)\<close> by (simp add: BIO_write_def)
next
  case False
  then show ?thesis using that [of 0 h] assms(1) by (simp add: BIO_write_def pair_ok_def side_ok_def)
qed

lemma BIO_read_pipe:
  assumes "pair_ok h b a"
  obtains i ys h' where "BIO_read b True n h = Some ((i, ys), h')" "pair_ok h' b a"
    "((i, ys), pipe_of h' a) =
      (if n > 0 then if to_size n = 0 then ((0, []), (pipe_of h a)\<lparr>wanted := 0\<rparr>) else pipe_read (to_size n) (pipe_of h a)
       else ((0, []), pipe_of h a))"
    "pipe_of h' b = pipe_of h b"
proof (cases "n > 0")
  case True
  have "init (bio_at h b)" using assms by (simp add: pair_ok_def side_ok_def)
  obtain i ys h' where r: "bio_read b True n h = Some ((i, ys), h')" "pair_ok h' b a"
    "((i, ys), pipe_of h' a) = (if to_size n = 0 then ((0, []), (pipe_of h a)\<lparr>wanted := 0\<rparr>) else pipe_read (to_size n) (pipe_of h a))"
    "pipe_of h' b = pipe_of h b"
    by (rule bio_read_pipe [OF assms])
  define h2 where "h2 = (if i > 0 then upd_bio b (\<lambda>x. x\<lparr>num_read := num_read x + nat i\<rparr>) h' else h')"
  have "BIO_read b True n h = Some ((i, ys), h2)"
    using True \<open>init (bio_at h b)\<close> r(1) by (simp add: BIO_read_def h2_def)
  moreover have "pair_ok h2 b a" "pipe_of h2 a = pipe_of h' a" "pipe_of h2 b = pipe_of h' b"
    using r(2) by (simp_all add: h2_def)
  ultimately show ?thesis using that r(3,4) True by metis
next
  case False
  then show ?thesis using that [of 0 "[]" h] assms by (simp add: BIO_read_def pair_ok_def side_ok_def)
qed

section \<open>Sessions on a pair\<close>

text \<open>A call at one side: \<open>True\<close> is the first. A result is a number and the bytes read.\<close>

datatype pair_cmd =
    PWrite bool bytes | PRead bool nat | PShutdown bool | PPending bool | PWpending bool | PGuarantee bool
  | PRequest bool | PReset bool

definition addr :: "nat \<times> nat \<Rightarrow> bool \<Rightarrow> nat" where
  "addr ab s = (if s then fst ab else snd ab)"

definition numbered :: "int \<times> heap \<Rightarrow> ((int \<times> bytes) \<times> heap) option" where
  "numbered r = (case r of (i, h) \<Rightarrow> Some ((i, []), h))"

fun pair_exec :: "nat \<times> nat \<Rightarrow> pair_cmd \<Rightarrow> heap \<Rightarrow> ((int \<times> bytes) \<times> heap) option" where
  "pair_exec ab (PWrite s xs) h = map_option (\<lambda>(i, h). ((i, []), h)) (BIO_write (addr ab s) (Some xs) (int (length xs)) h)"
| "pair_exec ab (PRead s n) h = BIO_read (addr ab s) True (int n) h"
| "pair_exec ab (PShutdown s) h = numbered (BIO_shutdown_wr (addr ab s) h)"
| "pair_exec ab (PPending s) h = numbered (bio_ctrl (addr ab s) PENDING 0 None h)"
| "pair_exec ab (PWpending s) h = numbered (bio_ctrl (addr ab s) WPENDING 0 None h)"
| "pair_exec ab (PGuarantee s) h = numbered (BIO_ctrl_get_write_guarantee (addr ab s) h)"
| "pair_exec ab (PRequest s) h = numbered (BIO_ctrl_get_read_request (addr ab s) h)"
| "pair_exec ab (PReset s) h = numbered (bio_ctrl (addr ab s) RESET_READ_REQUEST 0 None h)"

text \<open>The same call on two queues, the one of each side being what was written to it.\<close>

definition own :: "bool \<Rightarrow> pipe \<times> pipe \<Rightarrow> pipe" where
  "own s ps = (if s then fst ps else snd ps)"

definition put :: "bool \<Rightarrow> pipe \<Rightarrow> pipe \<times> pipe \<Rightarrow> pipe \<times> pipe" where
  "put s p ps = (if s then (p, snd ps) else (fst ps, p))"

fun pipes_exec :: "pair_cmd \<Rightarrow> pipe \<times> pipe \<Rightarrow> (int \<times> bytes) \<times> pipe \<times> pipe" where
  "pipes_exec (PWrite s xs) ps = (case pipe_write xs (own s ps) of (i, p) \<Rightarrow> ((i, []), put s p ps))"
| "pipes_exec (PRead s n) ps = (case pipe_read n (own (\<not> s) ps) of (r, p) \<Rightarrow> (r, put (\<not> s) p ps))"
| "pipes_exec (PShutdown s) ps = ((1, []), put s ((own s ps)\<lparr>shut := True\<rparr>) ps)"
| "pipes_exec (PPending s) ps = ((int (length (queue (own (\<not> s) ps))), []), ps)"
| "pipes_exec (PWpending s) ps = ((int (length (queue (own s ps))), []), ps)"
| "pipes_exec (PGuarantee s) ps =
     ((if shut (own s ps) then 0 else int (capacity (own s ps) - length (queue (own s ps))), []), ps)"
| "pipes_exec (PRequest s) ps = ((int (wanted (own s ps)), []), ps)"
| "pipes_exec (PReset s) ps = ((1, []), put s ((own s ps)\<lparr>wanted := 0\<rparr>) ps)"

primrec pair_run :: "nat \<times> nat \<Rightarrow> pair_cmd list \<Rightarrow> heap \<Rightarrow> ((int \<times> bytes) list \<times> heap) option" where
  "pair_run ab [] h = Some ([], h)"
| "pair_run ab (c # cs) h =
     Option.bind (pair_exec ab c h) (\<lambda>(r, h'). map_option (\<lambda>(rs, h''). (r # rs, h'')) (pair_run ab cs h'))"

primrec pipes_run :: "pair_cmd list \<Rightarrow> pipe \<times> pipe \<Rightarrow> (int \<times> bytes) list \<times> pipe \<times> pipe" where
  "pipes_run [] ps = ([], ps)"
| "pipes_run (c # cs) ps = (case pipes_exec c ps of (r, ps') \<Rightarrow> (case pipes_run cs ps' of (rs, ps'') \<Rightarrow> (r # rs, ps'')))"

text \<open>The lengths that a caller passes are \<open>int\<close>s.\<close>

fun cmd_ok :: "pair_cmd \<Rightarrow> bool" where
  "cmd_ok (PWrite s xs) = (length xs \<le> INT_MAX)"
| "cmd_ok (PRead s n) = (n \<le> INT_MAX)"
| "cmd_ok _ = True"

definition pipes_of :: "nat \<times> nat \<Rightarrow> heap \<Rightarrow> pipe \<times> pipe" where
  "pipes_of ab h = (pipe_of h (fst ab), pipe_of h (snd ab))"

definition wanted_ok :: "heap \<Rightarrow> nat \<times> nat \<Rightarrow> bool" where
  "wanted_ok h ab \<longleftrightarrow> request (st_at h (fst ab)) < 2 ^ 63 \<and> request (st_at h (snd ab)) < 2 ^ 63"

definition linked :: "nat \<times> nat \<Rightarrow> heap \<Rightarrow> bool" where
  "linked ab h \<longleftrightarrow> pair_ok h (fst ab) (snd ab) \<and> wanted_ok h ab"

lemma linked_side:
  "linked ab h \<longleftrightarrow> pair_ok h (addr ab s) (addr ab (\<not> s)) \<and> wanted (pipe_of h (addr ab s)) < 2 ^ 63 \<and>
     wanted (pipe_of h (addr ab (\<not> s))) < 2 ^ 63"
  by (auto simp: linked_def wanted_ok_def addr_def pair_ok_sym [of h "fst ab"] pipe_of_def)

lemma pipes_of_side:
  "pipes_of ab h = ps \<longleftrightarrow> pipe_of h (addr ab s) = own s ps \<and> pipe_of h (addr ab (\<not> s)) = own (\<not> s) ps"
  by (cases ps) (auto simp: pipes_of_def addr_def own_def)

lemma own_put [simp]: "own s (put s p ps) = p" "own (\<not> s) (put s p ps) = own (\<not> s) ps"
    "own s (put (\<not> s) p ps) = own s ps"
  by (auto simp: own_def put_def)

lemma pipe_write_wanted: "(i, p') = pipe_write xs p \<Longrightarrow> wanted p < 2 ^ 63 \<Longrightarrow> wanted p' < 2 ^ 63"
  by (auto simp: pipe_write_def Let_def split: if_splits)

lemma pipe_read_wanted: "(r, p') = pipe_read n p \<Longrightarrow> n < 2 ^ 63 \<Longrightarrow> wanted p < 2 ^ 63 \<Longrightarrow> wanted p' < 2 ^ 63"
  by (auto simp: pipe_read_def split: if_splits)

lemma side_sizes:
  assumes "side_ok h a b"
  shows "len (st_at h a) \<le> size (st_at h a)" "size (st_at h a) < 2 ^ 63" "buf (st_at h a) \<noteq> None"
  using assms by (auto simp: side_ok_def elim!: ring_okE)

lemma pair_exec_pipes:
  assumes "linked ab h" "cmd_ok c"
  obtains r h' where "pair_exec ab c h = Some (r, h')" "linked ab h'" "pipes_exec c (pipes_of ab h) = (r, pipes_of ab h')"
proof (cases c)
  case (PWrite s xs)
  let ?a = "addr ab s" and ?b = "addr ab (\<not> s)"
  have l: "pair_ok h ?a ?b" "wanted (pipe_of h ?a) < 2 ^ 63" "wanted (pipe_of h ?b) < 2 ^ 63"
    using assms(1) unfolding linked_side [of ab h s] by simp_all
  have n: "to_size (int (length xs)) = length xs" using assms(2) PWrite by (intro to_size_int) simp
  have le: "to_size (int (length xs)) \<le> length xs" unfolding n ..
  obtain i h' where w: "BIO_write ?a (Some xs) (int (length xs)) h = Some (i, h')" "pair_ok h' ?a ?b"
    "(i, pipe_of h' ?a) = (if int (length xs) > 0 then pipe_write (take (to_size (int (length xs))) xs) (pipe_of h ?a) else (0, pipe_of h ?a))"
    "pipe_of h' ?b = pipe_of h ?b"
    by (rule BIO_write_pipe [OF l(1) le])
  have e: "(i, pipe_of h' ?a) = pipe_write xs (pipe_of h ?a)"
    using w(3) unfolding n by (cases xs) (simp_all add: pipe_write_def)
  have "linked ab h'" unfolding linked_side [of ab h' s]
    using w(2,4) l pipe_write_wanted [OF e] by simp
  moreover have "own s (pipes_of ab h) = pipe_of h ?a" "own (\<not> s) (pipes_of ab h) = pipe_of h ?b"
    using pipes_of_side [of ab h "pipes_of ab h" s] by simp_all
  then have "pipes_of ab h' = put s (pipe_of h' ?a) (pipes_of ab h)"
    unfolding pipes_of_side [of ab h' _ s] using w(4) by simp
  ultimately show ?thesis
    using that [of "(i, [])" h'] PWrite w(1) \<open>own s (pipes_of ab h) = pipe_of h ?a\<close> by (simp flip: e)
next
  case (PRead s n)
  let ?b = "addr ab s" and ?a = "addr ab (\<not> s)"
  have l: "pair_ok h ?b ?a" "wanted (pipe_of h ?b) < 2 ^ 63" "wanted (pipe_of h ?a) < 2 ^ 63"
    using assms(1) unfolding linked_side [of ab h s] by simp_all
  have n: "to_size (int n) = n" "n < 2 ^ 63" using assms(2) PRead by (auto intro: to_size_int)
  obtain i ys h' where w: "BIO_read ?b True (int n) h = Some ((i, ys), h')" "pair_ok h' ?b ?a"
    "((i, ys), pipe_of h' ?a) =
      (if int n > 0 then if to_size (int n) = 0 then ((0, []), (pipe_of h ?a)\<lparr>wanted := 0\<rparr>) else pipe_read (to_size (int n)) (pipe_of h ?a)
       else ((0, []), pipe_of h ?a))"
    "pipe_of h' ?b = pipe_of h ?b"
    by (rule BIO_read_pipe [OF l(1)])
  have e: "((i, ys), pipe_of h' ?a) = pipe_read n (pipe_of h ?a)"
    using w(3) unfolding n by (cases n) (simp_all add: pipe_read_def)
  have "linked ab h'" unfolding linked_side [of ab h' s]
    using w(2,4) l pipe_read_wanted [OF e n(2)] by simp
  moreover have own: "own (\<not> s) (pipes_of ab h) = pipe_of h ?a" "own s (pipes_of ab h) = pipe_of h ?b"
    using pipes_of_side [of ab h "pipes_of ab h" s] by simp_all
  then have "pipes_of ab h' = put (\<not> s) (pipe_of h' ?a) (pipes_of ab h)"
    unfolding pipes_of_side [of ab h' _ s] using w(4) by simp
  ultimately show ?thesis
    using that [of "(i, ys)" h'] PRead w(1) own(1) by (simp flip: e)
next
  case (PShutdown s)
  let ?h = "upd_st (addr ab s) (\<lambda>b. b\<lparr>closed := True\<rparr>) h"
  have l: "linked ab ?h"
    using assms(1) by (auto simp: linked_def pair_ok_def side_ok_def wanted_ok_def)
  have "pipes_of ab ?h = put s ((own s (pipes_of ab h))\<lparr>shut := True\<rparr>) (pipes_of ab h)"
    using assms(1) by (auto simp: pipes_of_def addr_def own_def put_def pipe_of_def linked_def pair_ok_def)
  then show ?thesis
    using that [OF _ l] PShutdown by (simp add: BIO_shutdown_wr_def bio_ctrl_def numbered_def)
next
  case (PReset s)
  let ?h = "upd_st (addr ab s) (\<lambda>b. b\<lparr>request := 0\<rparr>) h"
  have l: "linked ab ?h"
    using assms(1) by (auto simp: linked_def pair_ok_def side_ok_def wanted_ok_def)
  have "pipes_of ab ?h = put s ((own s (pipes_of ab h))\<lparr>wanted := 0\<rparr>) (pipes_of ab h)"
    using assms(1) by (auto simp: pipes_of_def addr_def own_def put_def pipe_of_def linked_def pair_ok_def)
  then show ?thesis
    using that [OF _ l] PReset by (simp add: bio_ctrl_def numbered_def)
next
  case (PPending s)
  have l: "side_ok h (addr ab s) (addr ab (\<not> s))" "side_ok h (addr ab (\<not> s)) (addr ab s)"
    using assms(1) unfolding linked_side [of ab h s] pair_ok_def by simp_all
  have "to_long (len (st_at h (addr ab (\<not> s)))) = int (len (st_at h (addr ab (\<not> s))))"
    using side_sizes [OF l(2)] by (intro to_long_small) simp
  moreover have "own (\<not> s) (pipes_of ab h) = pipe_of h (addr ab (\<not> s))"
    by (auto simp: pipes_of_def addr_def own_def)
  ultimately show ?thesis
    using that [OF _ assms(1)] PPending l(1) by (simp add: bio_ctrl_def numbered_def side_ok_def pipe_of_def)
next
  case (PWpending s)
  have l: "side_ok h (addr ab s) (addr ab (\<not> s))"
    using assms(1) unfolding linked_side [of ab h s] pair_ok_def by simp
  have "to_long (len (st_at h (addr ab s))) = int (len (st_at h (addr ab s)))"
    using side_sizes [OF l] by (intro to_long_small) simp
  moreover have "own s (pipes_of ab h) = pipe_of h (addr ab s)"
    by (auto simp: pipes_of_def addr_def own_def)
  ultimately show ?thesis
    using that [OF _ assms(1)] PWpending side_sizes(3) [OF l] by (simp add: bio_ctrl_def numbered_def pipe_of_def)
next
  case (PGuarantee s)
  have l: "side_ok h (addr ab s) (addr ab (\<not> s))"
    using assms(1) unfolding linked_side [of ab h s] pair_ok_def by simp
  have "to_long (size (st_at h (addr ab s)) - len (st_at h (addr ab s))) =
      int (size (st_at h (addr ab s)) - len (st_at h (addr ab s)))"
    using side_sizes [OF l] by (intro to_long_small) simp
  moreover have "own s (pipes_of ab h) = pipe_of h (addr ab s)"
    by (auto simp: pipes_of_def addr_def own_def)
  ultimately show ?thesis
    using that [OF _ assms(1)] PGuarantee l
    by (cases "closed (st_at h (addr ab s))")
      (simp_all add: BIO_ctrl_get_write_guarantee_def bio_ctrl_def numbered_def pipe_of_def side_ok_def Let_def)
next
  case (PRequest s)
  have "wanted (pipe_of h (addr ab s)) < 2 ^ 63"
    using assms(1) unfolding linked_side [of ab h s] by simp
  then have "to_long (request (st_at h (addr ab s))) = int (request (st_at h (addr ab s)))"
    by (intro to_long_small) (simp add: pipe_of_def)
  moreover have "own s (pipes_of ab h) = pipe_of h (addr ab s)"
    by (auto simp: pipes_of_def addr_def own_def)
  ultimately show ?thesis
    using that [OF _ assms(1)] PRequest
    by (simp add: BIO_ctrl_get_read_request_def bio_ctrl_def numbered_def pipe_of_def)
qed

lemma pair_run_pipes:
  "linked ab h \<Longrightarrow> list_all cmd_ok cs \<Longrightarrow>
     \<exists>rs h'. pair_run ab cs h = Some (rs, h') \<and> linked ab h' \<and> pipes_run cs (pipes_of ab h) = (rs, pipes_of ab h')"
proof (induction cs arbitrary: h)
  case (Cons c cs)
  have "cmd_ok c" using Cons.prems(2) by simp
  from pair_exec_pipes [OF Cons.prems(1) this] obtain r h1 where one: "pair_exec ab c h = Some (r, h1)" "linked ab h1"
    "pipes_exec c (pipes_of ab h) = (r, pipes_of ab h1)" .
  obtain rs h' where "pair_run ab cs h1 = Some (rs, h')" "linked ab h'" "pipes_run cs (pipes_of ab h1) = (rs, pipes_of ab h')"
    using Cons.IH [OF one(2)] Cons.prems(2) by auto
  then show ?case using one by simp
qed simp

section \<open>Making a pair\<close>

definition fresh_st :: "nat \<Rightarrow> bio_bio_st" where
  "fresh_st n = \<lparr>peer = None, closed = False, len = 0, offset = 0, size = n, buf = None, request = 0\<rparr>"

definition fresh_bio :: "bio_bio_st \<Rightarrow> bio" where
  "fresh_bio b = \<lparr>init = False, shutdown = 1, flags = 0, retry_reason = 0, references = 1, ptr = Some b,
     num_read = 0, num_write = 0\<rparr>"

lemma BIO_new_fresh: "BIO_new e = (Some x, e') \<Longrightarrow> x = fresh_bio (fresh_st (17 * 1024))"
  by (auto simp: BIO_new_def bio_new_def fresh_bio_def fresh_st_def split: if_splits)

lemma upd_st_new: "upd_st a f (h(a \<mapsto> fresh_bio b)) = h(a \<mapsto> fresh_bio (f b))"
  by (simp add: upd_st_def upd_bio_def bio_at_def fresh_bio_def)

lemma st_at_new: "st_at (h(a \<mapsto> fresh_bio b)) c = (if c = a then b else st_at h c)"
  by (simp add: st_at_def bio_at_def fresh_bio_def)

text \<open>The size of the buffer that a side gets.\<close>

definition ring_size :: "nat \<Rightarrow> nat" where
  "ring_size n = (if n \<noteq> 0 then n else 17 * 1024)"

lemma alloc_ring_fresh:
  assumes "ptr (bio_at h a) = Some b" "b = fresh_st (17 * 1024)" "alloc_ring a n h e = (True, h', e')"
  shows "\<exists>p. length p = ring_size n \<and> h' = upd_st a (\<lambda>_. (fresh_st (ring_size n))\<lparr>buf := Some p\<rparr>) h"
proof -
  have st: "st_at h a = fresh_st (17 * 1024)" using assms(1,2) by (simp add: st_at_def)
  obtain p where p: "libc_malloc (ring_size n) e = (Some p, e')"
    "h' = upd_st a (\<lambda>b. b\<lparr>buf := Some p, len := 0, offset := 0\<rparr>) (upd_st a (\<lambda>b. b\<lparr>size := ring_size n\<rparr>) h)"
    using assms(3) st by (auto simp: alloc_ring_def ring_size_def fresh_st_def Let_def split: option.splits prod.splits if_splits)
  have "h' = upd_st a (\<lambda>_. (fresh_st (ring_size n))\<lparr>buf := Some p\<rparr>) h"
    using assms(1,2) unfolding p(2) by (simp add: upd_st_def upd_bio_def bio_at_def fresh_st_def)
  then show ?thesis using libc_malloc_length [OF p(1)] by blast
qed

lemma ring_size_pos: "0 < ring_size n"
  by (simp add: ring_size_def)

lemma pipe_of_simps: "pipe_of h a = (let b = st_at h a in \<lparr>queue = ring b, capacity = size b, shut = closed b, wanted = request b\<rparr>)"
  by (simp add: pipe_of_def Let_def)

lemma bio_make_pair_fresh:
  assumes "a1 \<noteq> a2" "n1 < 2 ^ 63" "n2 < 2 ^ 63" "ptr (bio_at h a1) = Some (fresh_st (17 * 1024))"
    "ptr (bio_at h a2) = Some (fresh_st (17 * 1024))" "bio_make_pair a1 a2 n1 n2 h e = (True, h', e')"
  shows "linked (a1, a2) h'"
    "pipes_of (a1, a2) h' = (\<lparr>queue = [], capacity = ring_size n1, shut = False, wanted = 0\<rparr>,
       \<lparr>queue = [], capacity = ring_size n2, shut = False, wanted = 0\<rparr>)"
proof -
  obtain h1 e1 h2 where h1: "alloc_ring a1 n1 h e = (True, h1, e1)" and h2: "alloc_ring a2 n2 h1 e1 = (True, h2, e')"
    and h': "h' = (upd_bio a2 (\<lambda>x. x\<lparr>init := True\<rparr>) \<circ> upd_bio a1 (\<lambda>x. x\<lparr>init := True\<rparr>) \<circ>
                    upd_st a2 (\<lambda>b. b\<lparr>peer := Some a1, closed := False, request := 0\<rparr>) \<circ>
                    upd_st a1 (\<lambda>b. b\<lparr>peer := Some a2, closed := False, request := 0\<rparr>)) h2"
    using assms(6) by (auto simp: bio_make_pair_def split: prod.splits bool.splits if_splits)
  obtain p1 where p1: "length p1 = ring_size n1" "h1 = upd_st a1 (\<lambda>_. (fresh_st (ring_size n1))\<lparr>buf := Some p1\<rparr>) h"
    using alloc_ring_fresh [OF assms(4) refl h1] by blast
  have "ptr (bio_at h1 a2) = Some (fresh_st (17 * 1024))"
    using assms(1,5) by (simp add: p1(2) upd_st_def)
  then obtain p2 where p2: "length p2 = ring_size n2" "h2 = upd_st a2 (\<lambda>_. (fresh_st (ring_size n2))\<lparr>buf := Some p2\<rparr>) h1"
    using alloc_ring_fresh [OF _ refl h2] by blast
  have s1: "st_at h' a1 = (fresh_st (ring_size n1))\<lparr>buf := Some p1, peer := Some a2\<rparr>"
    using assms(1) by (simp add: h' p1(2) p2(2) fresh_st_def)
  have s2: "st_at h' a2 = (fresh_st (ring_size n2))\<lparr>buf := Some p2, peer := Some a1\<rparr>"
    using assms(1) by (simp add: h' p1(2) p2(2) fresh_st_def)
  have "ring_size n1 < 2 ^ 63" "ring_size n2 < 2 ^ 63" using assms(2,3) by (simp_all add: ring_size_def)
  then have "ring_ok (st_at h' a1)" "ring_ok (st_at h' a2)"
    unfolding s1 s2 using p1(1) p2(1) ring_size_pos by (auto simp: ring_ok_def fresh_st_def)
  moreover have "init (bio_at h' a1)" "init (bio_at h' a2)" "has_st h' a1" "has_st h' a2"
    by (simp_all add: h')
  ultimately show "linked (a1, a2) h'"
    using assms(1) s1 s2 by (simp add: linked_def pair_ok_def side_ok_def wanted_ok_def fresh_st_def)
  show "pipes_of (a1, a2) h' = (\<lparr>queue = [], capacity = ring_size n1, shut = False, wanted = 0\<rparr>,
       \<lparr>queue = [], capacity = ring_size n2, shut = False, wanted = 0\<rparr>)"
    unfolding pipes_of_def fst_conv snd_conv pipe_of_simps Let_def s1 s2 by (simp add: fresh_st_def ring_def)
qed

lemma BIO_new_bio_pair_linked:
  assumes "a1 \<noteq> a2" "n1 < 2 ^ 63" "n2 < 2 ^ 63" "BIO_new_bio_pair a1 a2 n1 n2 h e = (True, h', e')"
  shows "linked (a1, a2) h'"
    "pipes_of (a1, a2) h' = (\<lparr>queue = [], capacity = ring_size n1, shut = False, wanted = 0\<rparr>,
       \<lparr>queue = [], capacity = ring_size n2, shut = False, wanted = 0\<rparr>)"
proof -
  obtain x1 e1 x2 e2 where n: "BIO_new e = (Some x1, e1)" "BIO_new e1 = (Some x2, e2)"
    and m: "bio_make_pair a1 a2 n1 n2 (h(a1 \<mapsto> x1, a2 \<mapsto> x2)) e2 = (True, h', e')"
    using assms(4) by (auto simp: BIO_new_bio_pair_def split: prod.splits option.splits bool.splits)
  have "ptr (bio_at (h(a1 \<mapsto> x1, a2 \<mapsto> x2)) a1) = Some (fresh_st (17 * 1024))"
    "ptr (bio_at (h(a1 \<mapsto> x1, a2 \<mapsto> x2)) a2) = Some (fresh_st (17 * 1024))"
    using assms(1) BIO_new_fresh [OF n(1)] BIO_new_fresh [OF n(2)] by (simp_all add: bio_at_def fresh_bio_def)
  from bio_make_pair_fresh [OF assms(1-3) this m]
  show "linked (a1, a2) h'"
    "pipes_of (a1, a2) h' = (\<lparr>queue = [], capacity = ring_size n1, shut = False, wanted = 0\<rparr>,
       \<lparr>queue = [], capacity = ring_size n2, shut = False, wanted = 0\<rparr>)" by blast+
qed

text \<open>A pair with buffers of 4 and of 17 * 1024 bytes, for concrete runs.\<close>

lemma new_4:
  obtains h e' where "BIO_new_bio_pair 1 2 4 0 Map.empty plain_env = (True, h, e')" "linked (1, 2) h"
    "pipe_of h 1 = \<lparr>queue = [], capacity = 4, shut = False, wanted = 0\<rparr>"
proof -
  obtain h e' where new: "BIO_new_bio_pair 1 2 4 0 Map.empty plain_env = (True, h, e')"
    by (simp add: BIO_new_bio_pair_def BIO_new_def bio_new_def bio_make_pair_def alloc_ring_def libc_malloc_def
        malloc_ok_def plain_env_def tick_def st_at_def bio_at_def upd_st_def upd_bio_def)
  from BIO_new_bio_pair_linked [OF _ _ _ new] that [OF new] show ?thesis
    by (simp add: pipes_of_def ring_size_def)
qed

section \<open>A direction of a pair is a byte channel\<close>

definition pair_offer :: "nat \<Rightarrow> bytes \<Rightarrow> heap \<Rightarrow> (nat \<times> heap) option" where
  "pair_offer a xs h = map_option (\<lambda>(i, h'). (nat i, h')) (BIO_write a (Some xs) (int (length xs)) h)"

definition pair_fetch :: "nat \<Rightarrow> nat \<Rightarrow> heap \<Rightarrow> (bytes \<times> heap) option" where
  "pair_fetch b k h = map_option (\<lambda>((i, ys), h'). (ys, h')) (BIO_read b True (int k) h)"

lemma to_size_le: "to_size (int n) \<le> n"
  unfolding to_size_def by (metis mod_less_eq_dividend nat_int of_nat_mod of_nat_numeral of_nat_power)

interpretation pair: byte_channel "\<lambda>h. pair_ok h a b" "\<lambda>h. ring (st_at h a)" "pair_offer a" "pair_fetch b" for a b
proof
  fix h xs
  assume ok: "pair_ok h a b"
  obtain i h' where w: "BIO_write a (Some xs) (int (length xs)) h = Some (i, h')" "pair_ok h' a b"
    "(i, pipe_of h' a) = (if int (length xs) > 0 then pipe_write (take (to_size (int (length xs))) xs) (pipe_of h a) else (0, pipe_of h a))"
    by (rule BIO_write_pipe [OF ok to_size_le])
  have "nat i \<le> length xs \<and> queue (pipe_of h' a) = queue (pipe_of h a) @ take (nat i) xs"
    using w(3) by (auto simp: pipe_write_def Let_def min_def split: if_splits)
  then show "\<exists>n q'. pair_offer a xs h = Some (n, q') \<and> pair_ok q' a b \<and> n \<le> length xs \<and>
      ring (st_at q' a) = ring (st_at h a) @ take n xs"
    using w(1,2) by (simp add: pair_offer_def pipe_of_def)
next
  fix h k
  assume ok: "pair_ok h a b"
  then have ok': "pair_ok h b a" by (simp add: pair_ok_sym)
  obtain i ys h' where r: "BIO_read b True (int k) h = Some ((i, ys), h')" "pair_ok h' b a"
    "((i, ys), pipe_of h' a) =
      (if int k > 0 then if to_size (int k) = 0 then ((0, []), (pipe_of h a)\<lparr>wanted := 0\<rparr>) else pipe_read (to_size (int k)) (pipe_of h a)
       else ((0, []), pipe_of h a))"
    by (rule BIO_read_pipe [OF ok'])
  have "length ys \<le> k \<and> queue (pipe_of h a) = ys @ queue (pipe_of h' a)"
    using r(3) to_size_le [of k] by (auto simp: pipe_read_def split: if_splits)
  then show "\<exists>ys q'. pair_fetch b k h = Some (ys, q') \<and> pair_ok q' a b \<and> length ys \<le> k \<and>
      ring (st_at h a) = ys @ ring (st_at q' a)"
    using r(1,2) by (simp add: pair_fetch_def pipe_of_def pair_ok_sym)
qed

section \<open>Correctness\<close>

text \<open>C21: a BIO pair is two bounded queues. Every sequence of reads, writes and queries at both sides of a new
  pair ends and returns what two queues return: how many bytes were taken, the bytes in order, the end of
  the data after a shutdown, the -1 of a full or an empty buffer, and the number of bytes wanted.\<close>

theorem bio_pair_refines_queues:
  assumes "a1 \<noteq> a2" "n1 < 2 ^ 63" "n2 < 2 ^ 63" "BIO_new_bio_pair a1 a2 n1 n2 h e = (True, h1, e')" "list_all cmd_ok cs"
  shows "\<exists>rs h2. pair_run (a1, a2) cs h1 = Some (rs, h2) \<and>
    pipes_run cs (\<lparr>queue = [], capacity = ring_size n1, shut = False, wanted = 0\<rparr>,
      \<lparr>queue = [], capacity = ring_size n2, shut = False, wanted = 0\<rparr>) = (rs, pipes_of (a1, a2) h2) \<and> linked (a1, a2) h2"
proof -
  note new = BIO_new_bio_pair_linked [OF assms(1-4)]
  from pair_run_pipes [OF new(1) assms(5)] show ?thesis unfolding new(2) by blast
qed

lemma bio_pair_refines_queues_witness:
  "case BIO_new_bio_pair 1 2 4 0 Map.empty plain_env of (ok, h, e) \<Rightarrow>
     ok \<and> map_option fst (pair_run (1, 2) [PWrite True [1, 2, 3], PRead False 2, PWrite True [4, 5, 6, 7], PRead False 9,
       PRead False 5, PRequest True, PShutdown True, PRead False 5] h) =
     Some [(3, []), (2, [1, 2]), (3, []), (4, [3, 4, 5, 6]), (- 1, []), (4, []), (1, []), (0, [])]"
proof -
  let ?cs = "[PWrite True [1, 2, 3], PRead False 2, PWrite True [4, 5, 6, 7], PRead False 9,
       PRead False 5, PRequest True, PShutdown True, PRead False 5]"
  obtain h e' where new: "BIO_new_bio_pair 1 2 4 0 Map.empty plain_env = (True, h, e')"
    by (rule new_4)
  have "list_all cmd_ok ?cs" by simp
  with bio_pair_refines_queues [OF _ _ _ new this] obtain rs h2 where
    run: "pair_run (1, 2) ?cs h = Some (rs, h2)"
      "pipes_run ?cs (\<lparr>queue = [], capacity = ring_size 4, shut = False, wanted = 0\<rparr>,
        \<lparr>queue = [], capacity = ring_size 0, shut = False, wanted = 0\<rparr>) = (rs, pipes_of (1, 2) h2)"
    by auto
  have "rs = fst (pipes_run ?cs (\<lparr>queue = [], capacity = ring_size 4, shut = False, wanted = 0\<rparr>,
        \<lparr>queue = [], capacity = ring_size 0, shut = False, wanted = 0\<rparr>))"
    unfolding run(2) by simp
  also have "\<dots> = [(3, []), (2, [1, 2]), (3, []), (4, [3, 4, 5, 6]), (- 1, []), (4, []), (1, []), (0, [])]"
    by code_simp
  finally show ?thesis using new run(1) by simp
qed

text \<open>C22: nothing is lost, changed or reordered in a direction of a pair: whatever writes and reads are made, the
  bytes that were in the buffer and then accepted are those delivered and then those still in the
  buffer.\<close>

theorem bio_pair_fifo:
  assumes "pair_ok h a b"
  shows "\<exists>accepted delivered h'. pair.transfer a b cs h = Some ((accepted, delivered), h') \<and> pair_ok h' a b \<and>
    ring (st_at h a) @ accepted = delivered @ ring (st_at h' a)"
  by (rule pair.transfer_fifo [OF assms])

lemma bio_pair_fifo_witness:
  "case BIO_new_bio_pair 1 2 4 0 Map.empty plain_env of (ok, h, e) \<Rightarrow>
     ok \<and> (\<exists>accepted delivered h'. pair.transfer 1 2 [Inl [1, 2, 3], Inr 2, Inl [4, 5, 6]] h = Some ((accepted, delivered), h') \<and>
       accepted = delivered @ ring (st_at h' 1))"
proof -
  obtain h e' where new: "BIO_new_bio_pair 1 2 4 0 Map.empty plain_env = (True, h, e')" and l: "linked (1, 2) h"
    and p: "pipe_of h 1 = \<lparr>queue = [], capacity = 4, shut = False, wanted = 0\<rparr>"
    by (rule new_4)
  have ok: "pair_ok h 1 2" using l by (simp add: linked_def)
  have "ring (st_at h 1) = []" using p by (simp add: pipe_of_def)
  then show ?thesis
    using bio_pair_fifo [OF ok, of "[Inl [1, 2, 3], Inr 2, Inl [4, 5, 6]]"] unfolding new prod.case
    by (metis append_Nil)
qed

text \<open>A transfer of at most the free space succeeds whole: \<open>BIO_ctrl_get_write_guarantee\<close> is what the next
  write will take.\<close>

theorem write_guarantee:
  assumes "pair_ok h a b" "\<not> closed (st_at h a)" "xs \<noteq> []" "length xs \<le> INT_MAX"
    "int (length xs) \<le> fst (BIO_ctrl_get_write_guarantee a h)"
  shows "\<exists>h'. BIO_write a (Some xs) (int (length xs)) h = Some (int (length xs), h') \<and>
    ring (st_at h' a) = ring (st_at h a) @ xs \<and> pair_ok h' a b"
proof -
  have side: "side_ok h a b" using assms(1) by (simp add: pair_ok_def)
  note sz = side_sizes [OF side]
  have "to_long (size (st_at h a) - len (st_at h a)) = int (size (st_at h a) - len (st_at h a))"
    using sz by (intro to_long_small) simp
  then have room: "length xs \<le> size (st_at h a) - len (st_at h a)"
    using assms(2,5) side by (simp add: BIO_ctrl_get_write_guarantee_def bio_ctrl_def side_ok_def Let_def)
  have n: "to_size (int (length xs)) = length xs" using assms(4) by (intro to_size_int) simp
  obtain i h' where w: "BIO_write a (Some xs) (int (length xs)) h = Some (i, h')" "pair_ok h' a b"
    "(i, pipe_of h' a) = (if int (length xs) > 0 then pipe_write (take (to_size (int (length xs))) xs) (pipe_of h a) else (0, pipe_of h a))"
    by (rule BIO_write_pipe [OF assms(1) to_size_le])
  have "(i, pipe_of h' a) = pipe_write xs (pipe_of h a)"
    using w(3) assms(3) unfolding n by simp
  moreover have "len (st_at h a) \<noteq> size (st_at h a)" using room assms(3) by (cases xs) auto
  ultimately have "i = int (length xs)" "queue (pipe_of h' a) = queue (pipe_of h a) @ xs"
    using room assms(2,3) by (auto simp: pipe_write_def pipe_of_def Let_def)
  then show ?thesis using w(1,2) by (simp add: pipe_of_def)
qed

lemma write_guarantee_witness:
  "case BIO_new_bio_pair 1 2 4 0 Map.empty plain_env of (ok, h, e) \<Rightarrow>
     ok \<and> (\<exists>h'. BIO_write 1 (Some [1, 2, 3, 4]) 4 h = Some (4, h') \<and> ring (st_at h' 1) = [1, 2, 3, 4])"
proof -
  obtain h e' where new: "BIO_new_bio_pair 1 2 4 0 Map.empty plain_env = (True, h, e')" and l: "linked (1, 2) h"
    and p: "pipe_of h 1 = \<lparr>queue = [], capacity = 4, shut = False, wanted = 0\<rparr>"
    by (rule new_4)
  have ok: "pair_ok h 1 2" using l by (simp add: linked_def)
  then have "peer (st_at h 1) = Some 2" by (simp add: pair_ok_def side_ok_def)
  moreover have st: "\<not> closed (st_at h 1)" "size (st_at h 1) = 4" "ring (st_at h 1) = []" using p by (simp_all add: pipe_of_def)
  moreover have "len (st_at h 1) = 0" using st(3) length_ring by (metis list.size(3))
  ultimately have "fst (BIO_ctrl_get_write_guarantee 1 h) = 4"
    by (simp add: BIO_ctrl_get_write_guarantee_def bio_ctrl_def Let_def to_long_small)
  then show ?thesis
    using write_guarantee [OF ok st(1), of "[1, 2, 3, 4]"] new st(3) by auto
qed

end
