(* ===== verification/SslBuffer.thy ===== *)
theory SslBuffer
  imports TlsRecord BioPair
begin

text \<open>
  The record buffers of a connection: \<open>ssl/ssl_buffer.c\<close>. They lie between the record layers and a transport,
  which is any pair of BIOs: \<open>BIO_read\<close> and \<open>BIO_write\<close> are functions on the state \<open>'w\<close> of the transport, with
  the contract of \<open>bio.h\<close> in the locales \<open>byte_source\<close> and \<open>byte_sink\<close>; a BIO pair has both. A call of a BIO
  that does not return is \<open>None\<close>, and so is \<open>abort()\<close>. The loops over short reads and writes are partial
  functions.
\<close>

section \<open>State\<close>

record SSL3_BUFFER =
  buf :: "bytes option"
  offset :: u16
  len :: u16
  cap :: u16

text \<open>The read and write BIO of a connection, and \<open>BIO_flush\<close> of the latter.\<close>

record 'w transport =
  rbio :: "(int \<Rightarrow> 'w \<Rightarrow> ((int \<times> bytes) \<times> 'w) option) option"
  wbio :: "(bytes \<Rightarrow> int \<Rightarrow> 'w \<Rightarrow> (int \<times> 'w) option) option"
  bio_flush :: "'w \<Rightarrow> 'w"

text \<open>The address of the block that the allocator returns next is \<open>next_addr\<close>.\<close>

record 'k ssl_io =
  conn :: "'k ssl"
  read_buffer :: SSL3_BUFFER
  write_buffer :: SSL3_BUFFER
  rwstate :: int
  mem :: env
  next_addr :: "env \<Rightarrow> u64"

definition SSL_WRITING :: int where "SSL_WRITING = 2"
definition SSL_READING :: int where "SSL_READING = 3"
definition SSL3_ALIGN_PAYLOAD :: nat where "SSL3_ALIGN_PAYLOAD = 8"
definition SSL3_RT_SEND_MAX_ENCRYPTED_OVERHEAD :: nat where "SSL3_RT_SEND_MAX_ENCRYPTED_OVERHEAD = 64 + 16"

section \<open>Buffers\<close>

definition setup_buffer :: "(env \<Rightarrow> u64) \<Rightarrow> SSL3_BUFFER \<Rightarrow> nat \<Rightarrow> nat \<Rightarrow> (env, SSL3_BUFFER) op" where
  "setup_buffer uintptr b header_len n e =
     (if buf b \<noteq> None \<or> n > 0xffff then (None, e)
      else
        (case libc_malloc (n + SSL3_ALIGN_PAYLOAD - 1) e of
           (None, e1) \<Rightarrow> (None, e1)
         | (Some m, e1) \<Rightarrow>
             (Some \<lparr>buf = Some m,
                    offset = ucast ((0 - of_nat header_len - uintptr e) AND (of_nat SSL3_ALIGN_PAYLOAD - 1)),
                    len = 0, cap = of_nat n\<rparr>, e1)))"

definition consume_buffer :: "SSL3_BUFFER \<Rightarrow> nat \<Rightarrow> SSL3_BUFFER option" where
  "consume_buffer b n =
     (if n > unat (len b) then None
      else Some (b\<lparr>offset := offset b + of_nat n, len := len b - of_nat n, cap := cap b - of_nat n\<rparr>))"

definition clear_buffer :: SSL3_BUFFER where
  "clear_buffer = \<lparr>buf = None, offset = 0, len = 0, cap = 0\<rparr>"

text \<open>What lies in a buffer, and bytes stored behind it.\<close>

definition pending_bytes :: "SSL3_BUFFER \<Rightarrow> bytes" where
  "pending_bytes b = take (unat (len b)) (drop (unat (offset b)) (case buf b of None \<Rightarrow> [] | Some m \<Rightarrow> m))"

definition store_bytes :: "SSL3_BUFFER \<Rightarrow> nat \<Rightarrow> bytes \<Rightarrow> SSL3_BUFFER" where
  "store_bytes b k bs = b\<lparr>buf := map_option (\<lambda>m. blit m (unat (offset b) + k) bs) (buf b)\<rparr>"

section \<open>The read buffer\<close>

definition setup_read_buffer :: "'k ssl_io \<Rightarrow> bool \<times> 'k ssl_io" where
  "setup_read_buffer s =
     (if buf (read_buffer s) \<noteq> None then (True, s)
      else
        let header_len = ssl_record_prefix_len (conn s);
            n = SSL3_RT_MAX_ENCRYPTED_LENGTH + (if is_dtls (conn s) then DTLS1_RT_HEADER_LENGTH else SSL3_RT_HEADER_LENGTH)
        in (case setup_buffer (next_addr s) (read_buffer s) header_len n (mem s) of
              (None, e) \<Rightarrow> (False, s\<lparr>mem := e\<rparr>)
            | (Some b, e) \<Rightarrow> (True, s\<lparr>read_buffer := b, mem := e\<rparr>)))"

text \<open>The bytes from \<open>ssl_read_buffer\<close> to the end of the block.\<close>

definition ssl_read_buffer :: "'k ssl_io \<Rightarrow> bytes" where
  "ssl_read_buffer s =
     (case buf (read_buffer s) of None \<Rightarrow> [] | Some m \<Rightarrow> drop (unat (offset (read_buffer s))) m)"

definition ssl_read_buffer_len :: "'k ssl_io \<Rightarrow> nat" where
  "ssl_read_buffer_len s = unat (len (read_buffer s))"

definition ssl_read_buffer_clear :: "'k ssl_io \<Rightarrow> 'k ssl_io" where
  "ssl_read_buffer_clear s = s\<lparr>read_buffer := clear_buffer\<rparr>"

definition ssl_read_buffer_discard :: "'k ssl_io \<Rightarrow> 'k ssl_io" where
  "ssl_read_buffer_discard s = (if len (read_buffer s) = 0 then ssl_read_buffer_clear s else s)"

definition ssl_read_buffer_consume :: "nat \<Rightarrow> 'k ssl_io \<Rightarrow> 'k ssl_io option" where
  "ssl_read_buffer_consume n s = map_option (\<lambda>b. s\<lparr>read_buffer := b\<rparr>) (consume_buffer (read_buffer s) n)"

definition dtls_read_buffer_next_packet ::
  "(int \<Rightarrow> 'w \<Rightarrow> ((int \<times> bytes) \<times> 'w) option) \<Rightarrow> 'k ssl_io \<Rightarrow> 'w \<Rightarrow> (int \<times> 'k ssl_io \<times> 'w) option"
where
  "dtls_read_buffer_next_packet rd s w =
     (if len (read_buffer s) > 0 then Some (-1, s, w)
      else Option.bind (rd (int (unat (cap (read_buffer s)))) w) (\<lambda>((ret, bs), w1).
        if ret \<le> 0 then Some (ret, s\<lparr>rwstate := SSL_READING\<rparr>, w1)
        else Some (1, s\<lparr>read_buffer := (store_bytes (read_buffer s) 0 bs)\<lparr>len := of_int ret\<rparr>\<rparr>, w1)))"

partial_function (option) tls_read_loop ::
  "(int \<Rightarrow> 'w \<Rightarrow> ((int \<times> bytes) \<times> 'w) option) \<Rightarrow> nat \<Rightarrow> 'k ssl_io \<Rightarrow> 'w \<Rightarrow> (int \<times> 'k ssl_io \<times> 'w) option"
where
  "tls_read_loop rd n s w =
     (let b = read_buffer s in
      if unat (len b) < n then
        Option.bind (rd (int (n - unat (len b))) w) (\<lambda>((ret, bs), w1).
          if ret \<le> 0 then Some (ret, s\<lparr>rwstate := SSL_READING\<rparr>, w1)
          else tls_read_loop rd n (s\<lparr>read_buffer := (store_bytes b (unat (len b)) bs)\<lparr>len := len b + of_int ret\<rparr>\<rparr>) w1)
      else Some (1, s, w))"

definition tls_read_buffer_extend_to ::
  "(int \<Rightarrow> 'w \<Rightarrow> ((int \<times> bytes) \<times> 'w) option) \<Rightarrow> nat \<Rightarrow> 'k ssl_io \<Rightarrow> 'w \<Rightarrow> (int \<times> 'k ssl_io \<times> 'w) option"
where
  "tls_read_buffer_extend_to rd n s w =
     (if n > unat (cap (read_buffer s)) then Some (-1, s, w) else tls_read_loop rd n s w)"

definition ssl_read_buffer_extend_to ::
  "'w transport \<Rightarrow> nat \<Rightarrow> 'k ssl_io \<Rightarrow> 'w \<Rightarrow> (int \<times> 'k ssl_io \<times> 'w) option"
where
  "ssl_read_buffer_extend_to t n s w =
     (case setup_read_buffer (ssl_read_buffer_discard s) of
        (False, s1) \<Rightarrow> Some (-1, s1, w)
      | (True, s1) \<Rightarrow>
          (case rbio t of
             None \<Rightarrow> Some (-1, s1, w)
           | Some rd \<Rightarrow>
               map_option (\<lambda>(ret, s2, w2). (ret, if ret \<le> 0 then ssl_read_buffer_discard s2 else s2, w2))
                 (if is_dtls (conn s1) then dtls_read_buffer_next_packet rd s1 w
                  else tls_read_buffer_extend_to rd n s1 w)))"

section \<open>The write buffer\<close>

definition ssl_write_buffer_is_pending :: "'k ssl_io \<Rightarrow> bool" where
  "ssl_write_buffer_is_pending s \<longleftrightarrow> len (write_buffer s) > 0"

definition ssl_write_buffer_clear :: "'k ssl_io \<Rightarrow> 'k ssl_io" where
  "ssl_write_buffer_clear s = s\<lparr>write_buffer := clear_buffer\<rparr>"

text \<open>\<open>*out_ptr\<close> is the start of the buffer.\<close>

definition ssl_write_buffer_init :: "nat \<Rightarrow> 'k ssl_io \<Rightarrow> bool \<times> 'k ssl_io" where
  "ssl_write_buffer_init max_len s =
     (if buf (write_buffer s) \<noteq> None then (False, s)
      else
        let header_len = ssl_seal_align_prefix_len (conn s);
            n = SSL3_RT_MAX_PLAIN_LENGTH + SSL3_RT_SEND_MAX_ENCRYPTED_OVERHEAD;
            n1 = (if is_dtls (conn s) then n + DTLS1_RT_HEADER_LENGTH
                  else n + SSL3_RT_HEADER_LENGTH +
                    (if record_splitting (conn s) then SSL3_RT_HEADER_LENGTH + SSL3_RT_SEND_MAX_ENCRYPTED_OVERHEAD else 0))
        in if max_len > n1 then (False, s)
           else
             (case setup_buffer (next_addr s) (write_buffer s) header_len n1 (mem s) of
                (None, e) \<Rightarrow> (False, s\<lparr>mem := e\<rparr>)
              | (Some b, e) \<Rightarrow> (True, s\<lparr>write_buffer := b, mem := e\<rparr>)))"

definition ssl_write_buffer_set_len :: "nat \<Rightarrow> 'k ssl_io \<Rightarrow> 'k ssl_io option" where
  "ssl_write_buffer_set_len n s =
     (if n > unat (cap (write_buffer s)) then None
      else Some (s\<lparr>write_buffer := (write_buffer s)\<lparr>len := of_nat n\<rparr>\<rparr>))"

partial_function (option) tls_write_buffer_flush ::
  "(bytes \<Rightarrow> int \<Rightarrow> 'w \<Rightarrow> (int \<times> 'w) option) \<Rightarrow> 'k ssl_io \<Rightarrow> 'w \<Rightarrow> (int \<times> 'k ssl_io \<times> 'w) option"
where
  "tls_write_buffer_flush wr s w =
     (let b = write_buffer s in
      if len b > 0 then
        Option.bind (wr (pending_bytes b) (int (unat (len b))) w) (\<lambda>(ret, w1).
          if ret \<le> 0 then Some (ret, s\<lparr>rwstate := SSL_WRITING\<rparr>, w1)
          else Option.bind (consume_buffer b (nat ret)) (\<lambda>b1. tls_write_buffer_flush wr (s\<lparr>write_buffer := b1\<rparr>) w1))
      else Some (1, ssl_write_buffer_clear s, w))"

definition dtls_write_buffer_flush ::
  "(bytes \<Rightarrow> int \<Rightarrow> 'w \<Rightarrow> (int \<times> 'w) option) \<Rightarrow> 'k ssl_io \<Rightarrow> 'w \<Rightarrow> (int \<times> 'k ssl_io \<times> 'w) option"
where
  "dtls_write_buffer_flush wr s w =
     (let b = write_buffer s in
      if len b = 0 then Some (1, s, w)
      else
        Option.bind (wr (pending_bytes b) (int (unat (len b))) w) (\<lambda>(ret, w1).
          if ret \<le> 0 then Some (ret, ssl_write_buffer_clear (s\<lparr>rwstate := SSL_WRITING\<rparr>), w1)
          else Some (1, ssl_write_buffer_clear s, w1)))"

definition ssl_write_buffer_flush :: "'w transport \<Rightarrow> 'k ssl_io \<Rightarrow> 'w \<Rightarrow> (int \<times> 'k ssl_io \<times> 'w) option" where
  "ssl_write_buffer_flush t s w =
     (case wbio t of
        None \<Rightarrow> Some (-1, s, w)
      | Some wr \<Rightarrow> if is_dtls (conn s) then dtls_write_buffer_flush wr s w else tls_write_buffer_flush wr s w)"

section \<open>Buffers stay within their blocks\<close>

definition buffer_ok :: "SSL3_BUFFER \<Rightarrow> bool" where
  "buffer_ok b \<longleftrightarrow>
     (case buf b of
        None \<Rightarrow> len b = 0 \<and> cap b = 0
      | Some m \<Rightarrow> unat (offset b) + unat (cap b) \<le> length m \<and> length m < 2 ^ 16 \<and> len b \<le> cap b)"

lemma buffer_ok_clear [simp]: "buffer_ok clear_buffer" "pending_bytes clear_buffer = []"
  by (simp_all add: buffer_ok_def clear_buffer_def pending_bytes_def)

lemma length_pending [simp]: "buffer_ok b \<Longrightarrow> length (pending_bytes b) = unat (len b)"
  by (auto simp: buffer_ok_def pending_bytes_def word_le_nat_alt split: option.splits)

lemma pending_empty_iff: "buffer_ok b \<Longrightarrow> pending_bytes b = [] \<longleftrightarrow> len b = 0"
  using length_pending [of b] by (metis length_0_conv unat_eq_0)

lemma low_bits: "unat (x AND 7) = unat x mod 8" for x :: u64
proof -
  have "x AND 7 = take_bit 3 x" by (simp add: take_bit_eq_mask mask_eq_exp_minus_1)
  then have "unat (x AND 7) = take_bit 3 (unat x)" by (simp only: unsigned_take_bit_eq)
  also have "\<dots> = unat x mod 8" by (simp add: take_bit_eq_mod)
  finally show ?thesis .
qed

lemma low_bits_add: "unat (x + y) mod 8 = (unat x + unat y) mod 8" for x y :: u64
  unfolding unat_word_ariths by (simp add: mod_mod_cancel)

lemma align_complement: "(a + ((0 - a) AND 7)) AND 7 = 0" for a :: u64
proof -
  have "unat (a + ((0 - a) AND 7)) mod 8 = (unat a + unat (0 - a)) mod 8"
    unfolding low_bits_add low_bits by (rule mod_add_right_eq)
  also have "\<dots> = unat (a + (0 - a)) mod 8" by (rule low_bits_add [symmetric])
  finally have "unat ((a + ((0 - a) AND 7)) AND 7) = 0" unfolding low_bits by simp
  then show ?thesis by (simp add: unat_eq_0)
qed

text \<open>A new buffer: its room is what was asked for, and what is written after the header is aligned.\<close>

lemma setup_buffer_ok:
  assumes "setup_buffer uintptr b header_len n e = (Some b', e')" "n < 2 ^ 16 - 8"
  shows "buffer_ok b' \<and> buf b' \<noteq> None \<and> pending_bytes b' = [] \<and> len b' = 0 \<and> unat (cap b') = n \<and>
    (uintptr e + ucast (offset b') + of_nat header_len) AND 7 = 0"
proof -
  define a where "a = of_nat header_len + uintptr e"
  have seven: "of_nat SSL3_ALIGN_PAYLOAD - 1 = (7 :: u64)" by (simp add: SSL3_ALIGN_PAYLOAD_def)
  have neg: "0 - of_nat header_len - uintptr e = 0 - a" by (simp add: a_def)
  obtain m where m: "libc_malloc (n + SSL3_ALIGN_PAYLOAD - 1) e = (Some m, e')"
    and new: "b' = \<lparr>buf = Some m, offset = ucast ((0 - a) AND 7), len = 0, cap = of_nat n\<rparr>"
    using assms(1) unfolding setup_buffer_def seven neg by (auto split: if_splits prod.splits option.splits)
  have lm: "length m = n + 7" using m by (auto simp: libc_malloc_def SSL3_ALIGN_PAYLOAD_def split: if_splits)
  define v where "v = (0 - a) AND 7"
  have un: "unat v \<le> 7" unfolding v_def low_bits by simp
  have off: "unat (ucast v :: u16) = unat v"
    unfolding unsigned_ucast_eq using un by (simp add: take_bit_nat_eq_self)
  have "unat (ucast (ucast v :: u16) :: u64) = unat v"
    unfolding unsigned_ucast_eq [where w = "ucast v :: u16"] off using un by (simp add: take_bit_nat_eq_self)
  then have widen: "(ucast (ucast v :: u16) :: u64) = v" by (simp add: word_unat_eq_iff)
  have b': "b' = \<lparr>buf = Some m, offset = ucast v, len = 0, cap = of_nat n\<rparr>" unfolding new v_def ..
  have cap: "unat (of_nat n :: u16) = n" using assms(2) by (simp add: unsigned_of_nat take_bit_nat_eq_self)
  have "uintptr e + ucast (offset b') + of_nat header_len = a + v"
    by (simp add: b' widen a_def)
  then have al: "(uintptr e + ucast (offset b') + of_nat header_len) AND 7 = 0" using align_complement [of a] by (simp add: v_def)
  show ?thesis
    using lm off cap assms(2) un al
    by (simp add: b' buffer_ok_def pending_bytes_def)
qed

lemma consume_buffer_ok:
  assumes "buffer_ok b" "n \<le> unat (len b)"
  obtains b' where "consume_buffer b n = Some b'" "buffer_ok b'" "pending_bytes b' = drop n (pending_bytes b)"
    "unat (len b') = unat (len b) - n" "buf b' = buf b" "unat (cap b') = unat (cap b) - n" "unat (offset b') = unat (offset b) + n"
proof -
  define b' where "b' = b\<lparr>offset := offset b + of_nat n, len := len b - of_nat n, cap := cap b - of_nat n\<rparr>"
  have c: "consume_buffer b n = Some b'" using assms(2) by (simp add: consume_buffer_def b'_def)
  show thesis
  proof (cases "buf b")
    case None
    then have "len b = 0" using assms(1) by (simp add: buffer_ok_def)
    then have "n = 0" "b' = b" using assms(2) by (simp_all add: b'_def)
    then show thesis using that [OF c] assms(1) by simp
  next
    case (Some m)
    then have ok: "unat (offset b) + unat (cap b) \<le> length m" "length m < 2 ^ 16" "unat (len b) \<le> unat (cap b)"
      using assms(1) by (simp_all add: buffer_ok_def word_le_nat_alt)
    have un: "unat (of_nat n :: u16) = n" using ok assms(2) by (simp add: unsigned_of_nat take_bit_nat_eq_self)
    have off: "unat (offset b + of_nat n) = unat (offset b) + n"
      using un ok assms(2) by (subst unat_add_lem [THEN iffD1]) simp_all
    have l: "unat (len b - of_nat n) = unat (len b) - n" "unat (cap b - of_nat n) = unat (cap b) - n"
      using un ok assms(2) by (simp_all add: unat_sub word_le_nat_alt)
    have "buffer_ok b'" using Some ok off l assms(2) by (simp add: buffer_ok_def b'_def word_le_nat_alt)
    moreover have "pending_bytes b' = drop n (pending_bytes b)"
      using Some off l by (simp add: pending_bytes_def b'_def drop_take add.commute)
    ultimately show thesis using that [OF c] off l by (simp add: b'_def)
  qed
qed

lemma store_bytes_ok:
  assumes "buffer_ok b" "buf b \<noteq> None" "unat (len b) + length bs \<le> unat (cap b)"
  defines "b' \<equiv> (store_bytes b (unat (len b)) bs)\<lparr>len := len b + of_nat (length bs)\<rparr>"
  shows "buffer_ok b'" "buf b' \<noteq> None" "pending_bytes b' = pending_bytes b @ bs"
    "unat (len b') = unat (len b) + length bs" "cap b' = cap b" "offset b' = offset b"
proof -
  obtain m where m: "buf b = Some m" using assms(2) by blast
  have ok: "unat (offset b) + unat (cap b) \<le> length m" "length m < 2 ^ 16" "unat (len b) \<le> unat (cap b)"
    using assms(1) m by (simp_all add: buffer_ok_def word_le_nat_alt)
  have un: "unat (of_nat (length bs) :: u16) = length bs" using ok assms(3) by (simp add: unsigned_of_nat take_bit_nat_eq_self)
  show l: "unat (len b') = unat (len b) + length bs"
    unfolding b'_def using un ok assms(3) by (simp add: unat_word_ariths)
  have buf': "buf b' = Some (blit m (unat (offset b) + unat (len b)) bs)" by (simp add: b'_def store_bytes_def m)
  have room: "unat (offset b) + unat (len b) + length bs \<le> length m" using ok assms(3) by simp
  show "cap b' = cap b" "offset b' = offset b" "buf b' \<noteq> None" by (simp_all add: b'_def store_bytes_def m)
  then show "buffer_ok b'" using buf' ok l room assms(3) by (simp add: buffer_ok_def word_le_nat_alt)
  have "pending_bytes b' = take (unat (len b) + length bs) (drop (unat (offset b)) (blit m (unat (offset b) + unat (len b)) bs))"
    using l buf' \<open>offset b' = offset b\<close> by (simp add: pending_bytes_def)
  also have "\<dots> = take (unat (len b)) (drop (unat (offset b)) m) @ bs"
    using room by (simp add: blit_def drop_take)
  finally show "pending_bytes b' = pending_bytes b @ bs" by (simp add: pending_bytes_def m)
qed

section \<open>Transports\<close>

text \<open>
  The contracts of \<open>BIO_read\<close> and \<open>BIO_write\<close>. A read that returns a positive number has taken that many bytes
  from the front, at most what was asked for, and other results take nothing; a write that returns a positive
  number has appended that many bytes of what was offered.
\<close>

locale byte_source =
  fixes ok :: "'w \<Rightarrow> bool" and contents :: "'w \<Rightarrow> bytes" and rd :: "int \<Rightarrow> 'w \<Rightarrow> ((int \<times> bytes) \<times> 'w) option"
  assumes rd: "ok w \<Longrightarrow> 0 < n \<Longrightarrow>
    \<exists>i bs w'. rd n w = Some ((i, bs), w') \<and> ok w' \<and> contents w = bs @ contents w' \<and> i \<le> n \<and> int (length bs) = max 0 i"

text \<open>The transport has nothing to give, and says \<open>ret\<close>.\<close>

definition refuses :: "('w \<Rightarrow> bool) \<Rightarrow> ('w \<Rightarrow> bytes) \<Rightarrow> (int \<Rightarrow> 'w \<Rightarrow> ((int \<times> bytes) \<times> 'w) option) \<Rightarrow> int \<Rightarrow> 'w \<Rightarrow> bool" where
  "refuses ok contents rd ret w' \<longleftrightarrow> (\<exists>m w. 0 < m \<and> ok w \<and> contents w = contents w' \<and> rd m w = Some ((ret, []), w'))"

locale byte_sink =
  fixes ok :: "'w \<Rightarrow> bool" and contents :: "'w \<Rightarrow> bytes" and wr :: "bytes \<Rightarrow> int \<Rightarrow> 'w \<Rightarrow> (int \<times> 'w) option"
  assumes wr: "ok w \<Longrightarrow> bs \<noteq> [] \<Longrightarrow>
    \<exists>i w'. wr bs (int (length bs)) w = Some (i, w') \<and> ok w' \<and> i \<le> int (length bs) \<and> contents w' = contents w @ take (nat i) bs"

context byte_source
begin

lemma tls_read_loop_fill:
  assumes "ok w" "buffer_ok (read_buffer s)" "buf (read_buffer s) \<noteq> None" "n \<le> unat (cap (read_buffer s))"
  shows "\<exists>ret b' x w' bs. tls_read_loop rd n s w = Some (ret, s\<lparr>read_buffer := b', rwstate := x\<rparr>, w') \<and>
    ok w' \<and> contents w = bs @ contents w' \<and> buffer_ok b' \<and> buf b' \<noteq> None \<and> cap b' = cap (read_buffer s) \<and>
    pending_bytes b' = pending_bytes (read_buffer s) @ bs \<and>
    (if ret = 1 then length (pending_bytes b') = max n (length (pending_bytes (read_buffer s))) \<and> x = rwstate s
     else ret \<le> 0 \<and> length (pending_bytes b') < n \<and> x = SSL_READING \<and> refuses ok contents rd ret w')"
  using assms
proof (induction "n - unat (len (read_buffer s))" arbitrary: s w rule: less_induct)
  case less
  let ?b = "read_buffer s"
  note ok = less.prems(1) and bok = less.prems(2) and some = less.prems(3) and room = less.prems(4)
  show ?case
  proof (cases "unat (len ?b) < n")
    case False
    have "tls_read_loop rd n s w = Some (1, s\<lparr>read_buffer := ?b, rwstate := rwstate s\<rparr>, w)"
      using False by (subst tls_read_loop.simps) (simp add: Let_def)
    then show ?thesis
      using ok bok some False
      by (intro exI [of _ 1] exI [of _ ?b] exI [of _ "rwstate s"] exI [of _ w] exI [of _ "[]"]) simp
  next
    case True
    obtain i bs w1 where r: "rd (int (n - unat (len ?b))) w = Some ((i, bs), w1)" "ok w1" "contents w = bs @ contents w1"
      "i \<le> int (n - unat (len ?b))" "int (length bs) = max 0 i"
      using rd [OF ok, of "int (n - unat (len ?b))"] True unfolding of_nat_0_less_iff zero_less_diff by blast
    show ?thesis
    proof (cases "i \<le> 0")
      case le: True
      then have "bs = []" using r(5) by simp
      moreover have "tls_read_loop rd n s w = Some (i, s\<lparr>read_buffer := ?b, rwstate := SSL_READING\<rparr>, w1)"
        using True le r(1) by (subst tls_read_loop.simps) (simp add: Let_def)
      moreover have "refuses ok contents rd i w1"
        unfolding refuses_def using ok r(1,3) \<open>bs = []\<close> True
        by (intro exI [of _ "int (n - unat (len ?b))"] exI [of _ w]) (simp del: of_nat_diff)
      ultimately show ?thesis
        using ok bok some True le r(2,3)
        by (intro exI [of _ i] exI [of _ ?b] exI [of _ SSL_READING] exI [of _ w1] exI [of _ "[]"]) simp
    next
      case False
      then have i: "i = int (length bs)" "0 < length bs" using r(5) by auto
      define b1 where "b1 = (store_bytes ?b (unat (len ?b)) bs)\<lparr>len := len ?b + of_nat (length bs)\<rparr>"
      have fits: "unat (len ?b) + length bs \<le> unat (cap ?b)" using r(4) [unfolded i(1) of_nat_le_iff] room True by linarith
      note b1 = store_bytes_ok [OF bok some fits, folded b1_def]
      have step: "tls_read_loop rd n s w = tls_read_loop rd n (s\<lparr>read_buffer := b1\<rparr>) w1"
        using True r(1) i by (subst tls_read_loop.simps) (simp add: Let_def b1_def)
      have "n - unat (len b1) < n - unat (len ?b)" using b1(4) i(2) True by linarith
      then have dec: "n - unat (len (read_buffer (s\<lparr>read_buffer := b1\<rparr>))) < n - unat (len ?b)" by simp
      have sel: "read_buffer (s\<lparr>read_buffer := b1\<rparr>) = b1" "rwstate (s\<lparr>read_buffer := b1\<rparr>) = rwstate s"
        "(s\<lparr>read_buffer := b1\<rparr>)\<lparr>read_buffer := b', rwstate := x\<rparr> = s\<lparr>read_buffer := b', rwstate := x\<rparr>" for b' x by simp_all
      have "n \<le> unat (cap b1)" using room b1(5) by simp
      from less.hyps [OF dec r(2), unfolded sel, OF b1(1,2) this]
      obtain ret b' x w' bs' where IH: "tls_read_loop rd n (s\<lparr>read_buffer := b1\<rparr>) w1 = Some (ret, s\<lparr>read_buffer := b', rwstate := x\<rparr>, w')"
        "ok w'" "contents w1 = bs' @ contents w'" "buffer_ok b'" "buf b' \<noteq> None" "cap b' = cap b1" "pending_bytes b' = pending_bytes b1 @ bs'"
        "if ret = 1 then length (pending_bytes b') = max n (length (pending_bytes b1)) \<and> x = rwstate s
         else ret \<le> 0 \<and> length (pending_bytes b') < n \<and> x = SSL_READING \<and> refuses ok contents rd ret w'"
        by blast
      have "length (pending_bytes b1) \<le> n"
        unfolding length_pending [OF b1(1)] using b1(4) r(4) [unfolded i(1) of_nat_le_iff] True by linarith
      then show ?thesis
        unfolding step IH(1) using IH(2-) b1(3,5) r(3) bok True
        by (intro exI [of _ ret] exI [of _ b'] exI [of _ x] exI [of _ w'] exI [of _ "bs @ bs'"]) (auto split: if_splits)
    qed
  qed
qed

end

context byte_sink
begin

lemma tls_write_buffer_flush_sends:
  assumes "ok w" "buffer_ok (write_buffer s)"
  shows "\<exists>ret b' x w' k. tls_write_buffer_flush wr s w = Some (ret, s\<lparr>write_buffer := b', rwstate := x\<rparr>, w') \<and>
    ok w' \<and> contents w' = contents w @ take k (pending_bytes (write_buffer s)) \<and> buffer_ok b' \<and>
    pending_bytes b' = drop k (pending_bytes (write_buffer s)) \<and>
    (if ret = 1 then b' = clear_buffer \<and> x = rwstate s \<and> length (pending_bytes (write_buffer s)) \<le> k
     else ret \<le> 0 \<and> pending_bytes b' \<noteq> [] \<and> x = SSL_WRITING)"
  using assms
proof (induction "unat (len (write_buffer s))" arbitrary: s w rule: less_induct)
  case less
  let ?b = "write_buffer s"
  note ok = less.prems(1) and bok = less.prems(2)
  show ?case
  proof (cases "len ?b > 0")
    case False
    then have z: "len ?b = 0" unfolding word_gt_0 by simp
    then have nil: "pending_bytes ?b = []" using pending_empty_iff [OF bok] by simp
    have "tls_write_buffer_flush wr s w = Some (1, s\<lparr>write_buffer := clear_buffer, rwstate := rwstate s\<rparr>, w)"
      using z by (subst tls_write_buffer_flush.simps) (simp add: Let_def ssl_write_buffer_clear_def)
    then show ?thesis
      using ok nil by (intro exI [of _ 1] exI [of _ clear_buffer] exI [of _ "rwstate s"] exI [of _ w] exI [of _ 0]) simp
  next
    case True
    define bs where "bs = pending_bytes ?b"
    have lbs: "length bs = unat (len ?b)" "bs \<noteq> []"
      using length_pending [OF bok] pending_empty_iff [OF bok] True by (auto simp: bs_def)
    obtain i w1 where r: "wr bs (int (unat (len ?b))) w = Some (i, w1)" "ok w1" "i \<le> int (length bs)" "contents w1 = contents w @ take (nat i) bs"
      using wr [OF ok lbs(2)] unfolding lbs(1) by auto
    show ?thesis
    proof (cases "i \<le> 0")
      case le: True
      have "tls_write_buffer_flush wr s w = Some (i, s\<lparr>write_buffer := ?b, rwstate := SSL_WRITING\<rparr>, w1)"
        using True le r(1) by (subst tls_write_buffer_flush.simps) (simp add: Let_def bs_def)
      then show ?thesis
        using bok le r(2,4) lbs(2) unfolding bs_def
        by (intro exI [of _ i] exI [of _ ?b] exI [of _ SSL_WRITING] exI [of _ w1] exI [of _ 0]) simp
    next
      case False
      have n: "nat i \<le> unat (len ?b)" using r(3) unfolding lbs(1) [symmetric] nat_le_iff .
      obtain b1 where c: "consume_buffer ?b (nat i) = Some b1" "buffer_ok b1" "pending_bytes b1 = drop (nat i) bs"
        "unat (len b1) = unat (len ?b) - nat i"
        using consume_buffer_ok [OF bok n] unfolding bs_def by metis
      have step: "tls_write_buffer_flush wr s w = tls_write_buffer_flush wr (s\<lparr>write_buffer := b1\<rparr>) w1"
        using True False r(1) c(1) by (subst tls_write_buffer_flush.simps) (simp add: Let_def bs_def)
      have "0 < length bs" "0 < nat i" using lbs(2) False by simp_all
      then have "unat (len b1) < unat (len ?b)" using c(4) unfolding lbs(1) by linarith
      then have dec: "unat (len (write_buffer (s\<lparr>write_buffer := b1\<rparr>))) < unat (len ?b)" by simp
      have sel: "write_buffer (s\<lparr>write_buffer := b1\<rparr>) = b1" "rwstate (s\<lparr>write_buffer := b1\<rparr>) = rwstate s"
        "(s\<lparr>write_buffer := b1\<rparr>)\<lparr>write_buffer := b', rwstate := x\<rparr> = s\<lparr>write_buffer := b', rwstate := x\<rparr>" for b' x by simp_all
      from less.hyps [OF dec r(2), unfolded sel, OF c(2)]
      obtain ret b' x w' k where IH: "tls_write_buffer_flush wr (s\<lparr>write_buffer := b1\<rparr>) w1 = Some (ret, s\<lparr>write_buffer := b', rwstate := x\<rparr>, w')"
        "ok w'" "contents w' = contents w1 @ take k (pending_bytes b1)" "buffer_ok b'" "pending_bytes b' = drop k (pending_bytes b1)"
        "if ret = 1 then b' = clear_buffer \<and> x = rwstate s \<and> length (pending_bytes b1) \<le> k
         else ret \<le> 0 \<and> pending_bytes b' \<noteq> [] \<and> x = SSL_WRITING"
        by blast
      have "contents w' = contents w @ take (nat i + k) bs" using IH(3) r(4) c(3) by (simp add: take_add)
      moreover have "pending_bytes b' = drop (nat i + k) bs" using IH(5) c(3) by (simp add: add.commute)
      moreover have "ret = 1 \<Longrightarrow> length bs \<le> nat i + k" using IH(6) unfolding c(3) length_drop le_diff_conv by (simp add: add.commute)
      ultimately show ?thesis
        unfolding step IH(1) using IH(2,4,6) unfolding bs_def
        by (intro exI [of _ ret] exI [of _ b'] exI [of _ x] exI [of _ w'] exI [of _ "nat i + k"]) auto
    qed
  qed
qed

end

text \<open>A pair of BIOs is such a transport.\<close>

interpretation pair_source: byte_source "\<lambda>h. pair_ok h a b" "\<lambda>h. ring (st_at h a)" "BIO_read b True" for a b
proof
  fix h n
  assume ok: "pair_ok h a b" and n: "(0 :: int) < n"
  then have ok': "pair_ok h b a" by (simp add: pair_ok_sym)
  obtain i ys h' where r: "BIO_read b True n h = Some ((i, ys), h')" "pair_ok h' b a"
    "((i, ys), pipe_of h' a) =
      (if n > 0 then if to_size n = 0 then ((0, []), (pipe_of h a)\<lparr>wanted := 0\<rparr>) else pipe_read (to_size n) (pipe_of h a)
       else ((0, []), pipe_of h a))"
    by (rule BIO_read_pipe [OF ok'])
  have "int (to_size n) \<le> n" using to_size_le [of "nat n"] n by simp
  then have "ring (st_at h a) = ys @ ring (st_at h' a) \<and> i \<le> n \<and> int (length ys) = max 0 i"
    using r(3) n by (auto simp: pipe_read_def pipe_of_def split: if_splits)
  then show "\<exists>i bs h'. BIO_read b True n h = Some ((i, bs), h') \<and> pair_ok h' a b \<and> ring (st_at h a) = bs @ ring (st_at h' a) \<and>
      i \<le> n \<and> int (length bs) = max 0 i"
    using r(1,2) by (simp add: pair_ok_sym)
qed

interpretation pair_sink: byte_sink "\<lambda>h. pair_ok h a b" "\<lambda>h. ring (st_at h a)" "\<lambda>bs. BIO_write a (Some bs)" for a b
proof
  fix h and xs :: bytes
  assume ok: "pair_ok h a b" and "xs \<noteq> []"
  obtain i h' where w: "BIO_write a (Some xs) (int (length xs)) h = Some (i, h')" "pair_ok h' a b"
    "(i, pipe_of h' a) = (if int (length xs) > 0 then pipe_write (take (to_size (int (length xs))) xs) (pipe_of h a) else (0, pipe_of h a))"
    by (rule BIO_write_pipe [OF ok to_size_le])
  have "i \<le> int (length xs) \<and> queue (pipe_of h' a) = queue (pipe_of h a) @ take (nat i) xs"
    using w(3) by (auto simp: pipe_write_def Let_def min_def split: if_splits)
  then show "\<exists>i h'. BIO_write a (Some xs) (int (length xs)) h = Some (i, h') \<and> pair_ok h' a b \<and> i \<le> int (length xs) \<and>
      ring (st_at h' a) = ring (st_at h a) @ take (nat i) xs"
    using w(1,2) by (simp add: pipe_of_def)
qed

section \<open>Extending the read buffer\<close>

text \<open>A read buffer of TLS between two calls: data in it lies at its start, before room for a whole record.\<close>

definition read_buffer_size :: nat where
  "read_buffer_size = SSL3_RT_MAX_ENCRYPTED_LENGTH + SSL3_RT_HEADER_LENGTH"

definition reader_ok :: "'k ssl_io \<Rightarrow> bool" where
  "reader_ok s \<longleftrightarrow> \<not> is_dtls (conn s) \<and> buffer_ok (read_buffer s) \<and>
     (len (read_buffer s) \<noteq> 0 \<longrightarrow> buf (read_buffer s) \<noteq> None \<and> unat (cap (read_buffer s)) = read_buffer_size)"

abbreviation unread :: "'k ssl_io \<Rightarrow> bytes" where
  "unread s \<equiv> pending_bytes (read_buffer s)"

lemma unread_discard: "buffer_ok (read_buffer s) \<Longrightarrow> unread (ssl_read_buffer_discard s) = unread s"
  using pending_empty_iff [of "read_buffer s"] by (auto simp: ssl_read_buffer_discard_def ssl_read_buffer_clear_def)

lemma take_ssl_read_buffer: "take (ssl_read_buffer_len s) (ssl_read_buffer s) = unread s"
  by (simp add: ssl_read_buffer_len_def ssl_read_buffer_def pending_bytes_def split: option.splits)

text \<open>\<open>setup_read_buffer\<close> after \<open>ssl_read_buffer_discard\<close>.\<close>

lemma setup_read_buffer_ok:
  assumes "reader_ok s" "setup_read_buffer (ssl_read_buffer_discard s) = (r, s1)"
  shows "\<exists>b e. s1 = s\<lparr>read_buffer := b, mem := e\<rparr> \<and> buffer_ok b \<and> pending_bytes b = unread s \<and>
    (r \<longrightarrow> buf b \<noteq> None \<and> unat (cap b) = read_buffer_size) \<and> (\<not> r \<longrightarrow> len b = 0) \<and>
    (never_fails (mem s) \<longrightarrow> r \<and> never_fails e)"
proof (cases "len (read_buffer s) = 0")
  case True
  then have nil: "unread s = []" using assms(1) pending_empty_iff by (auto simp: reader_ok_def)
  let ?n = "SSL3_RT_MAX_ENCRYPTED_LENGTH + SSL3_RT_HEADER_LENGTH"
  obtain x e where x: "setup_buffer (next_addr s) clear_buffer (ssl_record_prefix_len (conn s)) ?n (mem s) = (x, e)" by fastforce
  have no_block: "buf clear_buffer = None" by (simp add: clear_buffer_def)
  have run: "setup_read_buffer (ssl_read_buffer_discard s) =
      (case x of None \<Rightarrow> (False, s\<lparr>read_buffer := clear_buffer, mem := e\<rparr>) | Some b \<Rightarrow> (True, s\<lparr>read_buffer := b, mem := e\<rparr>))"
    using True assms(1) x no_block
    by (simp add: setup_read_buffer_def ssl_read_buffer_discard_def ssl_read_buffer_clear_def reader_ok_def split: option.split)
  have small: "?n \<le> 0xffff" by (simp add: SSL3_RT_MAX_ENCRYPTED_LENGTH_def SSL3_RT_HEADER_LENGTH_def)
  have mem: "never_fails (mem s) \<longrightarrow> x \<noteq> None \<and> never_fails e"
    using x no_block small by (auto simp: setup_buffer_def libc_malloc_def split: if_splits prod.splits)
  show ?thesis
  proof (cases x)
    case None
    then show ?thesis using run assms(2) nil mem
      by (intro exI [of _ clear_buffer] exI [of _ e]) (simp, simp add: clear_buffer_def)
  next
    case (Some b)
    have "?n < 2 ^ 16 - 8" by (simp add: SSL3_RT_MAX_ENCRYPTED_LENGTH_def SSL3_RT_HEADER_LENGTH_def)
    from setup_buffer_ok [OF x [unfolded Some] this] show ?thesis
      using run assms(2) nil Some mem by (intro exI [of _ b] exI [of _ e]) (simp add: read_buffer_size_def)
  qed
next
  case False
  then have "setup_read_buffer (ssl_read_buffer_discard s) = (True, s)"
    using assms(1) by (auto simp: setup_read_buffer_def ssl_read_buffer_discard_def reader_ok_def)
  then show ?thesis using assms False
    by (intro exI [of _ "read_buffer s"] exI [of _ "mem s"]) (auto simp: reader_ok_def)
qed

text \<open>What a call does not touch.\<close>

definition same_but_reading :: "'k ssl_io \<Rightarrow> 'k ssl_io \<Rightarrow> bool" where
  "same_but_reading s s' \<longleftrightarrow> conn s' = conn s \<and> write_buffer s' = write_buffer s \<and> next_addr s' = next_addr s"

context byte_source
begin

lemma extend_to:
  fixes s :: "'k ssl_io"
  assumes "ok w" "reader_ok s" "rbio t = Some rd"
  shows "\<exists>ret s' w' bs. ssl_read_buffer_extend_to t n s w = Some (ret, s', w') \<and> ok w' \<and> contents w = bs @ contents w' \<and>
    reader_ok s' \<and> unread s' = unread s @ bs \<and> same_but_reading s s' \<and>
    (if ret = 1 then length (unread s') = max n (length (unread s)) else ret \<le> 0 \<and> (bs = [] \<or> length (unread s') < n)) \<and>
    (ret \<noteq> 1 \<and> n \<le> read_buffer_size \<and> never_fails (mem s) \<longrightarrow> refuses ok contents rd ret w') \<and> (never_fails (mem s) \<longrightarrow> never_fails (mem s'))"
proof -
  obtain r s1 where su: "setup_read_buffer (ssl_read_buffer_discard s) = (r, s1)" by fastforce
  obtain b e where s1: "s1 = s\<lparr>read_buffer := b, mem := e\<rparr>" and b: "buffer_ok b" "pending_bytes b = unread s"
    "r \<Longrightarrow> buf b \<noteq> None \<and> unat (cap b) = read_buffer_size" "\<not> r \<Longrightarrow> len b = 0"
    and never: "never_fails (mem s) \<longrightarrow> r \<and> never_fails e"
    using setup_read_buffer_ok [OF assms(2) su] by blast
  have tls: "\<not> is_dtls (conn s1)" using assms(2) by (simp add: s1 reader_ok_def)
  show ?thesis
  proof (cases r)
    case False
    then have "ssl_read_buffer_extend_to t n s w = Some (-1, s1, w)" by (simp add: ssl_read_buffer_extend_to_def su)
    then show ?thesis
      using assms(1) b(1,2) b(4) [OF False] tls never False
      by (intro exI [of _ "-1"] exI [of _ s1] exI [of _ w] exI [of _ "[]"]) (simp add: s1 reader_ok_def same_but_reading_def)
  next
    case True
    note b3 = b(3) [OF True]
    define fin where "fin = (\<lambda>(ret :: int, s2 :: 'k ssl_io, w2 :: 'w). (ret, if ret \<le> 0 then ssl_read_buffer_discard s2 else s2, w2))"
    have run: "ssl_read_buffer_extend_to t n s w = map_option fin (tls_read_buffer_extend_to rd n s1 w)"
      using True tls assms(3) by (simp add: ssl_read_buffer_extend_to_def su fin_def)
    have disc: "reader_ok (ssl_read_buffer_discard s2)" "same_but_reading s (ssl_read_buffer_discard s2)"
        "unread (ssl_read_buffer_discard s2) = unread s2" "mem (ssl_read_buffer_discard s2) = mem s2" if "reader_ok s2" "same_but_reading s s2" for s2 :: "'k ssl_io"
      using that unread_discard [of s2]
      by (auto simp: reader_ok_def ssl_read_buffer_discard_def ssl_read_buffer_clear_def same_but_reading_def clear_buffer_def buffer_ok_def)
    show ?thesis
    proof (cases "n > unat (cap (read_buffer s1))")
      case True
      then have "tls_read_buffer_extend_to rd n s1 w = Some (-1, s1, w)" by (simp add: tls_read_buffer_extend_to_def)
      moreover have "mem s1 = e" "read_buffer s1 = b" by (simp_all add: s1)
      moreover have "reader_ok s1" "same_but_reading s s1" "unread s1 = unread s"
        using b(1,2) b3 tls by (simp_all add: s1 reader_ok_def same_but_reading_def)
      ultimately show ?thesis
        using assms(1) disc [of s1] never b3 True unfolding run fin_def
        by (intro exI [of _ "-1"] exI [of _ "ssl_read_buffer_discard s1"] exI [of _ w] exI [of _ "[]"]) simp
    next
      case False
      have rb: "read_buffer s1 = b" by (simp add: s1)
      obtain ret b' x w' bs where loop: "tls_read_loop rd n s1 w = Some (ret, s1\<lparr>read_buffer := b', rwstate := x\<rparr>, w')"
        "ok w'" "contents w = bs @ contents w'" "buffer_ok b'" "buf b' \<noteq> None" "cap b' = cap b" "pending_bytes b' = pending_bytes b @ bs"
        "if ret = 1 then length (pending_bytes b') = max n (length (pending_bytes b)) \<and> x = rwstate s1
         else ret \<le> 0 \<and> length (pending_bytes b') < n \<and> x = SSL_READING \<and> refuses ok contents rd ret w'"
        using tls_read_loop_fill [OF assms(1), of s1 n] b(1) b3 False unfolding rb by (metis not_less)
      define s2 where "s2 = s1\<lparr>read_buffer := b', rwstate := x\<rparr>"
      have ext: "tls_read_buffer_extend_to rd n s1 w = Some (ret, s2, w')"
        using False loop(1) by (simp add: tls_read_buffer_extend_to_def s2_def)
      have s2: "reader_ok s2" "same_but_reading s s2" "unread s2 = unread s @ bs"
        using loop(4-7) b(2) b3 tls by (simp_all add: s2_def s1 reader_ok_def same_but_reading_def)
      have res: "if ret = 1 then length (unread s2) = max n (length (unread s)) else ret \<le> 0 \<and> length (unread s2) < n"
        using loop(8) b(2) by (simp add: s2_def split: if_splits)
      have ref: "ret \<noteq> 1 \<longrightarrow> refuses ok contents rd ret w'" using loop(8) by (simp split: if_splits)
      have mem2: "mem s2 = e" by (simp add: s2_def s1)
      show ?thesis
        unfolding run ext option.map fin_def prod.case
        using loop(2,3) s2 disc [OF s2(1,2)] res ref never mem2
        by (intro exI [of _ ret] exI [of _ "if ret \<le> 0 then ssl_read_buffer_discard s2 else s2"] exI [of _ w'] exI [of _ bs])
          (auto split: if_splits)
    qed
  qed
qed

end

section \<open>Properties\<close>

text \<open>C33: the read buffer fills from any transport, however short its reads are: a call ends, the bytes in the
  buffer followed by those still in the transport are what they were, and a call that returns 1 has the
  number of bytes that was asked for and not one more.\<close>

theorem read_buffer_extends:
  assumes "byte_source ok contents rd" "rbio t = Some rd" "ok w" "reader_ok s"
  shows "\<exists>ret s' w'. ssl_read_buffer_extend_to t n s w = Some (ret, s', w') \<and> ok w' \<and>
    unread s' @ contents w' = unread s @ contents w \<and> reader_ok s' \<and> conn s' = conn s \<and>
    (if ret = 1 then length (unread s') = max n (length (unread s)) else ret \<le> 0)"
proof -
  obtain ret s' w' bs where "ssl_read_buffer_extend_to t n s w = Some (ret, s', w')" "ok w'" "contents w = bs @ contents w'"
    "reader_ok s'" "unread s' = unread s @ bs" "same_but_reading s s'"
    "if ret = 1 then length (unread s') = max n (length (unread s)) else ret \<le> 0 \<and> (bs = [] \<or> length (unread s') < n)"
    using byte_source.extend_to [OF assms(1,3,4,2)] by blast
  then show ?thesis
    by (intro exI [of _ ret] exI [of _ s'] exI [of _ w']) (auto simp: same_but_reading_def split: if_splits)
qed

text \<open>The write buffer is flushed to any transport, however little it takes at a time: a call ends, and the
  bytes that the transport got followed by those still pending are what they were. A call that returns 1 has
  written everything and released the buffer; any other leaves bytes to write.\<close>

theorem write_buffer_flushes:
  assumes "byte_sink ok contents wr" "wbio t = Some wr" "ok w" "buffer_ok (write_buffer s)" "\<not> is_dtls (conn s)"
  shows "\<exists>ret s' w'. ssl_write_buffer_flush t s w = Some (ret, s', w') \<and> ok w' \<and>
    contents w' @ pending_bytes (write_buffer s') = contents w @ pending_bytes (write_buffer s) \<and>
    buffer_ok (write_buffer s') \<and> conn s' = conn s \<and>
    (if ret = 1 then write_buffer s' = clear_buffer else ret \<le> 0 \<and> pending_bytes (write_buffer s') \<noteq> [])"
proof -
  obtain ret b' x w' k where "tls_write_buffer_flush wr s w = Some (ret, s\<lparr>write_buffer := b', rwstate := x\<rparr>, w')"
    "ok w'" "contents w' = contents w @ take k (pending_bytes (write_buffer s))" "buffer_ok b'"
    "pending_bytes b' = drop k (pending_bytes (write_buffer s))"
    "if ret = 1 then b' = clear_buffer \<and> x = rwstate s \<and> length (pending_bytes (write_buffer s)) \<le> k
     else ret \<le> 0 \<and> pending_bytes b' \<noteq> [] \<and> x = SSL_WRITING"
    using byte_sink.tls_write_buffer_flush_sends [OF assms(1,3,4)] by blast
  then show ?thesis
    using assms(2,5) by (auto simp: ssl_write_buffer_flush_def split: if_splits)
qed

section \<open>Concrete runs\<close>

text \<open>A transport that takes and gives at most two bytes at a time.\<close>

definition slow_read :: "int \<Rightarrow> bytes \<Rightarrow> ((int \<times> bytes) \<times> bytes) option" where
  "slow_read n w =
     (let bs = take (min 2 (nat n)) w in Some ((if bs = [] then -1 else int (length bs), bs), drop (length bs) w))"

definition slow_write :: "bytes \<Rightarrow> int \<Rightarrow> bytes \<Rightarrow> (int \<times> bytes) option" where
  "slow_write bs n w = (let k = min 2 (nat n) in Some (int k, w @ take k bs))"

definition slow :: "bytes transport" where
  "slow = \<lparr>rbio = Some slow_read, wbio = Some slow_write, bio_flush = id\<rparr>"

interpretation slow_source: byte_source "\<lambda>w. True" id slow_read
  by unfold_locales (auto simp: slow_read_def Let_def min_def)

interpretation slow_sink: byte_sink "\<lambda>w. True" id slow_write
  by unfold_locales (auto simp: slow_write_def Let_def min_def)

definition sample_io :: "u8 ssl_io" where
  "sample_io = \<lparr>conn = sample_tls, read_buffer = clear_buffer,
     write_buffer = \<lparr>buf = Some [0, 0, 0, 1, 2, 3, 4, 5, 0], offset = 3, len = 5, cap = 6\<rparr>,
     rwstate = 1, mem = plain_env, next_addr = (\<lambda>e. 0x1000)\<rparr>"

lemma sample_reader_ok: "reader_ok sample_io" "unread sample_io = []"
  by (simp_all add: reader_ok_def sample_io_def sample_tls_def) (simp add: clear_buffer_def)

lemma read_buffer_extends_witness:
  "\<exists>ret s' w'. ssl_read_buffer_extend_to slow 5 sample_io [1, 2, 3, 4, 5, 6, 7] = Some (ret, s', w') \<and>
     unread s' @ w' = [1, 2, 3, 4, 5, 6, 7] \<and> (ret = 1 \<longrightarrow> length (unread s') = 5)"
  using read_buffer_extends [OF slow_source.byte_source_axioms, where t = slow and w = "[1, 2, 3, 4, 5, 6, 7]" and s = sample_io and n = 5] sample_reader_ok
  by (auto simp: slow_def split: if_splits)

lemma write_buffer_flushes_witness:
  "\<exists>ret s' w'. ssl_write_buffer_flush slow sample_io [9] = Some (ret, s', w') \<and>
     w' @ pending_bytes (write_buffer s') = [9, 1, 2, 3, 4, 5]"
proof -
  have "buffer_ok (write_buffer sample_io)" "pending_bytes (write_buffer sample_io) = [1, 2, 3, 4, 5]"
    by (simp_all add: sample_io_def buffer_ok_def pending_bytes_def)
  then show ?thesis
    using write_buffer_flushes [OF slow_sink.byte_sink_axioms, where t = slow and w = "[9]" and s = sample_io]
    by (auto simp: slow_def sample_io_def sample_tls_def)
qed

end
