(* ===== verification/TlsPkt.thy ===== *)
theory TlsPkt
  imports SslBuffer
begin

text \<open>
  TLS over a transport: \<open>ssl/s3_pkt.c\<close>, which moves records between the buffers of \<open>SslBuffer\<close> and the record
  layer of \<open>TlsRecord\<close>, splits application data into records, resumes writes that the transport has not taken
  whole, and sends alerts. A function returns its result, the connection and the transport; \<open>None\<close> is a call
  that does not return (a BIO that does not, or \<open>abort()\<close>).

  \<open>rr->data\<close> points into the read buffer, at bytes that have been decrypted in place; nothing writes to them
  before the record has been consumed, so it is the list of these bytes. \<open>ssl3_get_message\<close> belongs to the
  handshake and is a parameter. The \<open>assert\<close>s on the state of the handshake are the caller's.
\<close>

section \<open>State\<close>

record SSL3_RECORD =
  rr_type :: u8
  rr_data :: bytes

text \<open>\<open>wpend_buf\<close> and \<open>alert_addr\<close> are addresses: of the data of a pending write, and of \<open>send_alert\<close>.
  \<open>partial_write\<close> and \<open>moving_buffer\<close> are the modes \<open>SSL_MODE_ENABLE_PARTIAL_WRITE\<close> and
  \<open>SSL_MODE_ACCEPT_MOVING_WRITE_BUFFER\<close>, \<open>has_hs_data\<close> says that \<open>init_buf\<close> holds a part of a message, and
  \<open>pending_flight\<close> that there is one.\<close>

record 'k tls_conn =
  io :: "'k ssl_io"
  rrec :: SSL3_RECORD
  wnum :: nat
  wpend_tot :: nat
  wpend_type :: u8
  wpend_ret :: nat
  wpend_buf :: nat
  send_shutdown :: shutdown
  alert_dispatch :: bool
  send_alert :: bytes
  alert_addr :: nat
  pending_flight :: bool
  max_send_fragment :: nat
  partial_write :: bool
  moving_buffer :: bool
  server :: bool
  has_hs_data :: bool

definition SSL3_RT_CHANGE_CIPHER_SPEC :: u8 where "SSL3_RT_CHANGE_CIPHER_SPEC = 20"
definition SSL3_RT_HANDSHAKE :: u8 where "SSL3_RT_HANDSHAKE = 22"
definition SSL3_MT_CCS :: u8 where "SSL3_MT_CCS = 1"
definition SSL_AD_NO_RENEGOTIATION :: u8 where "SSL_AD_NO_RENEGOTIATION = 100"

text \<open>The cryptography of a connection, its randomness and its transport.\<close>

record ('k, 'w) tls_env =
  crypto :: "'k evp"
  rand_bytes :: "nat \<Rightarrow> bytes option"
  net :: "'w transport"

section \<open>Writing\<close>

text \<open>The buffer functions on a connection.\<close>

definition on_io ::
  "('k ssl_io \<Rightarrow> 'w \<Rightarrow> (int \<times> 'k ssl_io \<times> 'w) option) \<Rightarrow> 'k tls_conn \<Rightarrow> 'w \<Rightarrow> (int \<times> 'k tls_conn \<times> 'w) option"
where
  "on_io f c w = map_option (\<lambda>(ret, s, w'). (ret, c\<lparr>io := s\<rparr>, w')) (f (io c) w)"

definition ssl3_write_pending ::
  "('k, 'w) tls_env \<Rightarrow> u8 \<Rightarrow> nat \<Rightarrow> nat \<Rightarrow> 'k tls_conn \<Rightarrow> 'w \<Rightarrow> (int \<times> 'k tls_conn \<times> 'w) option"
where
  "ssl3_write_pending t type in_p n c w =
     (if wpend_tot c > n \<or> (\<not> moving_buffer c \<and> wpend_buf c \<noteq> in_p) \<or> wpend_type c \<noteq> type then Some (-1, c, w)
      else
        Option.bind (on_io (ssl_write_buffer_flush (net t)) c w) (\<lambda>(ret, c1, w1).
          if ret \<le> 0 then Some (ret, c1, w1) else Some (int (wpend_ret c1), c1, w1)))"

text \<open>Where \<open>ssl_write_buffer_init\<close> points \<open>*out_ptr\<close>, for a block allocated in \<open>e\<close>.\<close>

definition out_addr :: "'k ssl_io \<Rightarrow> env \<Rightarrow> nat" where
  "out_addr s e = unat (next_addr s e) + unat (offset (write_buffer s))"

definition do_ssl3_write ::
  "('k, 'w) tls_env \<Rightarrow> u8 \<Rightarrow> nat \<Rightarrow> bytes \<Rightarrow> 'k tls_conn \<Rightarrow> 'w \<Rightarrow> (int \<times> 'k tls_conn \<times> 'w) option"
where
  "do_ssl3_write t type in_p inp c w =
     (if ssl_write_buffer_is_pending (io c) then ssl3_write_pending t type in_p (length inp) c w
      else if pending_flight c then Some (-1, c, w)
      else if length inp > SSL3_RT_MAX_PLAIN_LENGTH then Some (-1, c, w)
      else if length inp = 0 then Some (0, c, w)
      else
        let max_out = size_add (length inp) (SSL_max_seal_overhead (crypto t) (conn (io c))) in
        if max_out < length inp then Some (-1, c, w)
        else
          (case ssl_write_buffer_init max_out (io c) of
             (False, s1) \<Rightarrow> Some (-1, c\<lparr>io := s1\<rparr>, w)
           | (True, s1) \<Rightarrow>
               (case tls_seal_record (crypto t) (rand_bytes t) (conn s1) (out_addr s1 (mem (io c))) max_out type in_p inp of
                  (None, k) \<Rightarrow> Some (-1, c\<lparr>io := s1\<lparr>conn := k\<rparr>\<rparr>, w)
                | (Some rec, k) \<Rightarrow>
                    Option.bind (ssl_write_buffer_set_len (length rec)
                        (s1\<lparr>conn := k, write_buffer := store_bytes (write_buffer s1) 0 rec\<rparr>)) (\<lambda>s2.
                      ssl3_write_pending t type in_p (length inp)
                        (c\<lparr>io := s2, wpend_tot := length inp, wpend_buf := in_p, wpend_type := type, wpend_ret := length inp\<rparr>) w))))"

text \<open>The loop of \<open>ssl3_write_app_data\<close>: \<open>tot\<close> bytes are written and \<open>n\<close> are left.\<close>

partial_function (option) write_app_data_loop ::
  "('k, 'w) tls_env \<Rightarrow> nat \<Rightarrow> bytes \<Rightarrow> nat \<Rightarrow> nat \<Rightarrow> 'k tls_conn \<Rightarrow> 'w \<Rightarrow> (int \<times> 'k tls_conn \<times> 'w) option"
where
  "write_app_data_loop t in_p inp n tot c w =
     (let nw = (if n > max_send_fragment c then max_send_fragment c else n) in
      Option.bind (do_ssl3_write t SSL3_RT_APPLICATION_DATA (in_p + tot) (take nw (drop tot inp)) c w) (\<lambda>(ret, c1, w1).
        if ret \<le> 0 then Some (ret, c1\<lparr>wnum := tot\<rparr>, w1)
        else if ret = int n \<or> partial_write c1 then Some (int tot + ret, c1, w1)
        else write_app_data_loop t in_p inp (n - nat ret) (tot + nat ret) c1 w1))"

definition ssl3_write_app_data ::
  "('k, 'w) tls_env \<Rightarrow> nat \<Rightarrow> bytes \<Rightarrow> int \<Rightarrow> 'k tls_conn \<Rightarrow> 'w \<Rightarrow> (int \<times> 'k tls_conn \<times> 'w) option"
where
  "ssl3_write_app_data t in_p inp n c w =
     (let tot = wnum c; c1 = c\<lparr>wnum := 0\<rparr> in
      if n < 0 \<or> nat n < tot then Some (-1, c1, w)
      else write_app_data_loop t in_p inp (nat n - tot) tot c1 w)"

section \<open>Alerts\<close>

definition ssl3_dispatch_alert :: "('k, 'w) tls_env \<Rightarrow> 'k tls_conn \<Rightarrow> 'w \<Rightarrow> (int \<times> 'k tls_conn \<times> 'w) option" where
  "ssl3_dispatch_alert t c w =
     Option.bind (do_ssl3_write t SSL3_RT_ALERT (alert_addr c) (take 2 (send_alert c)) c w) (\<lambda>(ret, c1, w1).
       if ret \<le> 0 then Some (ret, c1, w1)
       else Some (1, c1\<lparr>alert_dispatch := False\<rparr>,
                  if send_alert c1 ! 0 = SSL3_AL_FATAL then bio_flush (net t) w1 else w1))"

definition ssl3_send_alert :: "('k, 'w) tls_env \<Rightarrow> u8 \<Rightarrow> u8 \<Rightarrow> 'k tls_conn \<Rightarrow> 'w \<Rightarrow> (int \<times> 'k tls_conn \<times> 'w) option" where
  "ssl3_send_alert t level desc c w =
     (if send_shutdown c \<noteq> ssl_shutdown_none then Some (-1, c, w)
      else
        let c1 = c\<lparr>send_shutdown := (if level = SSL3_AL_WARNING \<and> desc = SSL_AD_CLOSE_NOTIFY
                                     then ssl_shutdown_close_notify else ssl_shutdown_fatal_alert),
                   alert_dispatch := True, send_alert := [level, desc]\<rparr>
        in if \<not> ssl_write_buffer_is_pending (io c1) then ssl3_dispatch_alert t c1 w else Some (-1, c1, w))"

section \<open>Reading\<close>

partial_function (option) ssl3_get_record :: "('k, 'w) tls_env \<Rightarrow> 'k tls_conn \<Rightarrow> 'w \<Rightarrow> (int \<times> 'k tls_conn \<times> 'w) option" where
  "ssl3_get_record t c w =
     (case recv_shutdown (conn (io c)) of
        ssl_shutdown_fatal_alert \<Rightarrow> Some (-1, c, w)
      | ssl_shutdown_close_notify \<Rightarrow> Some (0, c, w)
      | ssl_shutdown_none \<Rightarrow>
          (let s = io c; n = ssl_read_buffer_len s;
               opened = tls_open_record (crypto t) (conn s) (take n (ssl_read_buffer s)) n;
               r = fst opened; s1 = s\<lparr>conn := snd opened\<rparr>
           in Option.bind (if result r \<noteq> ssl_open_record_partial then ssl_read_buffer_consume (consumed r) s1 else Some s1) (\<lambda>s2.
                let c2 = c\<lparr>io := s2\<rparr> in
                if result r = ssl_open_record_partial then
                  Option.bind (on_io (ssl_read_buffer_extend_to (net t) (consumed r)) c2 w) (\<lambda>(ret, c3, w3).
                    if ret \<le> 0 then Some (ret, c3, w3) else ssl3_get_record t c3 w3)
                else if result r = ssl_open_record_success then
                  (if length (out r) > 0xffff then Some (-1, c2, w)
                   else Some (1, c2\<lparr>rrec := \<lparr>rr_type = out_type r, rr_data = out r\<rparr>\<rparr>, w))
                else if result r = ssl_open_record_discard then ssl3_get_record t c2 w
                else if result r = ssl_open_record_close_notify then Some (0, c2, w)
                else if result r = ssl_open_record_fatal_alert then Some (-1, c2, w)
                else
                  Option.bind (ssl3_send_alert t SSL3_AL_FATAL
                      (case out_alert r of None \<Rightarrow> SSL_AD_DECODE_ERROR | Some a \<Rightarrow> a) c2 w) (\<lambda>(ret, c3, w3).
                    Some (-1, c3, w3)))))"

text \<open>The number of bytes, the bytes, and the connection.\<close>

definition consume_record :: "int \<Rightarrow> bool \<Rightarrow> 'k tls_conn \<Rightarrow> (int \<times> bytes) \<times> 'k tls_conn" where
  "consume_record n peek c =
     (if n \<le> 0 then ((n, []), c)
      else
        let k = min (nat n) (length (rr_data (rrec c)));
            bs = take k (rr_data (rrec c))
        in if peek then ((int k, bs), c)
           else
             let c1 = c\<lparr>rrec := (rrec c)\<lparr>rr_data := drop k (rr_data (rrec c))\<rparr>\<rparr>
             in ((int k, bs),
                 if rr_data (rrec c1) = [] then c1\<lparr>io := ssl_read_buffer_discard (io c1)\<rparr> else c1))"

partial_function (option) ssl3_read_handshake_bytes ::
  "('k, 'w) tls_env \<Rightarrow> int \<Rightarrow> 'k tls_conn \<Rightarrow> 'w \<Rightarrow> ((int \<times> bytes) \<times> 'k tls_conn \<times> 'w) option"
where
  "ssl3_read_handshake_bytes t n c w =
     Option.bind (if rr_data (rrec c) = [] then ssl3_get_record t c w else Some (1, c, w)) (\<lambda>(ret, c1, w1).
       if ret \<le> 0 then Some ((ret, []), c1, w1)
       else if rr_type (rrec c1) \<noteq> SSL3_RT_HANDSHAKE then
         Option.bind (ssl3_send_alert t SSL3_AL_FATAL SSL_AD_UNEXPECTED_MESSAGE c1 w1) (\<lambda>(ret2, c2, w2). Some ((-1, []), c2, w2))
       else if rr_data (rrec c1) \<noteq> [] then
         (case consume_record n False c1 of (r, c2) \<Rightarrow> Some (r, c2, w1))
       else ssl3_read_handshake_bytes t n c1 w1)"

text \<open>The result of a read of application data, with \<open>*out_got_handshake\<close>.\<close>

partial_function (option) ssl3_read_app_data ::
  "('k, 'w) tls_env \<Rightarrow> ('k tls_conn \<Rightarrow> 'w \<Rightarrow> (int \<times> 'k tls_conn \<times> 'w) option) \<Rightarrow> int \<Rightarrow> bool \<Rightarrow>
   'k tls_conn \<Rightarrow> 'w \<Rightarrow> ((int \<times> bytes \<times> bool) \<times> 'k tls_conn \<times> 'w) option"
where
  "ssl3_read_app_data t get_message n peek c w =
     Option.bind (if rr_data (rrec c) = [] \<and> \<not> has_hs_data c then ssl3_get_record t c w else Some (1, c, w)) (\<lambda>(ret, c1, w1).
       if ret \<le> 0 then Some ((ret, [], False), c1, w1)
       else if has_hs_data c \<or> rr_type (rrec c1) = SSL3_RT_HANDSHAKE then
         (if server c1 \<and> ssl3_protocol_version (conn (io c1)) < TLS1_3_VERSION then
            Option.bind (ssl3_send_alert t SSL3_AL_FATAL SSL_AD_NO_RENEGOTIATION c1 w1) (\<lambda>(ret2, c2, w2). Some ((-1, [], False), c2, w2))
          else
            Option.bind (get_message c1 w1) (\<lambda>(ret2, c2, w2).
              if ret2 \<le> 0 then Some ((ret2, [], False), c2, w2) else Some ((-1, [], True), c2, w2)))
       else if rr_type (rrec c1) \<noteq> SSL3_RT_APPLICATION_DATA then
         Option.bind (ssl3_send_alert t SSL3_AL_FATAL SSL_AD_UNEXPECTED_MESSAGE c1 w1) (\<lambda>(ret2, c2, w2). Some ((-1, [], False), c2, w2))
       else if rr_data (rrec c1) \<noteq> [] then
         (case consume_record n peek c1 of ((k, bs), c2) \<Rightarrow> Some ((k, bs, False), c2, w1))
       else ssl3_read_app_data t get_message n peek c1 w1)"

definition ssl3_read_change_cipher_spec :: "('k, 'w) tls_env \<Rightarrow> 'k tls_conn \<Rightarrow> 'w \<Rightarrow> (int \<times> 'k tls_conn \<times> 'w) option" where
  "ssl3_read_change_cipher_spec t c w =
     Option.bind (if rr_data (rrec c) = [] then ssl3_get_record t c w else Some (1, c, w)) (\<lambda>(ret, c1, w1).
       if ret \<le> 0 then Some (ret, c1, w1)
       else if rr_type (rrec c1) \<noteq> SSL3_RT_CHANGE_CIPHER_SPEC then
         Option.bind (ssl3_send_alert t SSL3_AL_FATAL SSL_AD_UNEXPECTED_MESSAGE c1 w1) (\<lambda>(ret2, c2, w2). Some (-1, c2, w2))
       else if length (rr_data (rrec c1)) \<noteq> 1 \<or> rr_data (rrec c1) ! 0 \<noteq> SSL3_MT_CCS then
         Option.bind (ssl3_send_alert t SSL3_AL_FATAL SSL_AD_ILLEGAL_PARAMETER c1 w1) (\<lambda>(ret2, c2, w2). Some (-1, c2, w2))
       else Some (1, c1\<lparr>rrec := (rrec c1)\<lparr>rr_data := []\<rparr>, io := ssl_read_buffer_discard (io c1)\<rparr>, w1))"

partial_function (option) ssl3_read_close_notify :: "('k, 'w) tls_env \<Rightarrow> 'k tls_conn \<Rightarrow> 'w \<Rightarrow> ('k tls_conn \<times> 'w) option" where
  "ssl3_read_close_notify t c w =
     Option.bind (ssl3_get_record t c w) (\<lambda>(ret, c1, w1). if ret > 0 then ssl3_read_close_notify t c1 w1 else Some (c1, w1))"

section \<open>Reading a record from a transport\<close>

text \<open>What \<open>ssl3_get_record\<close> does in one round when the record layer asks for more bytes.\<close>

lemma get_record_partial:
  assumes "recv_shutdown (conn (io c)) = ssl_shutdown_none"
    "tls_open_record (crypto t) (conn (io c)) (unread (io c)) (length (unread (io c))) =
      ((dropped m)\<lparr>result := ssl_open_record_partial\<rparr>, conn (io c))" "buffer_ok (read_buffer (io c))"
  shows "ssl3_get_record t c w =
    Option.bind (ssl_read_buffer_extend_to (net t) m (io c) w) (\<lambda>(ret, s, w1).
      if ret \<le> 0 then Some (ret, c\<lparr>io := s\<rparr>, w1) else ssl3_get_record t (c\<lparr>io := s\<rparr>) w1)"
proof -
  have n: "ssl_read_buffer_len (io c) = length (unread (io c))"
    using assms(3) by (simp add: ssl_read_buffer_len_def)
  have op: "tls_open_record (crypto t) (conn (io c)) (take (ssl_read_buffer_len (io c)) (ssl_read_buffer (io c))) (ssl_read_buffer_len (io c)) =
      ((dropped m)\<lparr>result := ssl_open_record_partial\<rparr>, conn (io c))"
    unfolding take_ssl_read_buffer unfolding n by (rule assms(2))
  have "io c\<lparr>conn := conn (io c)\<rparr> = io c" "c\<lparr>io := io c\<rparr> = c" by simp_all
  then show ?thesis
    by (subst ssl3_get_record.simps) (simp add: assms(1) op Let_def dropped_def on_io_def,
      cases "ssl_read_buffer_extend_to (net t) m (io c) w", auto)
qed

lemma get_record_whole:
  assumes "recv_shutdown (conn (io c)) = ssl_shutdown_none"
    "tls_open_record (crypto t) (conn (io c)) (unread (io c)) (length (unread (io c))) =
      (\<lparr>result = ssl_open_record_success, consumed = length (unread (io c)), out_type = ty, out = inp, out_alert = None\<rparr>, k)"
    "reader_ok (io c)" "length inp \<le> SSL3_RT_MAX_PLAIN_LENGTH" "is_dtls k = is_dtls (conn (io c))"
  shows "\<exists>s. ssl3_get_record t c w = Some (1, c\<lparr>io := s, rrec := \<lparr>rr_type = ty, rr_data = inp\<rparr>\<rparr>, w) \<and> reader_ok s \<and> unread s = [] \<and>
    conn s = k \<and> write_buffer s = write_buffer (io c) \<and> next_addr s = next_addr (io c) \<and> mem s = mem (io c)"
proof -
  have bok: "buffer_ok (read_buffer (io c))" using assms(3) by (simp add: reader_ok_def)
  then have n: "ssl_read_buffer_len (io c) = length (unread (io c))" by (simp add: ssl_read_buffer_len_def)
  have op: "tls_open_record (crypto t) (conn (io c)) (take (ssl_read_buffer_len (io c)) (ssl_read_buffer (io c))) (ssl_read_buffer_len (io c)) =
      (\<lparr>result = ssl_open_record_success, consumed = length (unread (io c)), out_type = ty, out = inp, out_alert = None\<rparr>, k)"
    unfolding take_ssl_read_buffer unfolding n by (rule assms(2))
  have "length (unread (io c)) \<le> unat (len (read_buffer (io c)))" using bok by simp
  from consume_buffer_ok [OF bok this] obtain b' where b': "consume_buffer (read_buffer (io c)) (length (unread (io c))) = Some b'"
    "buffer_ok b'" "pending_bytes b' = drop (length (unread (io c))) (unread (io c))"
    by metis
  then have nil: "pending_bytes b' = []" by simp
  define s where "s = io c\<lparr>conn := k, read_buffer := b'\<rparr>"
  have "ssl_read_buffer_consume (length (unread (io c))) (io c\<lparr>conn := k\<rparr>) = Some s"
    using b'(1) by (simp add: ssl_read_buffer_consume_def s_def)
  moreover have "\<not> length inp > 0xffff" using assms(4) by (simp add: SSL3_RT_MAX_PLAIN_LENGTH_def)
  ultimately have "ssl3_get_record t c w = Some (1, c\<lparr>io := s, rrec := \<lparr>rr_type = ty, rr_data = inp\<rparr>\<rparr>, w)"
    by (subst ssl3_get_record.simps) (simp add: assms(1) op Let_def)
  moreover have "reader_ok s" using b'(2) nil pending_empty_iff [OF b'(2)] assms(3,5) by (simp add: s_def reader_ok_def)
  ultimately show ?thesis using nil by (intro exI [of _ s]) (simp add: s_def)
qed

text \<open>How a sealed record can be met on a transport: some of it has been read, some more has arrived, and the rest
  comes later.\<close>

definition arriving :: "bytes \<Rightarrow> bytes \<Rightarrow> bytes \<Rightarrow> bytes \<Rightarrow> bytes \<Rightarrow> bool" where
  "arriving done_part here later rec beyond \<longleftrightarrow> done_part @ here @ later = rec @ beyond \<and> length done_part \<le> length rec"

lemma arriving_prefix: "arriving u h l rec beyond \<Longrightarrow> u = take (length u) rec"
  unfolding arriving_def by (metis append_eq_append_conv_if append_eq_conv_conj take_append diff_is_0_eq take_0 append_Nil2)

context byte_source
begin

lemma get_record:
  fixes c :: "'k tls_conn"
  assumes "do_seal_record (crypto t) rand s out_p max_out ty in_p inp = (Some rec, s')" "in_step (crypto t) s (conn (io c))"
    "sendable s ty inp" "inp = [] \<longrightarrow> empty_record_count (conn (io c)) < kMaxEmptyRecords" "\<forall>n v. rand n = Some v \<longrightarrow> length v = n"
    "recv_shutdown (conn (io c)) = ssl_shutdown_none" "rbio (net t) = Some rd" "length rec \<le> read_buffer_size"
    "ok w" "reader_ok (io c)" "arriving (unread (io c)) (contents w) later rec beyond"
  shows "\<exists>ret c' w'. ssl3_get_record t c w = Some (ret, c', w') \<and> ok w' \<and> reader_ok (io c') \<and> c' = c\<lparr>io := io c', rrec := rrec c'\<rparr> \<and>
    (\<exists>x. contents w = x @ contents w') \<and> write_buffer (io c') = write_buffer (io c) \<and> (never_fails (mem (io c)) \<longrightarrow> never_fails (mem (io c'))) \<and>
    (if ret = 1 then rrec c' = \<lparr>rr_type = ty, rr_data = inp\<rparr> \<and> unread (io c') = [] \<and> contents w' @ later = beyond \<and>
       conn (io c') = received (write_sequence s') inp (conn (io c))
     else ret \<le> 0 \<and> arriving (unread (io c')) (contents w') later rec beyond \<and> length (unread (io c')) < length rec \<and>
       rrec c' = rrec c \<and> conn (io c') = conn (io c) \<and> (never_fails (mem (io c)) \<longrightarrow> refuses ok contents rd ret w'))"
  using assms(2,4,6,9-11)
proof (induction "length rec - length (unread (io c))" arbitrary: c w rule: less_induct)
  case less
  note sh = less.prems(3) and okw = less.prems(4) and rok = less.prems(5) and arr = less.prems(6)
  have pre: "unread (io c) = take (length (unread (io c))) rec" by (rule arriving_prefix [OF arr])
  have bok: "buffer_ok (read_buffer (io c))" using rok by (simp add: reader_ok_def)
  show ?case
  proof (cases "length (unread (io c)) = length rec")
    case True
    then have u: "unread (io c) = rec" using pre by simp
    note o = tls_open_sealed(1) [OF assms(1) less.prems(1) assms(3) less.prems(2) assms(5), where beyond = "[]", unfolded append_Nil2]
    have pl: "length inp \<le> SSL3_RT_MAX_PLAIN_LENGTH" using assms(3) by (simp add: sendable_def)
    have dt: "is_dtls (received (write_sequence s') inp (conn (io c))) = is_dtls (conn (io c))" by (simp add: received_def)
    from get_record_whole [OF sh o [folded u] rok pl dt]
    obtain sx where sx: "ssl3_get_record t c w = Some (1, c\<lparr>io := sx, rrec := \<lparr>rr_type = ty, rr_data = inp\<rparr>\<rparr>, w)" "reader_ok sx"
      "unread sx = []" "conn sx = received (write_sequence s') inp (conn (io c))" "write_buffer sx = write_buffer (io c)" "mem sx = mem (io c)"
      by blast
    have "contents w @ later = beyond" using arr unfolding arriving_def u by simp
    then show ?thesis
      unfolding sx(1) using okw sx(2-6)
      by (intro exI [of _ 1] exI [of _ "c\<lparr>io := sx, rrec := \<lparr>rr_type = ty, rr_data = inp\<rparr>\<rparr>"] exI [of _ w]) simp
  next
    case False
    then have k: "length (unread (io c)) < length rec" using arr by (simp add: arriving_def)
    obtain m where m: "tls_open_record (crypto t) (conn (io c)) (unread (io c)) (length (unread (io c))) =
        ((dropped m)\<lparr>result := ssl_open_record_partial\<rparr>, conn (io c))" "length (unread (io c)) < m" "m \<le> length rec"
      using tls_open_prefix [OF assms(1) less.prems(1) assms(3,5) k] unfolding pre [symmetric] by blast
    obtain ret s1 w1 bs where ext: "ssl_read_buffer_extend_to (net t) m (io c) w = Some (ret, s1, w1)" "ok w1" "contents w = bs @ contents w1"
      "reader_ok s1" "unread s1 = unread (io c) @ bs" "same_but_reading (io c) s1"
      "if ret = 1 then length (unread s1) = max m (length (unread (io c))) else ret \<le> 0 \<and> (bs = [] \<or> length (unread s1) < m)"
      "ret \<noteq> 1 \<and> m \<le> read_buffer_size \<and> never_fails (mem (io c)) \<longrightarrow> refuses ok contents rd ret w1"
      "never_fails (mem (io c)) \<longrightarrow> never_fails (mem s1)"
      using extend_to [OF okw rok assms(7), of m] by blast
    have same: "conn s1 = conn (io c)" "write_buffer s1 = write_buffer (io c)" using ext(6) by (simp_all add: same_but_reading_def)
    note round = get_record_partial [where c = c and w = w, OF sh m(1) bok, unfolded ext(1) bind.bind_lunit prod.case]
    have arr1: "arriving (unread s1) (contents w1) later rec beyond"
      using arr ext(3,5,7) m(2,3) k by (auto simp: arriving_def split: if_splits)
    show ?thesis
    proof (cases "ret = 1")
      case False
      then have "ret \<le> 0" using ext(7) by simp
      moreover have "m \<le> read_buffer_size" using m(3) assms(8) by simp
      moreover have "length (unread s1) < length rec" using ext(5,7) False m(3) k by auto
      ultimately show ?thesis
        using False ext(2,3,4,8,9) same arr1 unfolding round
        by (intro exI [of _ ret] exI [of _ "c\<lparr>io := s1\<rparr>"] exI [of _ w1]) simp
    next
      case True
      then have "length (unread s1) = m" using ext(7) m(2) by simp
      then have dec: "length rec - length (unread (io (c\<lparr>io := s1\<rparr>))) < length rec - length (unread (io c))" using m(2,3) by simp
      have sel: "io (c\<lparr>io := s1\<rparr>) = s1" "rrec (c\<lparr>io := s1\<rparr>) = rrec c" "c\<lparr>io := s1\<rparr>\<lparr>io := x, rrec := y\<rparr> = c\<lparr>io := x, rrec := y\<rparr>" for x y
        by simp_all
      note IH = less.hyps [OF dec, unfolded sel same, OF less.prems(1-3) ext(2,4) arr1]
      have "ssl3_get_record t c w = ssl3_get_record t (c\<lparr>io := s1\<rparr>) w1" using True round by simp
      moreover have "\<exists>x. contents w1 = x @ contents v \<Longrightarrow> \<exists>x. contents w = x @ contents v" for v
        unfolding ext(3) by (metis append_assoc)
      ultimately show ?thesis using IH ext(9) by (metis (no_types, lifting))
    qed
  qed
qed

end

lemma sealed_fits:
  assumes "do_seal_record evp rand s out_p max_out ty in_p inp = (Some rec, s')" "in_step evp s r" "sendable s ty inp"
    "\<forall>n v. rand n = Some v \<longrightarrow> length v = n"
  shows "length rec \<le> read_buffer_size"
proof -
  have "length rec \<le> length inp + (if ssl_uses_short_header s evp_aead_seal then 2 else SSL3_RT_HEADER_LENGTH) +
      SSL_AEAD_CTX_max_overhead evp (aead_write_ctx s) + (if have_version s \<and> ssl3_protocol_version s \<ge> TLS1_3_VERSION then 1 else 0)"
    using do_seal_record_bound [OF assms(1) _ _ assms(4)] assms(2) unfolding in_step_def by blast
  moreover have "SSL_AEAD_CTX_max_overhead evp (aead_write_ctx s) < 320" using assms(2) unfolding in_step_def by blast
  moreover have "length inp \<le> SSL3_RT_MAX_PLAIN_LENGTH" using assms(3) by (simp add: sendable_def)
  ultimately show ?thesis
    by (simp add: read_buffer_size_def SSL3_RT_MAX_ENCRYPTED_LENGTH_def SSL3_RT_HEADER_LENGTH_def SSL3_RT_MAX_PLAIN_LENGTH_def
        split: if_splits)
qed

section \<open>Properties\<close>

text \<open>C32: TLS over a transport reads what was sealed, however the record is cut up on its way. A call of
  \<open>ssl3_get_record\<close> ends: it delivers the record, with nothing of what follows it taken from the transport, or
  returns another result with no byte lost, and then - when memory does not fail - because the transport refused.\<close>

theorem get_record_reassembles:
  assumes "byte_source ok contents rd" "rbio (net t) = Some rd" "ok w" "reader_ok (io c)"
    "do_seal_record (crypto t) rand s out_p max_out ty in_p inp = (Some rec, s')" "in_step (crypto t) s (conn (io c))"
    "sendable s ty inp" "inp = [] \<longrightarrow> empty_record_count (conn (io c)) < kMaxEmptyRecords" "\<forall>n v. rand n = Some v \<longrightarrow> length v = n"
    "recv_shutdown (conn (io c)) = ssl_shutdown_none"
    "unread (io c) @ contents w @ later = rec @ beyond" "length (unread (io c)) \<le> length rec"
  shows "\<exists>ret c' w'. ssl3_get_record t c w = Some (ret, c', w') \<and> ok w' \<and> reader_ok (io c') \<and>
    (if ret = 1 then rrec c' = \<lparr>rr_type = ty, rr_data = inp\<rparr> \<and> unread (io c') = [] \<and> contents w' @ later = beyond \<and>
       in_step (crypto t) s' (conn (io c'))
     else ret \<le> 0 \<and> unread (io c') @ contents w' @ later = rec @ beyond \<and> length (unread (io c')) \<le> length rec \<and>
       conn (io c') = conn (io c) \<and> (never_fails (mem (io c)) \<longrightarrow> refuses ok contents rd ret w'))"
proof -
  note small = sealed_fits [OF assms(5,6,7,9)]
  have arr: "arriving (unread (io c)) (contents w) later rec beyond" using assms(11,12) by (simp add: arriving_def)
  have step: "in_step (crypto t) s' (received (write_sequence s') inp (conn (io c)))"
    by (rule tls_open_sealed(2) [OF assms(5-9)])
  from byte_source.get_record [OF assms(1) assms(5-10,2) small assms(3,4) arr]
  show ?thesis unfolding arriving_def using step by (metis (no_types, lifting))
qed

section \<open>Concrete runs\<close>

definition sample_env :: "(u8, bytes) tls_env" where
  "sample_env = \<lparr>crypto = toy_evp, rand_bytes = (\<lambda>n. None), net = slow\<rparr>"

definition sample_conn :: "u8 tls_conn" where
  "sample_conn = \<lparr>io = sample_io\<lparr>write_buffer := clear_buffer\<rparr>, rrec = \<lparr>rr_type = 0, rr_data = []\<rparr>, wnum = 0, wpend_tot = 0,
     wpend_type = 0, wpend_ret = 0, wpend_buf = 0, send_shutdown = ssl_shutdown_none, alert_dispatch = False, send_alert = [0, 0],
     alert_addr = 0x80, pending_flight = False, max_send_fragment = 2, partial_write = False, moving_buffer = False,
     server = False, has_hs_data = False\<rparr>"

lemma get_record_reassembles_witness:
  "case do_seal_record toy_evp (\<lambda>n. None) sample_tls 0 200 22 300 [13] of
     (None, s') \<Rightarrow> False
   | (Some rec, s') \<Rightarrow> \<exists>c'. ssl3_get_record sample_env sample_conn (rec @ [1, 2]) = Some (1, c', [1, 2]) \<and>
       rrec c' = \<lparr>rr_type = 22, rr_data = [13]\<rparr>"
proof -
  obtain rec s' where r: "do_seal_record toy_evp (\<lambda>n. None) sample_tls 0 200 22 300 [13] = (Some rec, s')"
  proof -
    have "case do_seal_record toy_evp (\<lambda>n. None) sample_tls 0 200 22 300 [13] of (None, s') \<Rightarrow> False | (Some rec, s') \<Rightarrow> True" by code_simp
    then show thesis using that by (auto split: prod.splits option.splits)
  qed
  have io: "reader_ok (io sample_conn)" "unread (io sample_conn) = []" "conn (io sample_conn) = sample_tls" "never_fails (mem (io sample_conn))"
    using sample_reader_ok by (simp_all add: sample_conn_def reader_ok_def) (simp_all add: sample_io_def never_fails_def plain_env_def)
  have env: "crypto sample_env = toy_evp" "rbio (net sample_env) = Some slow_read" by (simp_all add: sample_env_def slow_def)
  have ok: "sendable sample_tls 22 [13]" "recv_shutdown sample_tls = ssl_shutdown_none" by code_simp+
  obtain ret c' w' where g: "ssl3_get_record sample_env sample_conn (rec @ [1, 2]) = Some (ret, c', w')"
    "if ret = 1 then rrec c' = \<lparr>rr_type = 22, rr_data = [13]\<rparr> \<and> unread (io c') = [] \<and> id w' @ [] = [1, 2] \<and> in_step toy_evp s' (conn (io c'))
     else ret \<le> 0 \<and> unread (io c') @ id w' @ [] = rec @ [1, 2] \<and> length (unread (io c')) \<le> length rec \<and> conn (io c') = sample_tls \<and>
       (never_fails (mem (io sample_conn)) \<longrightarrow> refuses (\<lambda>w. True) id slow_read ret w')"
    using get_record_reassembles [where c = sample_conn and t = sample_env and w = "rec @ [1, 2]" and later = "[]" and beyond = "[1, 2]", unfolded io env,
        OF slow_source.byte_source_axioms refl TrueI io(1) r sample_in_step ok(1) _ _ ok(2)] by auto
  have "ret = 1"
  proof (rule ccontr)
    assume "ret \<noteq> 1"
    then have "refuses (\<lambda>w. True) id slow_read ret w'" and all: "unread (io c') @ w' = rec @ [1, 2]" "length (unread (io c')) \<le> length rec"
      using g(2) io(4) by simp_all
    then have "w' = []" by (auto simp: refuses_def slow_read_def Let_def split: if_splits)
    with all show False by (metis append_Nil2 length_append list.size(3) not_add_less1 le_imp_less_Suc append_is_Nil_conv add_le_same_cancel1 le_zero_eq length_0_conv list.discI)
  qed
  then show ?thesis using g unfolding r by auto
qed

end
