(* ===== verification/TlsStream.thy ===== *)
theory TlsStream
  imports TlsPkt
begin

text \<open>
  What an application gets from TLS over a transport (\<open>ssl/s3_pkt.c\<close>): \<open>ssl3_write_app_data\<close> sends its data once
  and in order, over any number of calls and whatever the transport takes at a time, and \<open>ssl3_read_app_data\<close>
  delivers the data of the peer. Each direction has an invariant, \<open>sending\<close> and \<open>receiving\<close>, proved in the locale
  of its transport.
\<close>

section \<open>Writing to a transport\<close>

text \<open>What the record layer needs of a sender, and what sealing keeps.\<close>

definition sender_ok :: "'k evp \<Rightarrow> 'k ssl \<Rightarrow> bool" where
  "sender_ok evp s \<longleftrightarrow> \<not> is_dtls s \<and> length (write_sequence s) = 8 \<and> (\<forall>a. aead_write_ctx s = Some a \<longrightarrow> aead_ok evp a)"

lemma write_sequence_twice:
  assumes "a = s\<lparr>write_sequence := p\<rparr>" "b = a\<lparr>write_sequence := q\<rparr>"
  shows "b = s\<lparr>write_sequence := write_sequence b\<rparr>"
  using assms by simp

lemma seal_record_sender:
  assumes "do_seal_record evp rand s out_p max_out ty in_p inp = (Some rec, s')" "sender_ok evp s" "\<forall>n v. rand n = Some v \<longrightarrow> length v = n"
  shows "sender_ok evp s' \<and> s' = s\<lparr>write_sequence := write_sequence s'\<rparr> \<and> rec \<noteq> []"
proof -
  have sd: "\<not> is_dtls s" "length (write_sequence s) = 8" "\<forall>a. aead_write_ctx s = Some a \<longrightarrow> aead_ok evp a"
    using assms(2) unfolding sender_ok_def by blast+
  obtain c out_q max_q in_q seq where "rec = tls_header (ssl_uses_short_header s evp_aead_seal) (fst (inner s ty inp)) (wire_version_tls s) (length c) @ c"
    using do_seal_record_Some [OF assms(1) sd(2)] by metis
  then have "length rec > 0" by (simp add: length_tls_header)
  moreover have same: "s' = s\<lparr>write_sequence := write_sequence s'\<rparr>" and "length (write_sequence s') = 8"
    using do_seal_record_bound [OF assms(1) sd(2,3) assms(3)] by blast+
  moreover have "sender_ok evp s'" using sd \<open>length (write_sequence s') = 8\<close> by (subst same) (simp add: sender_ok_def)
  ultimately show ?thesis by simp
qed

lemma tls_seal_record_sender:
  assumes "tls_seal_record evp rand s out_p max_out ty in_p inp = (Some rec, s')" "sender_ok evp s" "\<forall>n v. rand n = Some v \<longrightarrow> length v = n"
  shows "sender_ok evp s' \<and> s' = s\<lparr>write_sequence := write_sequence s'\<rparr> \<and> rec \<noteq> []"
proof (cases "ty = SSL3_RT_APPLICATION_DATA \<and> length inp > 1 \<and> ssl_needs_record_splitting s")
  case False
  then have "do_seal_record evp rand s out_p max_out ty in_p inp = (Some rec, s')"
    using assms(1) by (auto simp: tls_seal_record_def split: if_splits)
  from seal_record_sender [OF this assms(2,3)] show ?thesis .
next
  case True
  obtain f s1 rest where f: "do_seal_record evp rand s out_p max_out ty in_p (take 1 inp) = (Some f, s1)"
    and g: "do_seal_record evp rand s1 (out_p + length f) (max_out - length f) ty (in_p + 1) (drop 1 inp) = (Some rest, s')"
    and rc: "rec = f @ rest"
    using assms(1) True by (auto simp: tls_seal_record_def split: if_splits prod.splits option.splits)
  note 1 = seal_record_sender [OF f assms(2,3)]
  then have "sender_ok evp s1" by blast
  note 2 = seal_record_sender [OF g this assms(3)]
  have "s' = s\<lparr>write_sequence := write_sequence s'\<rparr>" using 1 2 by (blast intro: write_sequence_twice)
  then show ?thesis using 1 2 rc by blast
qed

lemma tls_send_snoc:
  assumes "tls_send evp rand calls s = Some (wire, k)" "tls_seal_record evp rand k out_p max_out ty in_p inp = (Some rec, k')"
  shows "tls_send evp rand (calls @ [(out_p, max_out, ty, in_p, inp)]) s = Some (wire @ rec, k')"
  using assms
proof (induction calls arbitrary: s wire)
  case Nil
  then show ?case by simp
next
  case (Cons c calls)
  then show ?case by (cases c) (auto split: prod.splits option.splits)
qed

lemma tls_send_sender:
  assumes "tls_send evp rand calls s = Some (wire, k)" "sender_ok evp s" "\<forall>n v. rand n = Some v \<longrightarrow> length v = n"
  shows "sender_ok evp k \<and> k = s\<lparr>write_sequence := write_sequence k\<rparr>"
  using assms
proof (induction calls arbitrary: s wire)
  case Nil
  then show ?case by simp
next
  case (Cons c calls)
  obtain out_p max_out ty in_p inp where c: "c = (out_p, max_out, ty, in_p, inp)" by (cases c)
  obtain rec s1 w1 where seal: "tls_seal_record evp rand s out_p max_out ty in_p inp = (Some rec, s1)"
    and more: "tls_send evp rand calls s1 = Some (w1, k)"
    using Cons.prems(1) by (auto simp: c split: prod.splits option.splits)
  note 1 = tls_seal_record_sender [OF seal Cons.prems(2,3)]
  then have "sender_ok evp s1" by blast
  note 2 = Cons.IH [OF more this Cons.prems(3)]
  then show ?case using 1 by (blast intro: write_sequence_twice)
qed

text \<open>A write buffer for a record.\<close>

lemma write_buffer_init_ok:
  assumes "ssl_write_buffer_init m s = (r, s1)" "buffer_ok (write_buffer s)" "\<not> is_dtls (conn s)"
  shows "\<exists>b e. s1 = s\<lparr>write_buffer := b, mem := e\<rparr> \<and> buffer_ok b \<and>
    (if r then buf b \<noteq> None \<and> len b = 0 \<and> m \<le> unat (cap b) \<and> buf (write_buffer s) = None else b = write_buffer s)"
proof -
  define n1 where "n1 = SSL3_RT_MAX_PLAIN_LENGTH + SSL3_RT_SEND_MAX_ENCRYPTED_OVERHEAD + SSL3_RT_HEADER_LENGTH +
    (if record_splitting (conn s) then SSL3_RT_HEADER_LENGTH + SSL3_RT_SEND_MAX_ENCRYPTED_OVERHEAD else 0)"
  obtain x e where x: "setup_buffer (next_addr s) (write_buffer s) (ssl_seal_align_prefix_len (conn s)) n1 (mem s) = (x, e)" by fastforce
  have run: "ssl_write_buffer_init m s =
      (if buf (write_buffer s) \<noteq> None \<or> m > n1 then (False, s)
       else case x of None \<Rightarrow> (False, s\<lparr>mem := e\<rparr>) | Some b \<Rightarrow> (True, s\<lparr>write_buffer := b, mem := e\<rparr>))"
    using x assms(3) by (simp add: ssl_write_buffer_init_def Let_def n1_def add.assoc split: option.splits)
  have small: "n1 < 2 ^ 16 - 8"
    by (simp add: n1_def SSL3_RT_MAX_PLAIN_LENGTH_def SSL3_RT_SEND_MAX_ENCRYPTED_OVERHEAD_def SSL3_RT_HEADER_LENGTH_def)
  show ?thesis
  proof (cases "buf (write_buffer s) \<noteq> None \<or> m > n1")
    case True
    then have "r = False" "s1 = s\<lparr>write_buffer := write_buffer s, mem := mem s\<rparr>" using run assms(1) by (auto split: if_splits)
    with assms(2) show ?thesis by (intro exI [of _ "write_buffer s"] exI [of _ "mem s"]) simp
  next
    case False
    show ?thesis
    proof (cases x)
      case None
      then have "r = False" "s1 = s\<lparr>write_buffer := write_buffer s, mem := e\<rparr>" using run assms(1) False by simp_all
      with assms(2) show ?thesis by auto
    next
      case (Some b)
      then have "r" "s1 = s\<lparr>write_buffer := b, mem := e\<rparr>" using run assms(1) False by simp_all
      then show ?thesis using setup_buffer_ok [OF x [unfolded Some] small] False by auto
    qed
  qed
qed

text \<open>A record stored in it.\<close>

lemma sealed_in_buffer:
  assumes "buffer_ok (write_buffer s)" "buf (write_buffer s) \<noteq> None" "len (write_buffer s) = 0" "length rec \<le> unat (cap (write_buffer s))"
  shows "\<exists>b. ssl_write_buffer_set_len (length rec) (s\<lparr>conn := k, write_buffer := store_bytes (write_buffer s) 0 rec\<rparr>) =
      Some (s\<lparr>conn := k, write_buffer := b\<rparr>) \<and> buffer_ok b \<and> pending_bytes b = rec \<and> (rec \<noteq> [] \<longrightarrow> len b \<noteq> 0)"
proof -
  define b where "b = (store_bytes (write_buffer s) 0 rec)\<lparr>len := of_nat (length rec)\<rparr>"
  have nil: "pending_bytes (write_buffer s) = []" using assms(1,3) pending_empty_iff by blast
  have fits: "unat (len (write_buffer s)) + length rec \<le> unat (cap (write_buffer s))" using assms(3,4) by simp
  have b: "buffer_ok b" "pending_bytes b = rec" "cap b = cap (write_buffer s)"
    using store_bytes_ok [OF assms(1,2) fits] nil by (simp_all add: b_def assms(3))
  have "rec \<noteq> [] \<longrightarrow> len b \<noteq> 0" using pending_empty_iff [OF b(1)] b(2) by simp
  moreover have "ssl_write_buffer_set_len (length rec) (s\<lparr>conn := k, write_buffer := store_bytes (write_buffer s) 0 rec\<rparr>) =
      Some (s\<lparr>conn := k, write_buffer := b\<rparr>)"
    using assms(4) by (simp add: ssl_write_buffer_set_len_def b_def store_bytes_def)
  ultimately show ?thesis using b by blast
qed

text \<open>The invariant of a connection that writes \<open>inp\<close> from address \<open>in_p\<close>. The transport had \<open>base\<close> and the
  connection was \<open>s0\<close>; \<open>calls\<close> have been sealed. What they made is in the transport or still in the buffer;
  they carry the first \<open>tot\<close> bytes, and with a pending record the next ones too. A buffer without a record
  is left when sealing fails, and then nothing more is written.\<close>

definition call_data :: "seal_call list \<Rightarrow> bytes" where
  "call_data calls = concat (map (\<lambda>(out_p, max_out, ty, in_p, inp). inp) calls)"

definition app_call :: "seal_call \<Rightarrow> bool" where
  "app_call = (\<lambda>(out_p, max_out, ty, in_p, inp). ty = SSL3_RT_APPLICATION_DATA)"

definition sending ::
  "('k, 'w) tls_env \<Rightarrow> ('w \<Rightarrow> bytes) \<Rightarrow> bytes \<Rightarrow> 'k ssl \<Rightarrow> nat \<Rightarrow> bytes \<Rightarrow> nat \<Rightarrow> seal_call list \<Rightarrow> 'k tls_conn \<Rightarrow> 'w \<Rightarrow> bool"
where
  "sending t contents base s0 in_p inp tot calls c w \<longleftrightarrow>
     buffer_ok (write_buffer (io c)) \<and> tot \<le> length inp \<and> list_all (call_ok s0) calls \<and> list_all app_call calls \<and>
     (\<exists>wire k. tls_send (crypto t) (rand_bytes t) calls s0 = Some (wire, k) \<and>
        contents w @ pending_bytes (write_buffer (io c)) = base @ wire \<and>
        (if len (write_buffer (io c)) = 0
         then call_data calls = take tot inp \<and> (buf (write_buffer (io c)) = None \<longrightarrow> conn (io c) = k)
         else conn (io c) = k \<and> wpend_type c = SSL3_RT_APPLICATION_DATA \<and> (moving_buffer c \<or> wpend_buf c = in_p + tot) \<and>
           wpend_tot c = min (max_send_fragment c) (length inp - tot) \<and> wpend_ret c = wpend_tot c \<and> 0 < wpend_tot c \<and>
           call_data calls = take (tot + wpend_tot c) inp))"

text \<open>The part of a connection that writing leaves alone.\<close>

definition same_modes :: "'k tls_conn \<Rightarrow> 'k tls_conn \<Rightarrow> bool" where
  "same_modes c c' \<longleftrightarrow> max_send_fragment c' = max_send_fragment c \<and> partial_write c' = partial_write c \<and>
     moving_buffer c' = moving_buffer c \<and> wnum c' = wnum c"

context byte_sink
begin

lemma flush_sends:
  assumes "wbio t = Some wr" "ok w" "buffer_ok (write_buffer s)" "\<not> is_dtls (conn s)"
  shows "\<exists>ret b' x w'. ssl_write_buffer_flush t s w = Some (ret, s\<lparr>write_buffer := b', rwstate := x\<rparr>, w') \<and> ok w' \<and>
    contents w' @ pending_bytes b' = contents w @ pending_bytes (write_buffer s) \<and> buffer_ok b' \<and>
    (if ret = 1 then b' = clear_buffer else ret \<le> 0 \<and> len b' \<noteq> 0)"
proof -
  obtain ret b' x w' k where "tls_write_buffer_flush wr s w = Some (ret, s\<lparr>write_buffer := b', rwstate := x\<rparr>, w')"
    "ok w'" "contents w' = contents w @ take k (pending_bytes (write_buffer s))" "buffer_ok b'"
    "pending_bytes b' = drop k (pending_bytes (write_buffer s))"
    "if ret = 1 then b' = clear_buffer \<and> x = rwstate s \<and> length (pending_bytes (write_buffer s)) \<le> k
     else ret \<le> 0 \<and> pending_bytes b' \<noteq> [] \<and> x = SSL_WRITING"
    using tls_write_buffer_flush_sends [OF assms(2,3)] by blast
  then show ?thesis
    using assms(1,4) pending_empty_iff [of b']
    by (intro exI [of _ ret] exI [of _ b'] exI [of _ x] exI [of _ w']) (auto simp: ssl_write_buffer_flush_def split: if_splits)
qed

lemma write_pending:
  fixes c :: "'k tls_conn"
  assumes "sending t contents base s0 in_p inp tot calls c w" "len (write_buffer (io c)) \<noteq> 0" "wbio (net t) = Some wr" "ok w"
    "sender_ok (crypto t) s0" "\<forall>n v. rand_bytes t n = Some v \<longrightarrow> length v = n"
    "n = min (max_send_fragment c) (length inp - tot)"
  shows "\<exists>ret c' w'. ssl3_write_pending t SSL3_RT_APPLICATION_DATA (in_p + tot) n c w = Some (ret, c', w') \<and> ok w' \<and> same_modes c c' \<and>
    (if ret > 0 then ret = int n \<and> sending t contents base s0 in_p inp (tot + n) calls c' w' \<and> buf (write_buffer (io c')) = None
     else sending t contents base s0 in_p inp tot calls c' w')"
proof -
  obtain wire k where s: "buffer_ok (write_buffer (io c))" "tot \<le> length inp" "list_all (call_ok s0) calls" "list_all app_call calls"
    "tls_send (crypto t) (rand_bytes t) calls s0 = Some (wire, k)"
    "contents w @ pending_bytes (write_buffer (io c)) = base @ wire" "conn (io c) = k" "wpend_type c = SSL3_RT_APPLICATION_DATA"
    "moving_buffer c \<or> wpend_buf c = in_p + tot" "wpend_tot c = n" "wpend_ret c = n" "0 < n" "call_data calls = take (tot + n) inp"
    using assms(1,2,7) unfolding sending_def by auto
  have tls: "\<not> is_dtls (conn (io c))"
    using tls_send_sender [OF s(5) assms(5,6)] unfolding s(7) sender_ok_def by blast
  obtain ret b' x w' where f: "ssl_write_buffer_flush (net t) (io c) w = Some (ret, (io c)\<lparr>write_buffer := b', rwstate := x\<rparr>, w')" "ok w'"
    "contents w' @ pending_bytes b' = contents w @ pending_bytes (write_buffer (io c))" "buffer_ok b'"
    "if ret = 1 then b' = clear_buffer else ret \<le> 0 \<and> len b' \<noteq> 0"
    using flush_sends [OF assms(3,4) s(1) tls] by blast
  define c' where "c' = c\<lparr>io := (io c)\<lparr>write_buffer := b', rwstate := x\<rparr>\<rparr>"
  have run: "ssl3_write_pending t SSL3_RT_APPLICATION_DATA (in_p + tot) n c w = Some (if ret \<le> 0 then ret else int n, c', w')"
    using s f(1) by (auto simp: ssl3_write_pending_def on_io_def c'_def)
  have modes: "same_modes c c'" by (simp add: same_modes_def c'_def)
  show ?thesis
  proof (cases "ret = 1")
    case True
    then have b': "b' = clear_buffer" using f(5) by simp
    have le: "tot + n \<le> length inp" using assms(7) s(2) by simp
    have clear: "len clear_buffer = 0" "buf clear_buffer = None" by (simp_all add: clear_buffer_def)
    have now: "contents w' = base @ wire" using f(3) s(6) b' by simp
    have "sending t contents base s0 in_p inp (tot + n) calls c' w'"
      unfolding sending_def using s(3-5,7,13) le now by (simp add: c'_def b' clear)
    then show ?thesis unfolding run using True f(2) modes s(12) b' clear by (intro exI [of _ "int n"] exI [of _ c'] exI [of _ w']) (simp add: c'_def)
  next
    case False
    then have r: "ret \<le> 0" "len b' \<noteq> 0" using f(5) by simp_all
    have "sending t contents base s0 in_p inp tot calls c' w'"
      unfolding sending_def using s f(3,4) r(2) assms(7) by (simp add: c'_def)
    then show ?thesis unfolding run using r f(2) modes by (intro exI [of _ ret] exI [of _ c'] exI [of _ w']) simp
  qed
qed

lemma write_fragment:
  fixes c :: "'k tls_conn"
  assumes "sending t contents base s0 in_p inp tot calls c w" "wbio (net t) = Some wr" "ok w"
    "sender_ok (crypto t) s0" "\<forall>n v. rand_bytes t n = Some v \<longrightarrow> length v = n"
    "n = min (max_send_fragment c) (length inp - tot)"
  shows "\<exists>ret c' w' calls'. do_ssl3_write t SSL3_RT_APPLICATION_DATA (in_p + tot) (take n (drop tot inp)) c w = Some (ret, c', w') \<and>
    ok w' \<and> same_modes c c' \<and>
    (if ret > 0 then ret = int n \<and> sending t contents base s0 in_p inp (tot + n) (calls @ calls') c' w' \<and> buf (write_buffer (io c')) = None
     else sending t contents base s0 in_p inp tot (calls @ calls') c' w')"
    (is "\<exists>ret c' w' calls'. ?run ret c' w' \<and> ?post ret c' w' calls'")
proof -
  let ?data = "take n (drop tot inp)"
  have ln: "length ?data = n" using assms(6) by simp
  note run_def = do_ssl3_write_def [of t SSL3_RT_APPLICATION_DATA "in_p + tot" ?data c w, unfolded ln]
  have keep: ?thesis if "?run ret (c\<lparr>io := (io c)\<lparr>mem := e\<rparr>\<rparr>) w" "ret \<le> 0" for ret e
  proof -
    have "sending t contents base s0 in_p inp tot calls (c\<lparr>io := (io c)\<lparr>mem := e\<rparr>\<rparr>) w = sending t contents base s0 in_p inp tot calls c w"
      by (simp add: sending_def)
    then have "sending t contents base s0 in_p inp tot (calls @ []) (c\<lparr>io := (io c)\<lparr>mem := e\<rparr>\<rparr>) w" using assms(1) by simp
    then show ?thesis using that assms(3)
      by (intro exI [of _ ret] exI [of _ "c\<lparr>io := (io c)\<lparr>mem := e\<rparr>\<rparr>"] exI [of _ w] exI [of _ "[]"]) (simp add: same_modes_def)
  qed
  have id: "c\<lparr>io := (io c)\<lparr>mem := mem (io c)\<rparr>\<rparr> = c" by simp
  show ?thesis
  proof (cases "len (write_buffer (io c)) = 0")
    case False
    then have "do_ssl3_write t SSL3_RT_APPLICATION_DATA (in_p + tot) ?data c w =
        ssl3_write_pending t SSL3_RT_APPLICATION_DATA (in_p + tot) n c w"
      unfolding run_def by (simp add: ssl_write_buffer_is_pending_def word_gt_0)
    then show ?thesis
      using write_pending [OF assms(1) False assms(2-6)] by (metis append_Nil2)
  next
    case True
    obtain wire k where s: "buffer_ok (write_buffer (io c))" "tot \<le> length inp" "list_all (call_ok s0) calls" "list_all app_call calls"
      "tls_send (crypto t) (rand_bytes t) calls s0 = Some (wire, k)"
      "contents w @ pending_bytes (write_buffer (io c)) = base @ wire"
      "call_data calls = take tot inp \<and> (buf (write_buffer (io c)) = None \<longrightarrow> conn (io c) = k)"
      using assms(1) True unfolding sending_def by auto
    note bok = s(1)
    have ks: "sender_ok (crypto t) k" using tls_send_sender [OF s(5) assms(4,5)] by blast
    have tls: "\<not> is_dtls (conn (io c))" if "buf (write_buffer (io c)) = None"
      using ks s(7) that unfolding sender_ok_def by simp
    from True have idle: "\<not> ssl_write_buffer_is_pending (io c)" by (simp add: ssl_write_buffer_is_pending_def)
    define max_out where "max_out = size_add n (SSL_max_seal_overhead (crypto t) (conn (io c)))"
    obtain r s1 where i: "ssl_write_buffer_init max_out (io c) = (r, s1)" by fastforce
    consider (stop) "pending_flight c \<or> n > SSL3_RT_MAX_PLAIN_LENGTH \<or> n = 0 \<or> max_out < n \<or> buf (write_buffer (io c)) \<noteq> None"
      | (no_buffer) "\<not> pending_flight c" "n \<le> SSL3_RT_MAX_PLAIN_LENGTH" "n \<noteq> 0" "\<not> max_out < n" "\<not> r"
          "buf (write_buffer (io c)) = None"
      | (seal) "\<not> pending_flight c" "n \<le> SSL3_RT_MAX_PLAIN_LENGTH" "n \<noteq> 0" "\<not> max_out < n" "r" "buf (write_buffer (io c)) = None"
      by linarith
    then show ?thesis
    proof cases
      case stop
      have dead: "ssl_write_buffer_init m (io c) = (False, io c)" if "buf (write_buffer (io c)) \<noteq> None" for m
        using that by (simp add: ssl_write_buffer_init_def)
      have "\<exists>ret. ?run ret c w \<and> ret \<le> 0"
        using stop idle unfolding run_def by (cases "buf (write_buffer (io c)) = None") (auto simp: Let_def max_out_def dead)
      then show ?thesis using keep [where e = "mem (io c)", unfolded id] by blast
    next
      case no_buffer
      obtain e where "s1 = (io c)\<lparr>mem := e\<rparr>"
        using write_buffer_init_ok [OF i bok tls [OF no_buffer(6)]] no_buffer(5) by auto
      then have "?run (-1) (c\<lparr>io := (io c)\<lparr>mem := e\<rparr>\<rparr>) w"
        using no_buffer idle i unfolding run_def by (simp add: Let_def max_out_def)
      then show ?thesis by (rule keep) simp
    next
      case seal
      obtain b e where s1: "s1 = (io c)\<lparr>write_buffer := b, mem := e\<rparr>" and b: "buffer_ok b" "buf b \<noteq> None" "len b = 0" "max_out \<le> unat (cap b)"
        using write_buffer_init_ok [OF i bok tls [OF seal(6)]] seal(5) by auto
      obtain x k' where x: "tls_seal_record (crypto t) (rand_bytes t) k (out_addr s1 (mem (io c))) max_out SSL3_RT_APPLICATION_DATA (in_p + tot) ?data = (x, k')"
        by fastforce
      have k: "conn (io c) = k" using s(7) seal(6) True by simp
      then have k1: "conn s1 = k" by (simp add: s1)
      note to_seal = run_def [unfolded if_not_P [OF idle] if_not_P [OF seal(1)] Let_def, folded max_out_def, unfolded i]
      have nil: "pending_bytes b = []" "pending_bytes (write_buffer (io c)) = []" using b(1,3) bok True pending_empty_iff by blast+
      show ?thesis
      proof (cases x)
        case None
        define c' where "c' = c\<lparr>io := s1\<lparr>conn := k'\<rparr>\<rparr>"
        have "?run (-1) c' w" using seal to_seal x by (simp add: k1 None c'_def)
        moreover have "sending t contents base s0 in_p inp tot (calls @ []) c' w"
          unfolding sending_def using s b nil True by (auto simp: c'_def s1)
        ultimately show ?thesis using assms(3)
          by (intro exI [of _ "-1"] exI [of _ c'] exI [of _ w] exI [of _ "[]"]) (simp add: same_modes_def c'_def)
      next
        case (Some rec)
        note sealed = tls_seal_record_sender [OF x [unfolded Some] ks assms(5)]
        have "length rec \<le> max_out"
          using tls_seal_record_bound [OF x [unfolded Some] _ _ assms(5)] ks unfolding sender_ok_def by blast
        then have fits: "length rec \<le> unat (cap (write_buffer s1))" using b(4) by (simp add: s1)
        have w1: "write_buffer s1 = b" by (simp add: s1)
        obtain b2 where b2: "ssl_write_buffer_set_len (length rec) (s1\<lparr>conn := k', write_buffer := store_bytes (write_buffer s1) 0 rec\<rparr>) =
            Some (s1\<lparr>conn := k', write_buffer := b2\<rparr>)" "buffer_ok b2" "pending_bytes b2 = rec" "len b2 \<noteq> 0"
          using sealed_in_buffer [OF _ _ _ fits, of k'] b sealed unfolding w1 by blast
        define c1 where "c1 = c\<lparr>io := s1\<lparr>conn := k', write_buffer := b2\<rparr>, wpend_tot := n, wpend_buf := in_p + tot,
            wpend_type := SSL3_RT_APPLICATION_DATA, wpend_ret := n\<rparr>"
        have run: "do_ssl3_write t SSL3_RT_APPLICATION_DATA (in_p + tot) ?data c w =
            ssl3_write_pending t SSL3_RT_APPLICATION_DATA (in_p + tot) n c1 w"
          using seal to_seal x b2(1) by (simp add: k1 Some c1_def)
        define call where "call = (out_addr s1 (mem (io c)), max_out, SSL3_RT_APPLICATION_DATA, in_p + tot, ?data)"
        have snd: "tls_send (crypto t) (rand_bytes t) (calls @ [call]) s0 = Some (wire @ rec, k')"
          unfolding call_def by (rule tls_send_snoc [OF s(5) x [unfolded Some]])
        have cok: "call_ok s0 call" "app_call call"
          using seal(2,3) ln by (auto simp: call_def sendable_def app_call_def SSL3_RT_APPLICATION_DATA_def SSL3_RT_ALERT_def)
        have dat: "call_data (calls @ [call]) = take (tot + n) inp"
          using s(7) True by (simp add: call_data_def call_def take_add)
        have all: "list_all (call_ok s0) (calls @ [call])" "list_all app_call (calls @ [call])" using s(3,4) cok by simp_all
        have all_wire: "contents w @ rec = base @ wire @ rec" using s(6) nil(2) by simp
        have sel: "write_buffer (io c1) = b2" "conn (io c1) = k'" "wpend_type c1 = SSL3_RT_APPLICATION_DATA" "wpend_buf c1 = in_p + tot"
          "wpend_tot c1 = n" "wpend_ret c1 = n" "max_send_fragment c1 = max_send_fragment c" by (simp_all add: c1_def)
        have "sending t contents base s0 in_p inp tot (calls @ [call]) c1 w"
          unfolding sending_def sel using b2(2-4) s(2) all snd dat all_wire assms(6) seal(3) by simp
        moreover have "len (write_buffer (io c1)) \<noteq> 0" using b2(4) by (simp add: sel)
        moreover have "n = min (max_send_fragment c1) (length inp - tot)" using assms(6) by (simp add: sel)
        ultimately obtain ret c' w' where p: "ssl3_write_pending t SSL3_RT_APPLICATION_DATA (in_p + tot) n c1 w = Some (ret, c', w')"
          "ok w'" "same_modes c1 c'"
          "if ret > 0 then ret = int n \<and> sending t contents base s0 in_p inp (tot + n) (calls @ [call]) c' w' \<and> buf (write_buffer (io c')) = None
           else sending t contents base s0 in_p inp tot (calls @ [call]) c' w'"
          using write_pending [OF _ _ assms(2,3,4,5)] by blast
        moreover have "same_modes c c'" using p(3) by (simp add: same_modes_def c1_def)
        ultimately show ?thesis unfolding run by blast
      qed
    qed
  qed
qed

lemma write_loop:
  fixes c :: "'k tls_conn"
  assumes "sending t contents base s0 in_p inp tot calls c w" "wbio (net t) = Some wr" "ok w"
    "sender_ok (crypto t) s0" "\<forall>n v. rand_bytes t n = Some v \<longrightarrow> length v = n"
  shows "\<exists>ret c' w' calls'. write_app_data_loop t in_p inp (length inp - tot) tot c w = Some (ret, c', w') \<and> ok w' \<and>
    partial_write c' = partial_write c \<and>
    (if ret > 0 then wnum c' = wnum c \<and> buf (write_buffer (io c')) = None \<and> (partial_write c \<or> ret = int (length inp)) \<and>
       sending t contents base s0 in_p inp (nat ret) (calls @ calls') c' w'
     else sending t contents base s0 in_p inp (wnum c') (calls @ calls') c' w')"
  using assms(1,3)
proof (induction "length inp - tot" arbitrary: tot calls c w rule: less_induct)
  case less
  define n where "n = min (max_send_fragment c) (length inp - tot)"
  have nw: "(if length inp - tot > max_send_fragment c then max_send_fragment c else length inp - tot) = n" by (simp add: n_def)
  obtain ret c1 w1 calls1 where f: "do_ssl3_write t SSL3_RT_APPLICATION_DATA (in_p + tot) (take n (drop tot inp)) c w = Some (ret, c1, w1)"
    "ok w1" "same_modes c c1"
    "if ret > 0 then ret = int n \<and> sending t contents base s0 in_p inp (tot + n) (calls @ calls1) c1 w1 \<and> buf (write_buffer (io c1)) = None
     else sending t contents base s0 in_p inp tot (calls @ calls1) c1 w1"
    using write_fragment [OF less.prems(1) assms(2) less.prems(2) assms(4,5) n_def] by blast
  note round = write_app_data_loop.simps [of t in_p inp "length inp - tot" tot c w, unfolded Let_def nw f(1) bind.bind_lunit prod.case]
  have cfg: "partial_write c1 = partial_write c" "wnum c1 = wnum c" using f(3) by (simp_all add: same_modes_def)
  have le: "tot \<le> length inp" using less.prems(1) by (simp add: sending_def)
  consider (stop) "ret \<le> 0" | (last) "ret > 0" "ret = int (length inp - tot) \<or> partial_write c1"
    | (again) "ret > 0" "ret \<noteq> int (length inp - tot)" "\<not> partial_write c1" by linarith
  then show ?case
  proof cases
    case stop
    have "sending t contents base s0 in_p inp tot (calls @ calls1) (c1\<lparr>wnum := tot\<rparr>) w1 = sending t contents base s0 in_p inp tot (calls @ calls1) c1 w1"
      by (simp add: sending_def)
    then show ?thesis
      using round stop f(2,4) cfg
      by (intro exI [of _ ret] exI [of _ "c1\<lparr>wnum := tot\<rparr>"] exI [of _ w1] exI [of _ calls1]) simp
  next
    case last
    then have r: "ret = int n" "sending t contents base s0 in_p inp (tot + n) (calls @ calls1) c1 w1" "buf (write_buffer (io c1)) = None"
      using f(4) by simp_all
    have "nat (int tot + ret) = tot + n" using r(1) by (simp add: nat_add_distrib)
    moreover have "ret = int (length inp - tot) \<Longrightarrow> int tot + ret = int (length inp)" using le by simp
    ultimately show ?thesis
      using round last f(2) r cfg
      by (intro exI [of _ "int tot + ret"] exI [of _ c1] exI [of _ w1] exI [of _ calls1]) auto
  next
    case again
    then have r: "ret = int n" "sending t contents base s0 in_p inp (tot + n) (calls @ calls1) c1 w1" using f(4) by simp_all
    have n: "0 < n" "n < length inp - tot" using again r(1) n_def by auto
    have dec: "length inp - (tot + n) < length inp - tot" using n by linarith
    have step: "write_app_data_loop t in_p inp (length inp - tot) tot c w = write_app_data_loop t in_p inp (length inp - (tot + n)) (tot + n) c1 w1"
      using round again r(1) by simp
    show ?thesis
      unfolding step using less.hyps [OF dec r(2) f(2)] unfolding cfg append_assoc by blast
  qed
qed

lemma write_app_data:
  fixes c :: "'k tls_conn"
  assumes "sending t contents base s0 in_p inp (wnum c) calls c w" "wbio (net t) = Some wr" "ok w"
    "sender_ok (crypto t) s0" "\<forall>n v. rand_bytes t n = Some v \<longrightarrow> length v = n"
  shows "\<exists>ret c' w' calls'. ssl3_write_app_data t in_p inp (int (length inp)) c w = Some (ret, c', w') \<and> ok w' \<and>
    partial_write c' = partial_write c \<and>
    (if ret > 0 then wnum c' = 0 \<and> buf (write_buffer (io c')) = None \<and> (partial_write c \<or> ret = int (length inp)) \<and>
       sending t contents base s0 in_p inp (nat ret) (calls @ calls') c' w'
     else sending t contents base s0 in_p inp (wnum c') (calls @ calls') c' w')"
proof -
  have "sending t contents base s0 in_p inp (wnum c) calls (c\<lparr>wnum := 0\<rparr>) w = sending t contents base s0 in_p inp (wnum c) calls c w"
    by (simp add: sending_def)
  then have "sending t contents base s0 in_p inp (wnum c) calls (c\<lparr>wnum := 0\<rparr>) w" using assms(1) by simp
  note loop = write_loop [OF this assms(2-5)]
  have "wnum c \<le> length inp" using assms(1) by (simp add: sending_def)
  then have "ssl3_write_app_data t in_p inp (int (length inp)) c w = write_app_data_loop t in_p inp (length inp - wnum c) (wnum c) (c\<lparr>wnum := 0\<rparr>) w"
    by (simp add: ssl3_write_app_data_def Let_def)
  moreover have "wnum (c\<lparr>wnum := 0\<rparr>) = 0" "partial_write (c\<lparr>wnum := 0\<rparr>) = partial_write c" by simp_all
  ultimately show ?thesis using loop by (simp only:)
qed

end

text \<open>An application that retries: it repeats a call that has not returned a positive number.\<close>

inductive retried ::
  "('k, 'w) tls_env \<Rightarrow> nat \<Rightarrow> bytes \<Rightarrow> 'k tls_conn \<Rightarrow> 'w \<Rightarrow> 'k tls_conn \<Rightarrow> 'w \<Rightarrow> bool"
  for t :: "('k, 'w) tls_env" and in_p inp c w
where
  start: "retried t in_p inp c w c w"
| again: "retried t in_p inp c w c1 w1 \<Longrightarrow> ssl3_write_app_data t in_p inp (int (length inp)) c1 w1 = Some (ret, c2, w2) \<Longrightarrow> ret \<le> 0 \<Longrightarrow>
    retried t in_p inp c w c2 w2"

inductive_cases retried_cases: "retried t in_p inp c w c1 w1"

context byte_sink
begin

lemma retried_sending:
  fixes c :: "'k tls_conn"
  assumes "retried t in_p inp c w c1 w1" "wbio (net t) = Some wr" "ok w" "sender_ok (crypto t) (conn (io c))"
    "\<forall>n v. rand_bytes t n = Some v \<longrightarrow> length v = n" "write_buffer (io c) = clear_buffer" "wnum c = 0"
  shows "ok w1 \<and> partial_write c1 = partial_write c \<and> (\<exists>calls. sending t contents (contents w) (conn (io c)) in_p inp (wnum c1) calls c1 w1)"
  using assms(1)
proof induction
  case start
  have "sending t contents (contents w) (conn (io c)) in_p inp (wnum c) [] c w"
    unfolding sending_def assms(6,7) by (simp add: call_data_def) (simp add: clear_buffer_def)
  then show ?case using assms(3) by blast
next
  case (again c1 w1 ret c2 w2)
  then obtain calls where calls: "sending t contents (contents w) (conn (io c)) in_p inp (wnum c1) calls c1 w1" and ok1: "ok w1" by blast
  from write_app_data [OF calls assms(2) ok1 assms(4,5)] show ?case using again by fastforce
qed

lemma write_app_data_after:
  fixes c :: "'k tls_conn"
  assumes "retried t in_p inp c w c1 w1" "wbio (net t) = Some wr" "ok w" "sender_ok (crypto t) (conn (io c))"
    "\<forall>n v. rand_bytes t n = Some v \<longrightarrow> length v = n" "write_buffer (io c) = clear_buffer" "wnum c = 0"
  shows "\<exists>ret c' w' calls wire k more. ssl3_write_app_data t in_p inp (int (length inp)) c1 w1 = Some (ret, c', w') \<and> ok w' \<and>
    tls_send (crypto t) (rand_bytes t) calls (conn (io c)) = Some (wire, k) \<and> list_all (call_ok (conn (io c))) calls \<and> list_all app_call calls \<and>
    contents w' @ more = contents w @ wire \<and> (\<exists>m. call_data calls = take m inp) \<and>
    (ret > 0 \<longrightarrow> more = [] \<and> call_data calls = take (nat ret) inp \<and> (partial_write c \<or> ret = int (length inp)) \<and> conn (io c') = k)"
proof -
  obtain calls where calls: "sending t contents (contents w) (conn (io c)) in_p inp (wnum c1) calls c1 w1" and ok1: "ok w1"
    and pw: "partial_write c1 = partial_write c"
    using retried_sending [OF assms] by blast
  obtain ret c' w' calls' where run: "ssl3_write_app_data t in_p inp (int (length inp)) c1 w1 = Some (ret, c', w')" "ok w'"
    "if ret > 0 then wnum c' = 0 \<and> buf (write_buffer (io c')) = None \<and> (partial_write c1 \<or> ret = int (length inp)) \<and>
       sending t contents (contents w) (conn (io c)) in_p inp (nat ret) (calls @ calls') c' w'
     else sending t contents (contents w) (conn (io c)) in_p inp (wnum c') (calls @ calls') c' w'"
    using write_app_data [OF calls assms(2) ok1 assms(4,5)] by blast
  define pos where "pos = (if ret > 0 then nat ret else wnum c')"
  have s: "sending t contents (contents w) (conn (io c)) in_p inp pos (calls @ calls') c' w'" using run(3) by (simp add: pos_def split: if_splits)
  then obtain wire k where w: "tls_send (crypto t) (rand_bytes t) (calls @ calls') (conn (io c)) = Some (wire, k)"
    "contents w' @ pending_bytes (write_buffer (io c')) = contents w @ wire" "list_all (call_ok (conn (io c))) (calls @ calls')"
    "list_all app_call (calls @ calls')" "buffer_ok (write_buffer (io c'))"
    "if len (write_buffer (io c')) = 0 then call_data (calls @ calls') = take pos inp \<and> (buf (write_buffer (io c')) = None \<longrightarrow> conn (io c') = k)
     else call_data (calls @ calls') = take (pos + wpend_tot c') inp"
    unfolding sending_def by (auto split: if_splits)
  have "\<exists>m. call_data (calls @ calls') = take m inp" using w(6) by (auto split: if_splits)
  moreover have "ret > 0 \<longrightarrow> pending_bytes (write_buffer (io c')) = [] \<and> call_data (calls @ calls') = take (nat ret) inp \<and>
      (partial_write c \<or> ret = int (length inp)) \<and> conn (io c') = k"
  proof
    assume "ret > 0"
    then have none: "buf (write_buffer (io c')) = None" and m: "partial_write c \<or> ret = int (length inp)" and pos: "pos = nat ret"
      using run(3) pw by (simp_all add: pos_def)
    have "len (write_buffer (io c')) = 0" using w(5) none by (simp add: buffer_ok_def)
    then show "pending_bytes (write_buffer (io c')) = [] \<and> call_data (calls @ calls') = take (nat ret) inp \<and>
      (partial_write c \<or> ret = int (length inp)) \<and> conn (io c') = k"
      using w(5,6) none m pos pending_empty_iff by auto
  qed
  ultimately show ?thesis using run(1,2) w(1-4) by blast
qed

end

text \<open>The records that the calls become.\<close>

lemma fragments_data: "list_all app_call calls \<Longrightarrow>
    concat (map snd (concat (map (fragments s) calls))) = call_data calls \<and>
    (\<forall>x \<in> set (concat (map (fragments s) calls)). fst x = SSL3_RT_APPLICATION_DATA)"
proof (induction calls)
  case Nil
  then show ?case by (simp add: call_data_def)
next
  case (Cons c calls)
  then show ?case by (cases c) (auto simp: call_data_def app_call_def)
qed

section \<open>Reading application data\<close>

text \<open>A peer that seals application data, each record with some: the data, the records, and the peer after them.\<close>

inductive sealed_stream ::
  "'k evp \<Rightarrow> (nat \<Rightarrow> bytes option) \<Rightarrow> 'k ssl \<Rightarrow> bytes list \<Rightarrow> bytes list \<Rightarrow> 'k ssl \<Rightarrow> bool"
  for evp :: "'k evp" and rand
where
  none: "sealed_stream evp rand s [] [] s"
| more: "do_seal_record evp rand s out_p max_out SSL3_RT_APPLICATION_DATA in_p d = (Some rec, s1) \<Longrightarrow>
    sendable s SSL3_RT_APPLICATION_DATA d \<Longrightarrow> d \<noteq> [] \<Longrightarrow> sealed_stream evp rand s1 ds recs s' \<Longrightarrow>
    sealed_stream evp rand s (d # ds) (rec # recs) s'"

lemma sealed_stream_append:
  assumes "sealed_stream evp rand s ds recs s1" "sealed_stream evp rand s1 ds' recs' s'"
  shows "sealed_stream evp rand s (ds @ ds') (recs @ recs') s'"
  using assms by induction (auto intro: sealed_stream.intros)

lemma sealed_stream_call:
  assumes "tls_seal_record evp rand s out_p max_out ty in_p inp = (Some rec, s')" "call_ok s (out_p, max_out, ty, in_p, inp)"
    "app_call (out_p, max_out, ty, in_p, inp)" "sender_ok evp s" "\<forall>n v. rand n = Some v \<longrightarrow> length v = n"
  shows "\<exists>recs. sealed_stream evp rand s (map snd (fragments s (out_p, max_out, ty, in_p, inp))) recs s' \<and> concat recs = rec"
proof -
  have ty: "ty = SSL3_RT_APPLICATION_DATA" and inp: "sendable s SSL3_RT_APPLICATION_DATA inp" "inp \<noteq> []"
    using assms(2,3) by (simp_all add: app_call_def)
  show ?thesis
  proof (cases "length inp > 1 \<and> ssl_needs_record_splitting s")
    case False
    then have "do_seal_record evp rand s out_p max_out SSL3_RT_APPLICATION_DATA in_p inp = (Some rec, s')"
      using assms(1) ty by (auto simp: tls_seal_record_def split: if_splits)
    from sealed_stream.more [OF this inp sealed_stream.none]
    have "sealed_stream evp rand s [inp] [rec] s'" .
    then show ?thesis using False ty by (intro exI [of _ "[rec]"]) auto
  next
    case True
    obtain f s1 rest where f: "do_seal_record evp rand s out_p max_out SSL3_RT_APPLICATION_DATA in_p (take 1 inp) = (Some f, s1)"
      and g: "do_seal_record evp rand s1 (out_p + length f) (max_out - length f) SSL3_RT_APPLICATION_DATA (in_p + 1) (drop 1 inp) = (Some rest, s')"
      and rc: "rec = f @ rest"
      using assms(1) True ty by (auto simp: tls_seal_record_def split: if_splits prod.splits option.splits)
    define q1 where "q1 = write_sequence s1"
    have s1: "s1 = s\<lparr>write_sequence := q1\<rparr>" using seal_record_sender [OF f assms(4,5)] unfolding q1_def by blast
    have ok: "sendable s SSL3_RT_APPLICATION_DATA (take 1 inp)" "take 1 inp \<noteq> []" "sendable s SSL3_RT_APPLICATION_DATA (drop 1 inp)" "drop 1 inp \<noteq> []"
      using inp True by (auto simp: sendable_def)
    have "sendable s1 SSL3_RT_APPLICATION_DATA (drop 1 inp)"
      using ok(3) unfolding s1 by (simp add: sendable_def hides_type_def ssl3_protocol_version_def)
    from sealed_stream.more [OF f ok(1,2) sealed_stream.more [OF g this ok(4) sealed_stream.none]]
    have "sealed_stream evp rand s [take 1 inp, drop 1 inp] [f, rest] s'" .
    then show ?thesis using True ty rc by (intro exI [of _ "[f, rest]"]) simp
  qed
qed

lemma sealed_stream_send:
  assumes "tls_send evp rand calls s = Some (wire, s')" "list_all (call_ok s) calls" "list_all app_call calls" "sender_ok evp s"
    "\<forall>n v. rand n = Some v \<longrightarrow> length v = n"
  shows "\<exists>ds recs. sealed_stream evp rand s ds recs s' \<and> concat ds = call_data calls \<and> concat recs = wire"
  using assms(1-4)
proof (induction calls arbitrary: s wire)
  case Nil
  then have "s = s'" "wire = []" by simp_all
  then show ?case using sealed_stream.none [of evp rand s'] by (intro exI [of _ "[]"]) (simp add: call_data_def)
next
  case (Cons c calls)
  obtain out_p max_out ty in_p inp where c: "c = (out_p, max_out, ty, in_p, inp)" by (cases c)
  obtain rec s1 w1 where seal: "tls_seal_record evp rand s out_p max_out ty in_p inp = (Some rec, s1)"
    and more: "tls_send evp rand calls s1 = Some (w1, s')" and wire: "wire = rec @ w1"
    using Cons.prems(1) by (auto simp: c split: prod.splits option.splits)
  have ok: "call_ok s (out_p, max_out, ty, in_p, inp)" "app_call (out_p, max_out, ty, in_p, inp)" "list_all (call_ok s) calls" "list_all app_call calls"
    using Cons.prems(2,3) by (simp_all add: c)
  note sd = tls_seal_record_sender [OF seal Cons.prems(4) assms(5)]
  define q1 where "q1 = write_sequence s1"
  have s1: "s1 = s\<lparr>write_sequence := q1\<rparr>" using sd unfolding q1_def by blast
  have same: "call_ok s1 = call_ok s" unfolding s1 by (rule ext, rule write_sequence_only)
  obtain recs where recs: "sealed_stream evp rand s (map snd (fragments s c)) recs s1" "concat recs = rec"
    using sealed_stream_call [OF seal ok(1,2) Cons.prems(4) assms(5)] unfolding c by blast
  obtain ds recs' where IH: "sealed_stream evp rand s1 ds recs' s'" "concat ds = call_data calls" "concat recs' = w1"
    using Cons.IH [OF more _ ok(4)] sd ok(3) unfolding same by blast
  have "concat (map snd (fragments s c)) = inp" using fragments_data [of "[c]" s] ok(2) by (simp add: c call_data_def)
  then have "concat (map snd (fragments s c) @ ds) = call_data (c # calls)" using IH(2) by (simp add: c call_data_def)
  moreover have "concat (recs @ recs') = wire" using recs(2) IH(3) wire by simp
  ultimately show ?case using sealed_stream_append [OF recs(1) IH(1)] by blast
qed

lemma tls_open_empty:
  "\<exists>m. tls_open_record evp r [] 0 = ((dropped m)\<lparr>result := ssl_open_record_partial\<rparr>, r) \<and> 0 < m \<and> m \<le> 5"
proof -
  define hl where "hl = (if ssl_uses_short_header r evp_aead_open then 2 else 5 :: nat)"
  have init: "CBS_init [] 0 = CBS_of ([] :: bytes) []" using CBS_init_of [of 0 "[]"] by simp
  have "length ([] :: bytes) < (if ssl_uses_short_header r evp_aead_open then 2 else 5)" by simp
  from tls_parse_header_short [OF this, of "[]"]
  obtain cbs where "tls_parse_header r (CBS_init [] 0) = (Some (Inl (ssl_open_record_partial, hl, None)), cbs)"
    unfolding init hl_def by (metis prod.collapse)
  then have "tls_open_record evp r [] 0 = ((dropped hl)\<lparr>result := ssl_open_record_partial\<rparr>, r)"
    by (simp add: tls_open_record_def dropped_def)
  then show ?thesis by (intro exI [of _ hl]) (simp add: hl_def)
qed

text \<open>The invariant of a connection that reads a stream: \<open>data\<close> has been sealed and not been delivered. What is left
  of the current record comes first; then the records that are in the buffer, in the transport, or come \<open>later\<close>.\<close>

definition receiving ::
  "('k, 'w) tls_env \<Rightarrow> ('w \<Rightarrow> bytes) \<Rightarrow> (nat \<Rightarrow> bytes option) \<Rightarrow> 'k ssl \<Rightarrow> bytes \<Rightarrow> bytes \<Rightarrow> 'k tls_conn \<Rightarrow> 'w \<Rightarrow> bool"
where
  "receiving t contents rand s' data later c w \<longleftrightarrow>
     reader_ok (io c) \<and> recv_shutdown (conn (io c)) = ssl_shutdown_none \<and> \<not> has_hs_data c \<and>
     (rr_data (rrec c) \<noteq> [] \<longrightarrow> rr_type (rrec c) = SSL3_RT_APPLICATION_DATA) \<and>
     (\<exists>s ds recs. in_step (crypto t) s (conn (io c)) \<and> sealed_stream (crypto t) rand s ds recs s' \<and>
        data = rr_data (rrec c) @ concat ds \<and> unread (io c) @ contents w @ later = concat recs \<and>
        (case recs of [] \<Rightarrow> True | rec # _ \<Rightarrow> length (unread (io c)) \<le> length rec))"

lemma receiving_step:
  assumes "reader_ok (io c)" "recv_shutdown (conn (io c)) = ssl_shutdown_none" "\<not> has_hs_data c"
    "rr_data (rrec c) \<noteq> [] \<longrightarrow> rr_type (rrec c) = SSL3_RT_APPLICATION_DATA" "in_step (crypto t) s (conn (io c))"
    "sealed_stream (crypto t) rand s ds recs s'" "unread (io c) @ contents w @ later = concat recs"
    "recs \<noteq> [] \<longrightarrow> length (unread (io c)) \<le> length (hd recs)"
  shows "receiving t contents rand s' (rr_data (rrec c) @ concat ds) later c w"
  unfolding receiving_def using assms by (intro conjI exI [of _ s] exI [of _ ds] exI [of _ recs]) (auto split: list.split)

text \<open>\<open>consume_record\<close> delivers the front of the record.\<close>

lemma consume_record_delivers:
  assumes "receiving t contents rand s' data later c w" "0 < n" "rr_data (rrec c) \<noteq> []"
  shows "\<exists>k bs c'. consume_record n peek c = ((k, bs), c') \<and> 0 < k \<and> k \<le> n \<and> k = int (length bs) \<and> bs = take (nat k) data \<and>
    receiving t contents rand s' (if peek then data else drop (nat k) data) later c' w \<and> mem (io c') = mem (io c)"
proof -
  define d where "d = rr_data (rrec c)"
  define k where "k = min (nat n) (length d)"
  obtain s ds recs where r: "reader_ok (io c)" "recv_shutdown (conn (io c)) = ssl_shutdown_none" "\<not> has_hs_data c"
    "rr_type (rrec c) = SSL3_RT_APPLICATION_DATA" "in_step (crypto t) s (conn (io c))" "sealed_stream (crypto t) rand s ds recs s'"
    "data = d @ concat ds" "unread (io c) @ contents w @ later = concat recs"
    "case recs of [] \<Rightarrow> True | rec # _ \<Rightarrow> length (unread (io c)) \<le> length rec"
    using assms(1,3) unfolding receiving_def d_def by blast
  have hd: "recs \<noteq> [] \<longrightarrow> length (unread (io c)) \<le> length (hd recs)" using r(9) by (cases recs) simp_all
  have k: "0 < k" "int k \<le> n" "k \<le> length d" using assms(2,3) by (auto simp: k_def d_def)
  then have k0: "0 < int k" by simp
  have bs: "take k d = take (nat (int k)) data" "int k = int (length (take k d))" using k(3) r(7) by simp_all
  show ?thesis
  proof (cases peek)
    case True
    then have "consume_record n peek c = ((int k, take k d), c)" using assms(2) by (simp add: consume_record_def Let_def k_def d_def)
    moreover have "receiving t contents rand s' (if peek then data else drop (nat (int k)) data) later c w" using True assms(1) by simp
    ultimately show ?thesis using k0 k(2) bs by blast
  next
    case False
    define c1 where "c1 = c\<lparr>rrec := (rrec c)\<lparr>rr_data := drop k d\<rparr>\<rparr>"
    define c' where "c' = (if drop k d = [] then c1\<lparr>io := ssl_read_buffer_discard (io c1)\<rparr> else c1)"
    have run: "consume_record n peek c = ((int k, take k d), c')"
      using assms(2) False by (simp add: consume_record_def Let_def k_def d_def c1_def c'_def)
    have "reader_ok (ssl_read_buffer_discard (io c))" "unread (ssl_read_buffer_discard (io c)) = unread (io c)"
      "conn (ssl_read_buffer_discard (io c)) = conn (io c)" "mem (ssl_read_buffer_discard (io c)) = mem (io c)"
      using r(1) unread_discard [of "io c"]
      by (auto simp: reader_ok_def ssl_read_buffer_discard_def ssl_read_buffer_clear_def clear_buffer_def buffer_ok_def)
    then have c': "reader_ok (io c')" "unread (io c') = unread (io c)" "conn (io c') = conn (io c)" "mem (io c') = mem (io c)"
      "has_hs_data c' = has_hs_data c" "rrec c' = (rrec c)\<lparr>rr_data := drop k d\<rparr>"
      using r(1) by (simp_all add: c'_def c1_def)
    have "receiving t contents rand s' (rr_data (rrec c') @ concat ds) later c' w"
    proof (rule receiving_step [OF c'(1) _ _ _ _ r(6)])
      show "recv_shutdown (conn (io c')) = ssl_shutdown_none" unfolding c'(3) by (rule r(2))
      show "\<not> has_hs_data c'" unfolding c'(5) by (rule r(3))
      show "rr_data (rrec c') \<noteq> [] \<longrightarrow> rr_type (rrec c') = SSL3_RT_APPLICATION_DATA" unfolding c'(6) using r(4) by simp
      show "in_step (crypto t) s (conn (io c'))" unfolding c'(3) by (rule r(5))
      show "unread (io c') @ contents w @ later = concat recs" unfolding c'(2) by (rule r(8))
      show "recs \<noteq> [] \<longrightarrow> length (unread (io c')) \<le> length (hd recs)" unfolding c'(2) by (rule hd)
    qed
    moreover have "rr_data (rrec c') @ concat ds = drop (nat (int k)) data" using r(7) k(3) by (simp add: c'(6))
    ultimately have "receiving t contents rand s' (if peek then data else drop (nat (int k)) data) later c' w" using False by simp
    then show ?thesis using run k0 k(2) bs c'(4) by blast
  qed
qed

context byte_source
begin

lemma get_record_empty:
  fixes c :: "'k tls_conn"
  assumes "recv_shutdown (conn (io c)) = ssl_shutdown_none" "rbio (net t) = Some rd" "ok w" "reader_ok (io c)"
    "unread (io c) = []" "contents w = []"
  shows "\<exists>ret c' w'. ssl3_get_record t c w = Some (ret, c', w') \<and> ok w' \<and> reader_ok (io c') \<and> c' = c\<lparr>io := io c'\<rparr> \<and>
    (never_fails (mem (io c)) \<longrightarrow> never_fails (mem (io c'))) \<and> ret \<le> 0 \<and> unread (io c') = [] \<and> contents w' = [] \<and> conn (io c') = conn (io c) \<and>
    (never_fails (mem (io c)) \<longrightarrow> refuses ok contents rd ret w')"
proof -
  obtain m where m: "tls_open_record (crypto t) (conn (io c)) (unread (io c)) (length (unread (io c))) =
      ((dropped m)\<lparr>result := ssl_open_record_partial\<rparr>, conn (io c))" "0 < m" "m \<le> 5"
    using tls_open_empty [of "crypto t" "conn (io c)"] unfolding assms(5) list.size by blast
  have bok: "buffer_ok (read_buffer (io c))" using assms(4) by (simp add: reader_ok_def)
  obtain ret s1 w1 bs where ext: "ssl_read_buffer_extend_to (net t) m (io c) w = Some (ret, s1, w1)" "ok w1" "contents w = bs @ contents w1"
    "reader_ok s1" "unread s1 = unread (io c) @ bs" "same_but_reading (io c) s1"
    "if ret = 1 then length (unread s1) = max m (length (unread (io c))) else ret \<le> 0 \<and> (bs = [] \<or> length (unread s1) < m)"
    "ret \<noteq> 1 \<and> m \<le> read_buffer_size \<and> never_fails (mem (io c)) \<longrightarrow> refuses ok contents rd ret w1"
    "never_fails (mem (io c)) \<longrightarrow> never_fails (mem s1)"
    using extend_to [OF assms(3,4,2), of m] by blast
  have nil: "bs = []" "contents w1 = []" "unread s1 = []" using ext(3,5) assms(5,6) by simp_all
  then have "ret \<noteq> 1" using ext(7) m(2) assms(5) by auto
  then have ret: "ret \<le> 0" using ext(7) by simp
  have "m \<le> read_buffer_size" using m(3) by (simp add: read_buffer_size_def SSL3_RT_HEADER_LENGTH_def)
  moreover have "conn s1 = conn (io c)" using ext(6) by (simp add: same_but_reading_def)
  moreover note round = get_record_partial [where c = c and w = w, OF assms(1) m(1) bok, unfolded ext(1) bind.bind_lunit prod.case]
  ultimately show ?thesis
    using ret nil ext(2,4,8,9) \<open>ret \<noteq> 1\<close>
    by (intro exI [of _ ret] exI [of _ "c\<lparr>io := s1\<rparr>"] exI [of _ w1]) simp
qed

lemma read_record:
  fixes c :: "'k tls_conn"
  assumes "receiving t contents rand s' data later c w" "rbio (net t) = Some rd" "ok w" "rr_data (rrec c) = []"
    "\<forall>n v. rand n = Some v \<longrightarrow> length v = n"
  shows "\<exists>ret c' w'. ssl3_get_record t c w = Some (ret, c', w') \<and> ok w' \<and> receiving t contents rand s' data later c' w' \<and>
    (\<exists>x. contents w = x @ contents w') \<and>
    (never_fails (mem (io c)) \<longrightarrow> never_fails (mem (io c'))) \<and>
    (if ret = 1 then rr_data (rrec c') \<noteq> []
     else ret \<le> 0 \<and> (contents w' @ later = [] \<longrightarrow> data = []) \<and> (never_fails (mem (io c)) \<longrightarrow> refuses ok contents rd ret w'))"
proof -
  obtain s ds recs where r: "reader_ok (io c)" "recv_shutdown (conn (io c)) = ssl_shutdown_none" "\<not> has_hs_data c"
    "in_step (crypto t) s (conn (io c))" "sealed_stream (crypto t) rand s ds recs s'"
    "data = concat ds" "unread (io c) @ contents w @ later = concat recs"
    "case recs of [] \<Rightarrow> True | rec # _ \<Rightarrow> length (unread (io c)) \<le> length rec"
    using assms(1,4) unfolding receiving_def by auto
  from r(5) show ?thesis
  proof (cases rule: sealed_stream.cases)
    case none
    then have e: "unread (io c) = []" "contents w = []" "later = []" using r(7) by simp_all
    obtain ret c' w' where g: "ssl3_get_record t c w = Some (ret, c', w')" "ok w'" "reader_ok (io c')" "c' = c\<lparr>io := io c'\<rparr>"
      "never_fails (mem (io c)) \<longrightarrow> never_fails (mem (io c'))" "ret \<le> 0" "unread (io c') = []" "contents w' = []" "conn (io c') = conn (io c)"
      "never_fails (mem (io c)) \<longrightarrow> refuses ok contents rd ret w'"
      using get_record_empty [OF r(2) assms(2,3) r(1) e(1,2)] by blast
    have sel: "rrec c' = rrec c" "has_hs_data c' = has_hs_data c" by (subst g(4), simp)+
    have "receiving t contents rand s' (rr_data (rrec c') @ concat ds) later c' w'"
      by (rule receiving_step [where s = s and recs = recs]) (use r g(3,7-9) sel assms(4) e none in simp_all)
    then show ?thesis using g(1,2,5,6,8,10) sel assms(4) r(6) none e(2) by (intro exI [of _ ret] exI [of _ c'] exI [of _ w']) simp
  next
    case (more out_p max_out in_p d rec s1 ds1 recs1)
    have over: "SSL_AEAD_CTX_max_overhead (crypto t) (aead_write_ctx s) < 320" using r(4) unfolding in_step_def by blast
    have small: "length rec \<le> read_buffer_size" by (rule sealed_fits [OF more(3) r(4) more(4) assms(5)])
    have arr: "arriving (unread (io c)) (contents w) later rec (concat recs1)"
      using r(7,8) more(2) by (simp add: arriving_def)
    have ne: "d = [] \<longrightarrow> empty_record_count (conn (io c)) < kMaxEmptyRecords" using more(5) by simp
    obtain ret c' w' where g: "ssl3_get_record t c w = Some (ret, c', w')" "ok w'" "reader_ok (io c')" "c' = c\<lparr>io := io c', rrec := rrec c'\<rparr>"
      "\<exists>x. contents w = x @ contents w'" "never_fails (mem (io c)) \<longrightarrow> never_fails (mem (io c'))"
      "if ret = 1 then rrec c' = \<lparr>rr_type = SSL3_RT_APPLICATION_DATA, rr_data = d\<rparr> \<and> unread (io c') = [] \<and> contents w' @ later = concat recs1 \<and>
         conn (io c') = received (write_sequence s1) d (conn (io c))
       else ret \<le> 0 \<and> arriving (unread (io c')) (contents w') later rec (concat recs1) \<and> length (unread (io c')) < length rec \<and>
         rrec c' = rrec c \<and> conn (io c') = conn (io c) \<and> (never_fails (mem (io c)) \<longrightarrow> refuses ok contents rd ret w')"
      using get_record [OF more(3) r(4) more(4) ne assms(5) r(2) assms(2) small assms(3) r(1) arr] by blast
    have hs: "has_hs_data c' = has_hs_data c" by (subst g(4)) simp
    show ?thesis
    proof (cases "ret = 1")
      case True
      then have g1: "rrec c' = \<lparr>rr_type = SSL3_RT_APPLICATION_DATA, rr_data = d\<rparr>" "unread (io c') = []" "contents w' @ later = concat recs1"
        "conn (io c') = received (write_sequence s1) d (conn (io c))" using g(7) by simp_all
      have st: "in_step (crypto t) s1 (conn (io c'))"
        unfolding g1(4) by (rule tls_open_sealed(2) [OF more(3) r(4) more(4) ne assms(5)])
      have "recv_shutdown (conn (io c')) = ssl_shutdown_none" using r(2) by (simp add: g1(4) received_def)
      then have "receiving t contents rand s' (rr_data (rrec c') @ concat ds1) later c' w'"
        by (intro receiving_step [where s = s1 and recs = recs1]) (use st g(3) g1 hs r(3) more(6) in simp_all)
      moreover have "rr_data (rrec c') @ concat ds1 = data" using r(6) more(1) g1(1) by simp
      ultimately show ?thesis using g(1,2,5,6) True g1(1) more(5) by (intro exI [of _ ret] exI [of _ c'] exI [of _ w']) simp
    next
      case False
      then have g2: "ret \<le> 0" "arriving (unread (io c')) (contents w') later rec (concat recs1)" "rrec c' = rrec c" "conn (io c') = conn (io c)"
         "never_fails (mem (io c)) \<longrightarrow> refuses ok contents rd ret w'" using g(7) by simp_all
      have "receiving t contents rand s' (rr_data (rrec c') @ concat ds) later c' w'"
        by (rule receiving_step [where s = s and recs = recs]) (use r g(3) g2 hs assms(4) more(2) in \<open>simp_all add: arriving_def\<close>)
      then have "receiving t contents rand s' data later c' w'" using r(6) g2(3) assms(4) by simp
      moreover have "contents w' @ later = [] \<longrightarrow> data = []" using g2(2) g(7) False by (auto simp: arriving_def)
      ultimately show ?thesis using g(1,2,5,6) False g2(1,5) by (intro exI [of _ ret] exI [of _ c'] exI [of _ w']) simp
    qed
  qed
qed

lemma read_app_data:
  fixes c :: "'k tls_conn"
  assumes "receiving t contents rand s' data later c w" "rbio (net t) = Some rd" "ok w"
    "\<forall>n v. rand n = Some v \<longrightarrow> length v = n" "0 < n"
  shows "\<exists>k bs c' w'. ssl3_read_app_data t get_message n peek c w = Some ((k, bs, False), c', w') \<and> ok w' \<and>
    k \<le> n \<and> int (length bs) = max 0 k \<and> bs = take (length bs) data \<and> (\<exists>x. contents w = x @ contents w') \<and>
    receiving t contents rand s' (if peek then data else drop (length bs) data) later c' w' \<and>
    (k \<le> 0 \<longrightarrow> contents w' @ later = [] \<longrightarrow> data = []) \<and>
    (never_fails (mem (io c)) \<longrightarrow> never_fails (mem (io c')) \<and> (k \<le> 0 \<longrightarrow> refuses ok contents rd k w'))"
proof -
  have hs: "\<not> has_hs_data c" using assms(1) by (simp add: receiving_def)
  define got where "got = (if rr_data (rrec c) = [] then ssl3_get_record t c w else Some (1, c, w))"
  obtain ret c1 w1 where g: "got = Some (ret, c1, w1)" "ok w1" "receiving t contents rand s' data later c1 w1"
    "\<exists>x. contents w = x @ contents w1" "never_fails (mem (io c)) \<longrightarrow> never_fails (mem (io c1))"
    "if ret = 1 then rr_data (rrec c1) \<noteq> [] else ret \<le> 0 \<and> (contents w1 @ later = [] \<longrightarrow> data = []) \<and> (never_fails (mem (io c)) \<longrightarrow> refuses ok contents rd ret w1)"
  proof (cases "rr_data (rrec c) = []")
    case True
    then show thesis using read_record [OF assms(1-3) True assms(4)] that unfolding got_def by auto
  next
    case False
    then show thesis using that [of 1 c w] assms(1,3) by (simp add: got_def)
  qed
  have run: "ssl3_read_app_data t get_message n peek c w =
      (if ret \<le> 0 then Some ((ret, [], False), c1, w1)
       else case consume_record n peek c1 of ((k, bs), c2) \<Rightarrow> Some ((k, bs, False), c2, w1))"
    if "ret \<le> 0 \<or> rr_type (rrec c1) = SSL3_RT_APPLICATION_DATA \<and> rr_data (rrec c1) \<noteq> []"
  proof -
    have "(if rr_data (rrec c) = [] \<and> \<not> has_hs_data c then ssl3_get_record t c w else Some (1, c, w)) = Some (ret, c1, w1)"
      using g(1) hs by (simp add: got_def)
    note step = ssl3_read_app_data.simps [of t get_message n peek c w, unfolded this bind.bind_lunit prod.case]
    show ?thesis
    proof (cases "ret \<le> 0")
      case True
      then show ?thesis unfolding step by simp
    next
      case False
      then have "rr_type (rrec c1) = 23" "rr_data (rrec c1) \<noteq> []" using that by (simp_all add: SSL3_RT_APPLICATION_DATA_def)
      then show ?thesis unfolding step using False hs by (simp add: SSL3_RT_APPLICATION_DATA_def SSL3_RT_HANDSHAKE_def)
    qed
  qed
  show ?thesis
  proof (cases "ret = 1")
    case True
    then have d: "rr_data (rrec c1) \<noteq> []" using g(6) by simp
    then have ty: "rr_type (rrec c1) = SSL3_RT_APPLICATION_DATA" using g(3) by (simp add: receiving_def)
    obtain k bs c' where k: "consume_record n peek c1 = ((k, bs), c')" "0 < k" "k \<le> n" "k = int (length bs)" "bs = take (nat k) data"
      "receiving t contents rand s' (if peek then data else drop (nat k) data) later c' w1" "mem (io c') = mem (io c1)"
      using consume_record_delivers [OF g(3) assms(5) d, of peek] by blast
    have "ssl3_read_app_data t get_message n peek c w = Some ((k, bs, False), c', w1)"
      using run True d ty k(1) by simp
    moreover have len: "length bs = nat k" using k(2,4) by simp
    moreover have "int (length bs) = max 0 k" using k(2,4) by linarith
    moreover have "bs = take (length bs) data" using k(5) unfolding len .
    moreover have "receiving t contents rand s' (if peek then data else drop (length bs) data) later c' w1" using k(6) unfolding len .
    moreover have "never_fails (mem (io c)) \<longrightarrow> never_fails (mem (io c')) \<and> (k \<le> 0 \<longrightarrow> refuses ok contents rd k w1)"
      using k(2,7) g(5) by simp
    moreover have "k \<le> 0 \<longrightarrow> contents w1 @ later = [] \<longrightarrow> data = []" using k(2) by simp
    ultimately show ?thesis using k(3) g(2,4)
      by (intro exI [of _ k] exI [of _ bs] exI [of _ c'] exI [of _ w1]) (intro conjI; assumption)
  next
    case False
    then have "ret \<le> 0" "contents w1 @ later = [] \<longrightarrow> data = []" "never_fails (mem (io c)) \<longrightarrow> refuses ok contents rd ret w1"
      using g(6) by simp_all
    then show ?thesis using run g(2-5) assms(5)
      by (intro exI [of _ ret] exI [of _ "[]"] exI [of _ c1] exI [of _ w1]) simp
  qed
qed

end

text \<open>An application that reads: the bytes that its calls have delivered.\<close>

inductive delivered ::
  "('k, 'w) tls_env \<Rightarrow> ('k tls_conn \<Rightarrow> 'w \<Rightarrow> (int \<times> 'k tls_conn \<times> 'w) option) \<Rightarrow> 'k tls_conn \<Rightarrow> 'w \<Rightarrow> bytes \<Rightarrow> 'k tls_conn \<Rightarrow> 'w \<Rightarrow> bool"
  for t :: "('k, 'w) tls_env" and get_message c w
where
  nothing: "delivered t get_message c w [] c w"
| call: "delivered t get_message c w acc c1 w1 \<Longrightarrow> 0 < n \<Longrightarrow>
    ssl3_read_app_data t get_message n False c1 w1 = Some ((k, bs, got), c2, w2) \<Longrightarrow> delivered t get_message c w (acc @ bs) c2 w2"

context byte_source
begin

lemma delivered_receiving:
  fixes c :: "'k tls_conn"
  assumes "delivered t get_message c w acc c1 w1" "receiving t contents rand s' data later c w" "rbio (net t) = Some rd" "ok w"
    "\<forall>n v. rand n = Some v \<longrightarrow> length v = n"
  shows "ok w1 \<and> acc = take (length acc) data \<and> receiving t contents rand s' (drop (length acc) data) later c1 w1 \<and>
    (never_fails (mem (io c)) \<longrightarrow> never_fails (mem (io c1)))"
  using assms(1)
proof induction
  case nothing
  then show ?case using assms(2,4) by simp
next
  case (call acc c1 w1 n k bs got c2 w2)
  then have ih: "ok w1" "acc = take (length acc) data" "receiving t contents rand s' (drop (length acc) data) later c1 w1"
    "never_fails (mem (io c)) \<longrightarrow> never_fails (mem (io c1))" by blast+
  obtain k' bs' c' w' where r: "ssl3_read_app_data t get_message n False c1 w1 = Some ((k', bs', False), c', w')" "ok w'"
    "bs' = take (length bs') (drop (length acc) data)"
    "receiving t contents rand s' (drop (length bs') (drop (length acc) data)) later c' w'"
    "never_fails (mem (io c1)) \<longrightarrow> never_fails (mem (io c'))"
    using read_app_data [OF ih(3) assms(3) ih(1) assms(5) call(2), where peek = False] unfolding if_False by blast
  have eq: "bs' = bs" "c' = c2" "w' = w2" using r(1) call(3) by simp_all
  have "acc @ bs = take (length (acc @ bs)) data"
    using ih(2) r(3) unfolding eq length_append take_add by simp
  moreover have "receiving t contents rand s' (drop (length (acc @ bs)) data) later c2 w2"
    using r(4) unfolding eq by (simp add: add.commute)
  ultimately show ?case using r(2,5) ih(4) unfolding eq by blast
qed

end

section \<open>Properties\<close>

text \<open>C30: non-blocking writes lose and repeat nothing. Whatever the transport takes at a time, and however often
  the application has called \<open>ssl3_write_app_data\<close> again with its data, a call ends; what the transport has got
  is the beginning of the records of a prefix of the data, each sealed once and in order. A call that
  succeeds has written all of them, and a peer in step with the sender then gets exactly the data that the
  call reports written, as application data: all of it unless partial writes are enabled.\<close>

theorem app_data_arrives:
  assumes "byte_sink ok contents wr" "wbio (net t) = Some wr" "ok w" "sender_ok (crypto t) (conn (io c))"
    "\<forall>n v. rand_bytes t n = Some v \<longrightarrow> length v = n" "write_buffer (io c) = clear_buffer" "wnum c = 0"
    "retried t in_p inp c w c1 w1" "in_step (crypto t) (conn (io c)) r"
  shows "\<exists>ret c' w' wire recs r' more m. ssl3_write_app_data t in_p inp (int (length inp)) c1 w1 = Some (ret, c', w') \<and>
    tls_receive (length recs) (crypto t) r wire = (recs, [], r') \<and> contents w' @ more = contents w @ wire \<and>
    concat (map snd recs) = take m inp \<and> (\<forall>x \<in> set recs. fst x = SSL3_RT_APPLICATION_DATA) \<and>
    (ret > 0 \<longrightarrow> more = [] \<and> m = nat ret \<and> (partial_write c \<or> ret = int (length inp)) \<and> in_step (crypto t) (conn (io c')) r')"
proof -
  obtain ret c' w' calls wire k more m where run: "ssl3_write_app_data t in_p inp (int (length inp)) c1 w1 = Some (ret, c', w')"
    "tls_send (crypto t) (rand_bytes t) calls (conn (io c)) = Some (wire, k)" "list_all (call_ok (conn (io c))) calls"
    "list_all app_call calls" "contents w' @ more = contents w @ wire" "call_data calls = take m inp"
    "ret > 0 \<longrightarrow> more = [] \<and> call_data calls = take (nat ret) inp \<and> (partial_write c \<or> ret = int (length inp)) \<and> conn (io c') = k"
    using byte_sink.write_app_data_after [OF assms(1,8,2-7)] by blast
  define recs where "recs = concat (map (fragments (conn (io c))) calls)"
  obtain r' where r': "tls_receive (length recs) (crypto t) r wire = (recs, [], r')" "in_step (crypto t) k r'"
    using tls_receive_send [OF run(2) assms(9) run(3) assms(5), of "[]"] unfolding recs_def append_Nil2 by blast
  define m' where "m' = (if ret > 0 then nat ret else m)"
  have "concat (map snd recs) = take m' inp" "\<forall>x \<in> set recs. fst x = SSL3_RT_APPLICATION_DATA"
    using fragments_data [OF run(4), of "conn (io c)", folded recs_def] run(6,7) unfolding m'_def by auto
  then show ?thesis using run(1,5,7) r' by (metis m'_def)
qed

text \<open>C31: an application gets the data of its peer, in order, nothing twice and nothing left out. Whatever
  the transport gives at a time, after any calls of \<open>ssl3_read_app_data\<close> a further one ends and delivers the bytes
  that follow those delivered before, at most as many as were asked for. A call that delivers none has all the
  data behind it if everything has arrived, and has been refused by the transport unless memory has failed.\<close>

theorem app_data_read:
  assumes "byte_source ok contents rd" "rbio (net t) = Some rd" "ok w" "\<forall>n v. rand n = Some v \<longrightarrow> length v = n"
    "tls_send (crypto t) rand calls s = Some (wire, s')" "list_all (call_ok s) calls" "list_all app_call calls"
    "sender_ok (crypto t) s" "in_step (crypto t) s (conn (io c))" "contents w @ later = wire"
    "reader_ok (io c)" "unread (io c) = []" "rr_data (rrec c) = []" "\<not> has_hs_data c"
    "recv_shutdown (conn (io c)) = ssl_shutdown_none" "delivered t get_message c w acc c1 w1" "0 < n"
  shows "\<exists>k bs c' w'. ssl3_read_app_data t get_message n peek c1 w1 = Some ((k, bs, False), c', w') \<and> ok w' \<and>
    k \<le> n \<and> int (length bs) = max 0 k \<and> (\<exists>rest. acc @ bs @ rest = call_data calls) \<and>
    (k \<le> 0 \<longrightarrow> contents w' = [] \<and> later = [] \<longrightarrow> acc = call_data calls) \<and>
    (k \<le> 0 \<longrightarrow> never_fails (mem (io c)) \<longrightarrow> refuses ok contents rd k w')"
proof -
  obtain ds recs where ds: "sealed_stream (crypto t) rand s ds recs s'" "concat ds = call_data calls" "concat recs = wire"
    using sealed_stream_send [OF assms(5-8,4)] by blast
  have "receiving t contents rand s' (rr_data (rrec c) @ concat ds) later c w"
    by (rule receiving_step [OF assms(11,15,14) _ assms(9) ds(1)]) (simp_all add: assms(10,12,13) ds(3))
  then have "receiving t contents rand s' (call_data calls) later c w" by (simp add: assms(13) ds(2))
  note d = byte_source.delivered_receiving [OF assms(1,16) this assms(2,3,4)]
  then have "receiving t contents rand s' (drop (length acc) (call_data calls)) later c1 w1" "ok w1" by blast+
  from byte_source.read_app_data [OF assms(1) this(1) assms(2) this(2) assms(4,17), of get_message peek]
  obtain k bs c' w' where r: "ssl3_read_app_data t get_message n peek c1 w1 = Some ((k, bs, False), c', w')" "ok w'" "k \<le> n"
    "int (length bs) = max 0 k" "bs = take (length bs) (drop (length acc) (call_data calls))"
    "k \<le> 0 \<longrightarrow> contents w' @ later = [] \<longrightarrow> drop (length acc) (call_data calls) = []"
    "never_fails (mem (io c1)) \<longrightarrow> k \<le> 0 \<longrightarrow> refuses ok contents rd k w'"
    by blast
  have acc: "acc @ drop (length acc) (call_data calls) = call_data calls" using d append_take_drop_id [of "length acc"] by metis
  then have "acc @ bs @ drop (length bs) (drop (length acc) (call_data calls)) = call_data calls"
    using r(5) append_take_drop_id [of "length bs"] by metis
  moreover have "k \<le> 0 \<longrightarrow> contents w' = [] \<and> later = [] \<longrightarrow> acc = call_data calls" using r(6) acc by auto
  ultimately show ?thesis using r(1-4,7) d by blast
qed

section \<open>Concrete runs\<close>

lemma app_data_arrives_witness:
  "\<exists>ret c' w' wire recs r' more m. ssl3_write_app_data sample_env 300 [1, 2, 3] 3 sample_conn [9] = Some (ret, c', w') \<and>
     tls_receive (length recs) toy_evp sample_tls wire = (recs, [], r') \<and> w' @ more = 9 # wire \<and> concat (map snd recs) = take m [1, 2, 3] \<and>
     (ret > 0 \<longrightarrow> ret = 3 \<and> more = [] \<and> concat (map snd recs) = [1, 2, 3])"
proof -
  have io: "conn (io sample_conn) = sample_tls" "write_buffer (io sample_conn) = clear_buffer" "wnum sample_conn = 0" "partial_write sample_conn = False"
    by (simp_all add: sample_conn_def) (simp add: sample_io_def)
  have env: "crypto sample_env = toy_evp" "wbio (net sample_env) = Some slow_write" by (simp_all add: sample_env_def slow_def)
  have ok: "sender_ok toy_evp sample_tls" using sample_in_step by (simp add: in_step_def sender_ok_def)
  have rnd: "\<forall>n v. rand_bytes sample_env n = Some v \<longrightarrow> length v = n" by (simp add: sample_env_def)
  have three: "int (length [1, 2, 3 :: u8]) = 3" by simp
  obtain ret c' w' wire recs r' more m where run: "ssl3_write_app_data sample_env 300 [1, 2, 3] 3 sample_conn [9] = Some (ret, c', w')"
    "tls_receive (length recs) toy_evp sample_tls wire = (recs, [], r')" "id w' @ more = id [9] @ wire" "concat (map snd recs) = take m [1, 2, 3]"
    "ret > 0 \<longrightarrow> more = [] \<and> m = nat ret \<and> (False \<or> ret = 3) \<and> in_step toy_evp (conn (io c')) r'"
    using app_data_arrives [where c = sample_conn and t = sample_env and w = "[9]", unfolded io env, OF slow_sink.byte_sink_axioms refl TrueI ok rnd refl refl
        retried.start sample_in_step, of 300 "[1, 2, 3]", unfolded three] by blast
  have "ret > 0 \<longrightarrow> ret = 3 \<and> more = [] \<and> concat (map snd recs) = [1, 2, 3]" using run(4,5) by auto
  then show ?thesis using run(1-4) unfolding id_apply append.simps by blast
qed

lemma app_data_read_witness:
  "case tls_send toy_evp (\<lambda>n. None) [(0, 200, 23, 300, [10, 11, 12])] sample_tls of
     None \<Rightarrow> False
   | Some (wire, s') \<Rightarrow> \<exists>k bs c' w' rest. ssl3_read_app_data sample_env (\<lambda>c w. None) 2 False sample_conn wire = Some ((k, bs, False), c', w') \<and>
       0 < k \<and> k \<le> 2 \<and> k = int (length bs) \<and> bs @ rest = [10, 11, 12]"
proof -
  define calls :: "seal_call list" where "calls = [(0, 200, 23, 300, [10, 11, 12])]"
  obtain wire s' where send: "tls_send toy_evp (\<lambda>n. None) calls sample_tls = Some (wire, s')"
  proof -
    have "case tls_send toy_evp (\<lambda>n. None) [(0, 200, 23, 300, [10, 11, 12])] sample_tls of None \<Rightarrow> False | Some (wire, s') \<Rightarrow> True" by code_simp
    then show thesis using that by (auto simp: calls_def split: prod.splits option.splits)
  qed
  have io: "reader_ok (io sample_conn)" "unread (io sample_conn) = []" "conn (io sample_conn) = sample_tls" "never_fails (mem (io sample_conn))"
    using sample_reader_ok by (simp_all add: sample_conn_def reader_ok_def) (simp_all add: sample_io_def never_fails_def plain_env_def)
  have st: "rr_data (rrec sample_conn) = []" "\<not> has_hs_data sample_conn" by (simp_all add: sample_conn_def)
  have env: "crypto sample_env = toy_evp" "rbio (net sample_env) = Some slow_read" by (simp_all add: sample_env_def slow_def)
  have cok: "list_all (call_ok sample_tls) calls" "list_all app_call calls" "recv_shutdown sample_tls = ssl_shutdown_none"
    unfolding calls_def by code_simp+
  have dat: "call_data calls = [10, 11, 12]" by (simp add: calls_def call_data_def)
  have sd: "sender_ok toy_evp sample_tls" using sample_in_step by (simp add: in_step_def sender_ok_def)
  have rnd: "\<forall>n v. (\<lambda>n. None :: bytes option) n = Some v \<longrightarrow> length v = n" by simp
  have wire: "id wire @ [] = wire" by simp
  obtain k bs c' w' rest where r: "ssl3_read_app_data sample_env (\<lambda>c w. None) 2 False sample_conn wire = Some ((k, bs, False), c', w')"
    "k \<le> 2" "int (length bs) = max 0 k" "[] @ bs @ rest = [10, 11, 12]"
    "k \<le> 0 \<longrightarrow> id w' = [] \<and> [] = ([] :: bytes) \<longrightarrow> [] = [10, 11, 12 :: u8]"
    "k \<le> 0 \<longrightarrow> never_fails (mem (io sample_conn)) \<longrightarrow> refuses (\<lambda>w. True) id slow_read k w'"
    using app_data_read [where c = sample_conn and t = sample_env and w = wire and later = "[]" and get_message = "\<lambda>c w. None" and n = 2 and peek = False,
        unfolded io env, OF slow_source.byte_source_axioms refl TrueI rnd send cok(1,2) sd sample_in_step wire io(1) refl st cok(3) delivered.nothing] unfolding dat
    by fastforce
  have "0 < k"
  proof (rule ccontr)
    assume "\<not> 0 < k"
    then have "refuses (\<lambda>w. True) id slow_read k w'" using r(6) io(4) by simp
    then have "w' = []" by (auto simp: refuses_def slow_read_def Let_def split: if_splits)
    with r(5) \<open>\<not> 0 < k\<close> show False by simp
  qed
  then have "0 < k \<and> k \<le> 2 \<and> k = int (length bs) \<and> bs @ rest = [10, 11, 12]" using r(2-4) by simp
  then show ?thesis using r(1) send unfolding calls_def by auto
qed

end
