(* ===== verification/TlsPair.thy ===== *)
theory TlsPair
  imports TlsStream
begin

text \<open>
  Both ends of a TLS connection on one transport: the writer of \<open>TlsStream\<close> and the reader take turns in any order,
  each with its own connection, and share only the bytes on the way. A direction of a BIO pair is such a transport.
\<close>

section \<open>Both ends\<close>

text \<open>The two connections, the transport, what the reader has delivered, and the result of the write that succeeded.\<close>

record ('k, 'w) link =
  sender :: "'k tls_conn"
  receiver :: "'k tls_conn"
  wire :: 'w
  got :: bytes
  sent :: "nat option"

text \<open>The writer calls \<open>ssl3_write_app_data\<close> until it succeeds; the reader calls \<open>ssl3_read_app_data\<close> as it likes.\<close>

inductive link_step ::
  "('k, 'w) tls_env \<Rightarrow> ('k, 'w) tls_env \<Rightarrow> ('k tls_conn \<Rightarrow> 'w \<Rightarrow> (int \<times> 'k tls_conn \<times> 'w) option) \<Rightarrow> nat \<Rightarrow> bytes \<Rightarrow>
   ('k, 'w) link \<Rightarrow> ('k, 'w) link \<Rightarrow> bool"
  for ta :: "('k, 'w) tls_env" and tb get_message in_p inp
where
  writes: "sent l = None \<Longrightarrow> ssl3_write_app_data ta in_p inp (int (length inp)) (sender l) (wire l) = Some (ret, c, w) \<Longrightarrow>
    link_step ta tb get_message in_p inp l (l\<lparr>sender := c, wire := w, sent := (if ret > 0 then Some (nat ret) else None)\<rparr>)"
| reads: "0 < n \<Longrightarrow> ssl3_read_app_data tb get_message n False (receiver l) (wire l) = Some ((k, bs, hs), c, w) \<Longrightarrow>
    link_step ta tb get_message in_p inp l (l\<lparr>receiver := c, wire := w, got := got l @ bs\<rparr>)"

definition link_start :: "'k tls_conn \<Rightarrow> 'k tls_conn \<Rightarrow> 'w \<Rightarrow> ('k, 'w) link" where
  "link_start a b w = \<lparr>sender = a, receiver = b, wire = w, got = [], sent = None\<rparr>"

text \<open>Two fresh connections in step.\<close>

definition link_fresh :: "'k evp \<Rightarrow> 'k tls_conn \<Rightarrow> 'k tls_conn \<Rightarrow> bool" where
  "link_fresh evp a b \<longleftrightarrow> sender_ok evp (conn (io a)) \<and> write_buffer (io a) = clear_buffer \<and> wnum a = 0 \<and>
     in_step evp (conn (io a)) (conn (io b)) \<and> reader_ok (io b) \<and> unread (io b) = [] \<and> rr_data (rrec b) = [] \<and> \<not> has_hs_data b \<and>
     recv_shutdown (conn (io b)) = ssl_shutdown_none"

section \<open>The invariant\<close>

text \<open>What has been sealed after a call is read as the rest of the stream.\<close>

lemma tls_send_append:
  assumes "tls_send evp rand calls s = Some (w1, k)" "tls_send evp rand (calls @ calls') s = Some (w2, k')"
  shows "\<exists>rest. w2 = w1 @ rest \<and> tls_send evp rand calls' k = Some (rest, k')"
  using assms
proof (induction calls arbitrary: s w1 w2)
  case Nil
  then show ?case by simp
next
  case (Cons c calls)
  obtain out_p max_out ty in_p inp where c: "c = (out_p, max_out, ty, in_p, inp)" by (cases c)
  obtain rec s1 v1 v2 where "tls_seal_record evp rand s out_p max_out ty in_p inp = (Some rec, s1)"
    and v: "tls_send evp rand calls s1 = Some (v1, k)" "tls_send evp rand (calls @ calls') s1 = Some (v2, k')" "w1 = rec @ v1" "w2 = rec @ v2"
    using Cons.prems by (auto simp: c split: prod.splits option.splits)
  from Cons.IH [OF v(1,2)] show ?case by (auto simp: v(3,4))
qed

lemma receiving_more:
  assumes "receiving t contents rand k data later c w" "sealed_stream (crypto t) rand k ds recs k'"
    "contents w' @ later' = contents w @ later @ concat recs"
  shows "receiving t contents rand k' (data @ concat ds) later' c w'"
proof -
  obtain s ds0 recs0 where r: "reader_ok (io c)" "recv_shutdown (conn (io c)) = ssl_shutdown_none" "\<not> has_hs_data c"
    "rr_data (rrec c) \<noteq> [] \<longrightarrow> rr_type (rrec c) = SSL3_RT_APPLICATION_DATA" "in_step (crypto t) s (conn (io c))"
    "sealed_stream (crypto t) rand s ds0 recs0 k" "data = rr_data (rrec c) @ concat ds0" "unread (io c) @ contents w @ later = concat recs0"
    "case recs0 of [] \<Rightarrow> True | rec # _ \<Rightarrow> length (unread (io c)) \<le> length rec"
    using assms(1) unfolding receiving_def by blast
  have "recs0 @ recs \<noteq> [] \<longrightarrow> length (unread (io c)) \<le> length (hd (recs0 @ recs))"
    using r(8,9) by (cases recs0) simp_all
  moreover have "unread (io c) @ contents w' @ later' = concat (recs0 @ recs)" using r(8) assms(3) by simp
  ultimately have "receiving t contents rand k' (rr_data (rrec c) @ concat (ds0 @ ds)) later' c w'"
    using receiving_step [OF r(1-5) sealed_stream_append [OF r(6) assms(2)]] by blast
  then show ?thesis using r(7) by simp
qed

text \<open>The reader has what has been sealed up to a point; the rest is in its buffer, in the transport, or in the
  buffer of the writer. \<open>taken\<close> has left the transport.\<close>

definition link_inv ::
  "('k, 'w) tls_env \<Rightarrow> ('k, 'w) tls_env \<Rightarrow> ('w \<Rightarrow> bytes) \<Rightarrow> 'k ssl \<Rightarrow> nat \<Rightarrow> bytes \<Rightarrow> ('k, 'w) link \<Rightarrow> bool"
where
  "link_inv ta tb contents s0 in_p inp l \<longleftrightarrow>
     (\<exists>calls stream k taken data.
        sending ta (\<lambda>w. taken @ contents w) [] s0 in_p inp (case sent l of None \<Rightarrow> wnum (sender l) | Some m \<Rightarrow> m) calls (sender l) (wire l) \<and>
        (sent l \<noteq> None \<longrightarrow> buf (write_buffer (io (sender l))) = None) \<and>
        tls_send (crypto ta) (rand_bytes ta) calls s0 = Some (stream, k) \<and> call_data calls = got l @ data \<and>
        receiving tb contents (rand_bytes ta) k data (pending_bytes (write_buffer (io (sender l)))) (receiver l) (wire l))"

lemma sending_contents:
  "sending t f base s0 in_p inp tot calls c w \<Longrightarrow> f w = g w' \<Longrightarrow> sending t g base s0 in_p inp tot calls c w'"
  by (simp add: sending_def)

lemma call_data_append [simp]: "call_data (calls @ calls') = call_data calls @ call_data calls'"
  by (simp add: call_data_def)

lemma sendingD:
  assumes "sending t contents base s0 in_p inp tot calls c w" "tls_send (crypto t) (rand_bytes t) calls s0 = Some (stream, k)"
  shows "contents w @ pending_bytes (write_buffer (io c)) = base @ stream" "list_all (call_ok s0) calls" "list_all app_call calls"
    "buffer_ok (write_buffer (io c))" "\<exists>m. call_data calls = take m inp"
    "buf (write_buffer (io c)) = None \<Longrightarrow> pending_bytes (write_buffer (io c)) = [] \<and> call_data calls = take tot inp"
  using assms by (auto simp: sending_def buffer_ok_def pending_bytes_def split: if_splits)

locale byte_link = byte_source + byte_sink
begin

text \<open>A sink that also counts what a reader has taken is a sink.\<close>

lemma sink_after: "byte_sink ok (\<lambda>w. x @ contents w) wr"
proof
  fix w and bs :: bytes
  assume "ok w" "bs \<noteq> []"
  from wr [OF this] show "\<exists>i w'. wr bs (int (length bs)) w = Some (i, w') \<and> ok w' \<and> i \<le> int (length bs) \<and>
      x @ contents w' = (x @ contents w) @ take (nat i) bs" by auto
qed

lemma link_write:
  fixes l :: "('k, 'a) link"
  assumes "link_inv ta tb contents s0 in_p inp l" "ok (wire l)" "sent l = None" "wbio (net ta) = Some wr" "crypto tb = crypto ta"
    "sender_ok (crypto ta) s0" "\<forall>n v. rand_bytes ta n = Some v \<longrightarrow> length v = n"
  shows "\<exists>ret c w. ssl3_write_app_data ta in_p inp (int (length inp)) (sender l) (wire l) = Some (ret, c, w) \<and> ok w \<and>
    partial_write c = partial_write (sender l) \<and> (ret > 0 \<longrightarrow> partial_write (sender l) \<or> ret = int (length inp)) \<and>
    link_inv ta tb contents s0 in_p inp (l\<lparr>sender := c, wire := w, sent := (if ret > 0 then Some (nat ret) else None)\<rparr>)"
proof -
  obtain calls stream k taken data where inv: "sending ta (\<lambda>w. taken @ contents w) [] s0 in_p inp (wnum (sender l)) calls (sender l) (wire l)"
    "tls_send (crypto ta) (rand_bytes ta) calls s0 = Some (stream, k)" "call_data calls = got l @ data"
    "receiving tb contents (rand_bytes ta) k data (pending_bytes (write_buffer (io (sender l)))) (receiver l) (wire l)"
    using assms(1,3) unfolding link_inv_def by auto
  obtain ret c w calls' where run: "ssl3_write_app_data ta in_p inp (int (length inp)) (sender l) (wire l) = Some (ret, c, w)" "ok w"
    "partial_write c = partial_write (sender l)"
    "if ret > 0 then wnum c = 0 \<and> buf (write_buffer (io c)) = None \<and> (partial_write (sender l) \<or> ret = int (length inp)) \<and>
       sending ta (\<lambda>w. taken @ contents w) [] s0 in_p inp (nat ret) (calls @ calls') c w
     else sending ta (\<lambda>w. taken @ contents w) [] s0 in_p inp (wnum c) (calls @ calls') c w"
    using byte_sink.write_app_data [OF sink_after inv(1) assms(4,2,6,7)] by blast
  define l' where "l' = l\<lparr>sender := c, wire := w, sent := (if ret > 0 then Some (nat ret) else None)\<rparr>"
  define pos where "pos = (case sent l' of None \<Rightarrow> wnum (sender l') | Some m \<Rightarrow> m)"
  have s': "sending ta (\<lambda>w. taken @ contents w) [] s0 in_p inp pos (calls @ calls') c w"
    using run(4) by (simp add: pos_def l'_def split: if_splits)
  then obtain stream' k' where send': "tls_send (crypto ta) (rand_bytes ta) (calls @ calls') s0 = Some (stream', k')"
    unfolding sending_def by blast
  obtain rest where rest: "stream' = stream @ rest" "tls_send (crypto ta) (rand_bytes ta) calls' k = Some (rest, k')"
    using tls_send_append [OF inv(2) send'] by blast
  note new = sendingD [OF s' send']
  note ks = tls_send_sender [OF inv(2) assms(6,7)]
  define q where "q = write_sequence k"
  have k: "k = s0\<lparr>write_sequence := q\<rparr>" using ks unfolding q_def by blast
  have same: "call_ok k = call_ok s0" unfolding k by (rule ext, rule write_sequence_only)
  have oks: "list_all (call_ok k) calls'" "list_all app_call calls'" using new(2,3) unfolding same by simp_all
  obtain ds recs where ds: "sealed_stream (crypto ta) (rand_bytes ta) k ds recs k'" "concat ds = call_data calls'" "concat recs = rest"
    using sealed_stream_send [OF rest(2) oks _ assms(7)] ks by blast
  have "contents w @ pending_bytes (write_buffer (io c)) = contents (wire l) @ pending_bytes (write_buffer (io (sender l))) @ concat recs"
    using new(1) sendingD(1) [OF inv(1,2)] rest(1) ds(3) by (metis append_assoc same_append_eq append_Nil)
  from receiving_more [OF inv(4) ds(1) [folded assms(5)] this]
  have "receiving tb contents (rand_bytes ta) k' (data @ call_data calls') (pending_bytes (write_buffer (io c))) (receiver l) w"
    unfolding ds(2) .
  moreover have "sent l' \<noteq> None \<longrightarrow> buf (write_buffer (io c)) = None" using run(4) by (simp add: l'_def)
  moreover have "call_data (calls @ calls') = got l @ data @ call_data calls'" using inv(3) by simp
  ultimately have "link_inv ta tb contents s0 in_p inp l'"
    unfolding link_inv_def pos_def [symmetric] using s' send' by (auto simp: l'_def)
  moreover have "ret > 0 \<longrightarrow> partial_write (sender l) \<or> ret = int (length inp)" using run(4) by auto
  ultimately show ?thesis using run(1-3) unfolding l'_def by blast
qed

lemma link_read:
  fixes l :: "('k, 'a) link"
  assumes "link_inv ta tb contents s0 in_p inp l" "ok (wire l)" "rbio (net tb) = Some rd"
    "\<forall>n v. rand_bytes ta n = Some v \<longrightarrow> length v = n" "0 < n"
  shows "\<exists>k bs c w. ssl3_read_app_data tb get_message n False (receiver l) (wire l) = Some ((k, bs, False), c, w) \<and> ok w \<and>
    k \<le> n \<and> int (length bs) = max 0 k \<and> (\<exists>rest. inp = got l @ bs @ rest) \<and>
    (\<forall>m. sent l = Some m \<and> k \<le> 0 \<and> contents w = [] \<longrightarrow> got l = take m inp) \<and>
    link_inv ta tb contents s0 in_p inp (l\<lparr>receiver := c, wire := w, got := got l @ bs\<rparr>)"
proof -
  define pos where "pos = (case sent l of None \<Rightarrow> wnum (sender l) | Some m \<Rightarrow> m)"
  let ?later = "pending_bytes (write_buffer (io (sender l)))"
  obtain calls stream s' taken data where inv: "sending ta (\<lambda>w. taken @ contents w) [] s0 in_p inp pos calls (sender l) (wire l)"
    "sent l \<noteq> None \<longrightarrow> buf (write_buffer (io (sender l))) = None"
    "tls_send (crypto ta) (rand_bytes ta) calls s0 = Some (stream, s')" "call_data calls = got l @ data"
    "receiving tb contents (rand_bytes ta) s' data ?later (receiver l) (wire l)"
    using assms(1) unfolding link_inv_def pos_def by blast
  obtain k bs c w x where run: "ssl3_read_app_data tb get_message n False (receiver l) (wire l) = Some ((k, bs, False), c, w)" "ok w"
    "k \<le> n" "int (length bs) = max 0 k" "bs = take (length bs) data" "contents (wire l) = x @ contents w"
    "receiving tb contents (rand_bytes ta) s' (drop (length bs) data) ?later c w"
    "k \<le> 0 \<longrightarrow> contents w @ ?later = [] \<longrightarrow> data = []"
    using read_app_data [OF inv(5) assms(3,2,4,5), of get_message False] unfolding if_False by blast
  note D = sendingD [OF inv(1,3)]
  have data: "data = bs @ drop (length bs) data" using run(5) append_take_drop_id [of "length bs" data] by metis
  have pre: "\<exists>rest. inp = got l @ bs @ rest"
    using D(5) inv(4) data append_take_drop_id [of _ inp] by (metis append_assoc)
  have all: "got l = take m inp" if "sent l = Some m" "k \<le> 0" "contents w = []" for m
  proof -
    have "?later = [] \<and> call_data calls = take pos inp" using D(6) inv(2) that(1) by simp
    moreover have "pos = m" by (simp add: pos_def that(1))
    ultimately show ?thesis using run(8) that(2,3) inv(4) by simp
  qed
  define l' where "l' = l\<lparr>receiver := c, wire := w, got := got l @ bs\<rparr>"
  have sel: "sender l' = sender l" "wire l' = w" "receiver l' = c" "sent l' = sent l" "got l' = got l @ bs" by (simp_all add: l'_def)
  have "sending ta (\<lambda>w. (taken @ x) @ contents w) [] s0 in_p inp pos calls (sender l) w"
    by (rule sending_contents [OF inv(1)]) (simp add: run(6))
  moreover have "call_data calls = (got l @ bs) @ drop (length bs) data" using inv(4) data by simp
  ultimately have "link_inv ta tb contents s0 in_p inp l'"
    unfolding link_inv_def sel pos_def [symmetric] using inv(2,3) run(7) by blast
  then show ?thesis using run(1-4) pre all unfolding l'_def by blast
qed

lemma link_reachable:
  fixes a :: "'k tls_conn"
  assumes "(link_step ta tb get_message in_p inp)\<^sup>*\<^sup>* (link_start a b w) l" "link_fresh (crypto ta) a b" "ok w" "contents w = []"
    "wbio (net ta) = Some wr" "rbio (net tb) = Some rd" "crypto tb = crypto ta" "\<forall>n v. rand_bytes ta n = Some v \<longrightarrow> length v = n"
  shows "link_inv ta tb contents (conn (io a)) in_p inp l \<and> ok (wire l) \<and> partial_write (sender l) = partial_write a \<and>
    (\<forall>m. sent l = Some m \<longrightarrow> partial_write a \<or> m = length inp)"
  using assms(1)
proof induction
  case base
  let ?l = "link_start a b w"
  have f: "write_buffer (io a) = clear_buffer" "wnum a = 0" "in_step (crypto ta) (conn (io a)) (conn (io b))" "reader_ok (io b)" "unread (io b) = []"
    "rr_data (rrec b) = []" "\<not> has_hs_data b" "recv_shutdown (conn (io b)) = ssl_shutdown_none"
    using assms(2) by (simp_all add: link_fresh_def)
  have "sending ta (\<lambda>w. [] @ contents w) [] (conn (io a)) in_p inp (wnum a) [] a w"
    unfolding sending_def f(1,2) by (simp add: call_data_def assms(4)) (simp add: clear_buffer_def)
  moreover have "receiving tb contents (rand_bytes ta) (conn (io a)) (rr_data (rrec b) @ concat []) (pending_bytes (write_buffer (io a))) b w"
    by (rule receiving_step [OF f(4,8,7) _ _ sealed_stream.none]) (simp_all add: f assms(4,7))
  ultimately have "link_inv ta tb contents (conn (io a)) in_p inp ?l"
    unfolding link_inv_def link_start_def
    by (intro exI [of _ "[]"] exI [of _ "conn (io a)"]) (simp add: call_data_def f(6))
  then show ?case using assms(3) by (simp add: link_start_def)
next
  case (step l l')
  then have IH: "link_inv ta tb contents (conn (io a)) in_p inp l" "ok (wire l)" "partial_write (sender l) = partial_write a"
    "\<forall>m. sent l = Some m \<longrightarrow> partial_write a \<or> m = length inp" by blast+
  have sd: "sender_ok (crypto ta) (conn (io a))" using assms(2) by (simp add: link_fresh_def)
  from step(2) show ?case
  proof cases
    case (writes ret c w)
    then show ?thesis using link_write [OF IH(1,2) writes(2) assms(5,7) sd assms(8)] IH(3) by (auto simp: nat_eq_iff)
  next
    case (reads n k bs hs c w)
    then show ?thesis using link_read [OF IH(1,2) assms(6,8) reads(2), of get_message] IH(3,4) by auto
  qed
qed

end

text \<open>A direction of a BIO pair is such a transport.\<close>

interpretation pair_link: byte_link "\<lambda>h. pair_ok h a b" "\<lambda>h. ring (st_at h a)" "BIO_read b True" "\<lambda>bs. BIO_write a (Some bs)" for a b
  by unfold_locales

section \<open>Properties\<close>

text \<open>C29: two ends of TLS over a transport with short reads and writes, such as a BIO pair. One repeats its write until
  it succeeds, the other reads as it likes, in any order. At every moment the reader has a prefix of the data, and the next call of
  either ends: a read delivers the bytes that come next, and a write that succeeds reports all the data, or with partial writes
  a part. Once the write has succeeded, a reader that gets nothing from an empty transport has all that was reported.\<close>

theorem tls_link_delivers:
  assumes "byte_source ok contents rd" "byte_sink ok contents wr" "wbio (net ta) = Some wr" "rbio (net tb) = Some rd" "crypto tb = crypto ta"
    "\<forall>n v. rand_bytes ta n = Some v \<longrightarrow> length v = n" "ok w" "contents w = []" "link_fresh (crypto ta) a b"
    "(link_step ta tb get_message in_p inp)\<^sup>*\<^sup>* (link_start a b w) l" "0 < n"
  shows "(\<exists>k bs c w'. ssl3_read_app_data tb get_message n False (receiver l) (wire l) = Some ((k, bs, False), c, w') \<and>
      k \<le> n \<and> int (length bs) = max 0 k \<and> (\<exists>rest. inp = got l @ bs @ rest) \<and>
      (\<forall>m. sent l = Some m \<and> k \<le> 0 \<and> contents w' = [] \<longrightarrow> got l = take m inp)) \<and>
    (sent l = None \<longrightarrow> (\<exists>ret c w'. ssl3_write_app_data ta in_p inp (int (length inp)) (sender l) (wire l) = Some (ret, c, w') \<and>
      (ret > 0 \<longrightarrow> partial_write a \<or> ret = int (length inp))))"
proof -
  have L: "byte_link ok contents rd wr" by (rule byte_link.intro [OF assms(1,2)])
  note inv = byte_link.link_reachable [OF L assms(10,9,7,8,3-6)]
  then have i: "link_inv ta tb contents (conn (io a)) in_p inp l" "ok (wire l)" "partial_write (sender l) = partial_write a" by blast+
  have sd: "sender_ok (crypto ta) (conn (io a))" using assms(9) by (simp add: link_fresh_def)
  show ?thesis
    using byte_link.link_read [OF L i(1,2) assms(4,6,11), of get_message] byte_link.link_write [OF L i(1,2) _ assms(3,5) sd assms(6)] unfolding i(3)
    by blast
qed

section \<open>Concrete runs\<close>

text \<open>After any first write of three bytes over the slow transport, a read of two gives a beginning of them.\<close>

lemma tls_link_delivers_witness:
  "\<exists>l k bs c w' rest. link_step sample_env sample_env (\<lambda>c w. None) 300 [1, 2, 3] (link_start sample_conn sample_conn []) l \<and>
     ssl3_read_app_data sample_env (\<lambda>c w. None) 2 False (receiver l) (wire l) = Some ((k, bs, False), c, w') \<and>
     k \<le> 2 \<and> bs @ rest = [1, 2, 3]"
proof -
  have env: "crypto sample_env = toy_evp" "wbio (net sample_env) = Some slow_write" "rbio (net sample_env) = Some slow_read"
    by (simp_all add: sample_env_def slow_def)
  have rnd: "\<forall>n v. rand_bytes sample_env n = Some v \<longrightarrow> length v = n" by (simp add: sample_env_def)
  have "reader_ok (io sample_conn)" "unread (io sample_conn) = []" "conn (io sample_conn) = sample_tls"
    using sample_reader_ok by (simp_all add: sample_conn_def reader_ok_def) (simp_all add: sample_io_def)
  moreover have "recv_shutdown sample_tls = ssl_shutdown_none" by code_simp
  moreover have "sender_ok toy_evp sample_tls" using sample_in_step by (simp add: in_step_def sender_ok_def)
  ultimately have fresh: "link_fresh (crypto sample_env) sample_conn sample_conn"
    using sample_in_step by (simp add: link_fresh_def env) (simp add: sample_conn_def)
  have nil: "id ([] :: bytes) = []" by simp
  note claim = tls_link_delivers [where get_message = "\<lambda>c w. None" and in_p = 300 and inp = "[1, 2, 3]" and n = 2,
      OF slow_source.byte_source_axioms slow_sink.byte_sink_axioms env(2,3) refl rnd TrueI nil fresh]
  let ?l0 = "link_start sample_conn sample_conn ([] :: bytes)"
  have none: "sent ?l0 = None" by (simp add: link_start_def)
  obtain ret c w' where "ssl3_write_app_data sample_env 300 [1, 2, 3] (int (length [1, 2, 3 :: u8])) (sender ?l0) (wire ?l0) = Some (ret, c, w')"
    using claim [OF rtranclp.rtrancl_refl] none by auto
  note first = link_step.writes [OF none this]
  define l where "l = ?l0\<lparr>sender := c, wire := w', sent := (if ret > 0 then Some (nat ret) else None)\<rparr>"
  have step: "link_step sample_env sample_env (\<lambda>c w. None) 300 [1, 2, 3] ?l0 l" unfolding l_def by (rule first)
  obtain k bs c w' rest where "ssl3_read_app_data sample_env (\<lambda>c w. None) 2 False (receiver l) (wire l) = Some ((k, bs, False), c, w')"
    "k \<le> 2" "[1, 2, 3] = got l @ bs @ rest"
    using claim [OF r_into_rtranclp, of l] step by fastforce
  moreover have "got l = []" by (simp add: l_def link_start_def)
  ultimately show ?thesis using step by (metis append_Nil)
qed

end
