(* ===== verification/Spec2Isabelle.thy ===== *)
theory Spec2Isabelle
  imports Ber Base64 Stack Pool Buf DtlsRecord TlsPair
begin

text \<open>
  Verification of C code that this repository carries under \<open>src/BeenHere/Pods/BoringSSL\<close>: the byte-string
  library, Base64, the containers, the buffers and BIO pairs of \<open>crypto/\<close>, and the record layers and
  packets of \<open>ssl/\<close> that are built on them. Paths below are relative to that directory. The application itself (\<open>src/BeenHere\<close>,
  Swift) stores places of a user in Firebase; everything it sends goes through these parts.

  Conventions. A C structure is a record with the structure's fields, an enum a datatype. \<open>size_t\<close> is \<open>nat\<close>, and
  where the code depends on its wrapping around the sum is \<open>size_add\<close>, which wraps at 2^64; narrower integers are
  words. A function that returns 0 on error returns \<open>None\<close> here, together with the state it leaves; an operation
  on a state \<open>'s\<close> has the type \<open>('s, 'a) op\<close> and \<open>op_bind\<close> is the \<open>&&\<close> or \<open>||\<close> chain of the code. Memory that is
  allocated is a list of bytes: \<open>env\<close> is an oracle that says which allocation succeeds and what a fresh block
  holds, and a theorem that needs allocations to succeed says so. An \<open>abort()\<close> is a result of its own. An
  \<open>assert\<close> is an obligation: either an invariant implies it or the header of the theory says that it is the caller's.

  The theories, in the order of their dependencies:

  \<^item> \<open>Prelude\<close>: operations and their sequencing, byte lists and big-endian numbers, \<open>blit\<close> for \<open>memcpy\<close>, the
    allocator. \<open>Mem\<close>: the helpers of \<open>crypto/mem.c\<close>.

  \<^item> \<open>Cbs\<close>, \<open>Der\<close>: the reader \<open>crypto/bytestring/cbs.c\<close>. A \<open>CBS\<close> is the memory behind a pointer and a length; its
    view is the bytes it covers, and the collection \<open>view_simps\<close> rewrites every operation on views. \<open>Der\<close> gives the
    encoding as a function and shows that the readers accept exactly what it produces.

  \<^item> \<open>Cbb\<close>, \<open>CbbSpec\<close>, \<open>CbbRefine\<close>: the writer \<open>crypto/bytestring/cbb.c\<close>. A \<open>CBB\<close> is its buffer and the list of
    open children; a \<open>CBB*\<close> of the chain is a depth in this list. \<open>CbbSpec\<close> has an abstract builder, a stack of
    strings whose length prefixes are written when a child is closed, and the invariant \<open>cbb_represents\<close>;
    \<open>CbbRefine\<close> shows the simulation for every operation and draws soundness, completeness and
    the round trips with the reader from it.

  \<^item> \<open>Ber\<close>: \<open>crypto/bytestring/ber.c\<close> and \<open>asn1_compat.c\<close>. The specification is a forest of BER elements with its
    encodings and its DER normal form. The recursion of the code is bounded by \<open>kMaxDepth\<close>, so the functions
    terminate without fuel.

  \<^item> \<open>Base64\<close>: \<open>crypto/base64/base64.c\<close>, with the texts of RFC 4648 as a function, and both directions of its
    streaming interface.

  \<^item> \<open>Stack\<close>, \<open>LHash\<close>: \<open>crypto/stack/stack.c\<close> and \<open>crypto/lhash/lhash.c\<close> refine lists and maps. \<open>qsort\<close> and
    \<open>bsearch\<close> of the C library, and the hash and comparison functions, are parameters; what they must satisfy is a
    hypothesis. The locale of a hash function that agrees with equality is interpreted on the buffers of \<open>Pool\<close>.

  \<^item> \<open>Buf\<close>: \<open>crypto/buf/buf.c\<close>, and the copying functions of \<open>cbs.c\<close>.

  \<^item> \<open>Pool\<close>: \<open>crypto/pool/pool.c\<close> and \<open>crypto/refcount_lock.c\<close>. The code between a lock and its unlock is one step of
    a thread; \<open>section_step\<close> interleaves any number of threads, and the invariant of the reachable worlds counts
    the references that threads hold.

  \<^item> \<open>BioPair\<close>: \<open>crypto/bio/pair.c\<close>, and the entry points of \<open>crypto/bio/bio.c\<close>. BIOs live in a heap. The copying
    loops are partial functions (not ending would be \<open>None\<close>); the theorems show that they end, after at most two
    rounds. A pair refines two bounded queues; the locale \<open>byte_channel\<close> has the laws of one direction.

  \<^item> \<open>SslAead\<close>: \<open>ssl/ssl_aead_ctx.c\<close>. The AEAD is a parameter \<open>evp\<close>; \<open>evp_inverts\<close> says that opening undoes sealing
    and how long a ciphertext is, and \<open>SslAead\<close> has a small AEAD of this kind for concrete runs. The
    locale \<open>record_protection\<close> is what the record layers need; \<open>aead_protects\<close> proves it for every context.

  \<^item> \<open>SslState\<close>: the part of the connection that both record layers use, from \<open>ssl/tls_record.c\<close>,
    \<open>ssl/ssl_lib.c\<close>, \<open>ssl/ssl_cipher.c\<close>, \<open>ssl/tls_method.c\<close> and \<open>ssl/dtls_method.c\<close>.

  \<^item> \<open>DtlsRecord\<close>, \<open>TlsRecord\<close>: \<open>ssl/dtls_record.c\<close> and \<open>ssl/tls_record.c\<close>. Both show what the peer of a sender
    receives, and what an attacker can do who writes arbitrary bytes.

  \<^item> \<open>SslBuffer\<close>: \<open>ssl/ssl_buffer.c\<close>, the buffers between the record layers and a transport. The locales
    \<open>byte_source\<close> and \<open>byte_sink\<close> are the contract of \<open>BIO_read\<close> and \<open>BIO_write\<close>: short reads and writes, refusals
    with any result that is not positive. They are interpreted on the BIO pairs of \<open>BioPair\<close>. The loops over short
    reads and writes are partial functions; that they end is part of their theorems. The address of a fresh block,
    which the code aligns the payload with, is the parameter \<open>next_addr\<close>.

  \<^item> \<open>TlsPkt\<close>, \<open>TlsStream\<close>: \<open>ssl/s3_pkt.c\<close>. \<open>TlsPkt\<close> has its functions, and shows that a record which arrives in
    pieces is put together again. \<open>TlsStream\<close> has an invariant for each direction - \<open>sending\<close> relates the calls of
    a non-blocking writer to the records sealed, \<open>receiving\<close> what a reader has been given to what was sealed - and
    draws from them that application data arrives once, whole and in order. \<open>ssl3_get_message\<close>, of the handshake,
    is a parameter of the functions that call it.

  \<^item> \<open>TlsPair\<close>: both ends of a connection over one transport, whose calls interleave in any order. The locale
    \<open>byte_link\<close> joins \<open>byte_source\<close> and \<open>byte_sink\<close>, and is interpreted on a direction of a BIO pair; its invariant
    \<open>link_inv\<close> joins those of the two directions.

  What is not modelled. Of the modelled files: message and info callbacks, which cannot change the state; BIO
  callbacks, chains of BIOs and the other BIO types; freeing, where it has no effect that a caller can see, so
  memory leaks are not excluded except in \<open>Pool\<close>; the error queue. A writer's child handle is its position in
  the chain of open children: a handle that is used after its parent was written to, which the documentation of
  \<open>CBB\<close> forbids, is not described. The function given to \<open>lh_doall\<close> acts on a state of its own, not on the table.
  Of the repository: the handshake and the state machines of \<open>ssl/\<close> and DTLS above its record layer, X.509, ASN.1 templates, big numbers,
  elliptic curves, ciphers and digests (the record layers have them as the parameter \<open>evp\<close>), and the other pods -
  gRPC, Protobuf, nanopb, Firebase - which are separate programs.
\<close>

end
